(* ===== verification/Kprelude.thy ===== *)
theory Kprelude
  imports Main "HOL-Library.Word"
begin

text \<open>
  Shared ground of the development: the fixed-width integers of
  \<^verbatim>\<open>types.h\<close>, the error numbers of \<^verbatim>\<open>kernel/errno.h\<close> and the result type that
  carries them, the flag bits of \<^verbatim>\<open>kernel/uapi.h\<close> that several components test,
  the byte-addressed memory, and the generic lemmas on words, lists and
  first-free-slot searches that the component theories use.

  A kernel function that returns a non-negative result or a negated error number is
  a function into \<open>errno + 'a\<close>, with \<open>Inl\<close> for the error.  A table that the code
  scans with a \<^verbatim>\<open>for\<close> loop is a list, a pointer into it is an index, and the scan is
  \<open>first_idx\<close>.
\<close>

section \<open>Integers, memory and results\<close>

unbundle bit_operations_syntax

type_synonym u8 = "8 word"
type_synonym u16 = "16 word"
type_synonym u32 = "32 word"
type_synonym mem = "u32 \<Rightarrow> u8"

named_theorems kdefs \<open>unfolding rules for the flag and constant definitions\<close>
named_theorems kabs \<open>abstraction equations: how an operation acts on the abstract view\<close>
named_theorems kinv \<open>preservation of a component's invariant\<close>

text \<open>\<^verbatim>\<open>kernel/errno.h\<close>: the error names the modelled components return, in the
  header's order.  \<^verbatim>\<open>EWOULDBLOCK\<close> is the same number as \<^verbatim>\<open>EAGAIN\<close>.\<close>

datatype (plugins only: code size) errno =
    EPERM | ENOENT | ESRCH | EINTR | EIO | ENXIO | EBADF | EAGAIN | ENOLCK | EDEADLK
  | ENOMEM | EACCES | EFAULT | EBUSY | EEXIST | EXDEV | ENOTDIR | EISDIR | EINVAL
  | ENFILE | EMFILE | ENOTTY | EFBIG | ENOSPC | ESPIPE | EROFS | ENAMETOOLONG | ENOSYS
  | ENOTEMPTY | ELOOP | EPIPE | EPROTONOSUPPORT | EOVERFLOW | EADDRINUSE | EMSGSIZE
  | EADDRNOTAVAIL | ENETDOWN | ENETUNREACH | ETIMEDOUT | EHOSTUNREACH

type_synonym 'a result = "errno + 'a"

abbreviation EWOULDBLOCK :: errno where
  "EWOULDBLOCK \<equiv> EAGAIN"

section \<open>First matching slot of a table\<close>

fun first_idx :: "('a \<Rightarrow> bool) \<Rightarrow> 'a list \<Rightarrow> nat option" where
  "first_idx P [] = None"
| "first_idx P (x # xs) = (if P x then Some 0 else map_option Suc (first_idx P xs))"

lemma first_idx_None [simp]: "first_idx P xs = None \<longleftrightarrow> (\<forall>x\<in>set xs. \<not> P x)"
  by (induction xs) auto

lemma first_idx_SomeD:
  assumes "first_idx P xs = Some i"
  shows "i < length xs" and "P (xs ! i)" and "\<And>j. j < i \<Longrightarrow> \<not> P (xs ! j)"
proof -
  have "i < length xs \<and> P (xs ! i) \<and> (\<forall>j<i. \<not> P (xs ! j))"
    using assms
  proof (induction xs arbitrary: i)
    case Nil
    then show ?case by simp
  next
    case (Cons x xs)
    then show ?case
      by (auto split: if_splits simp: less_Suc_eq_0_disj)
  qed
  then show "i < length xs" and "P (xs ! i)" and "\<And>j. j < i \<Longrightarrow> \<not> P (xs ! j)"
    by auto
qed

lemma first_idx_SomeI:
  "i < length xs \<Longrightarrow> P (xs ! i) \<Longrightarrow> (\<And>j. j < i \<Longrightarrow> \<not> P (xs ! j)) \<Longrightarrow> first_idx P xs = Some i"
proof (induction xs arbitrary: i)
  case Nil
  then show ?case by simp
next
  case (Cons x xs)
  show ?case
  proof (cases i)
    case 0
    with Cons.prems show ?thesis by simp
  next
    case (Suc k)
    have "\<not> P x"
      using Cons.prems(3)[of 0] Suc by simp
    moreover have "first_idx P xs = Some k"
    proof (rule Cons.IH)
      show "k < length xs" and "P (xs ! k)" using Cons.prems Suc by auto
      show "\<not> P (xs ! j)" if "j < k" for j
        using Cons.prems(3)[of "Suc j"] that Suc by simp
    qed
    ultimately show ?thesis using Suc by simp
  qed
qed

lemma first_idx_ex: "(\<exists>x\<in>set xs. P x) \<Longrightarrow> \<exists>i. first_idx P xs = Some i"
  by (metis first_idx_None not_None_eq)

lemma first_idx_cong_on:
  "(\<And>x. x \<in> set xs \<Longrightarrow> P x = Q x) \<Longrightarrow> first_idx P xs = first_idx Q xs"
  by (induction xs) auto

section \<open>Words as bounded naturals\<close>

lemma unat_u32_less [simp]: "unat (x :: u32) < 4294967296"
  using unsigned_less [of x] by simp

lemma unat_u32_le [simp]: "unat (x :: u32) \<le> 4294967295"
  using unat_u32_less [of x] by linarith

lemma unat_u16_less [simp]: "unat (x :: u16) < 65536"
  using unsigned_less [of x] by simp

lemma unat_u8_less [simp]: "unat (x :: u8) < 256"
  using unsigned_less [of x] by simp

lemma unat_of_nat_u32 [simp]: "n < 4294967296 \<Longrightarrow> unat (of_nat n :: u32) = n"
  by (simp add: unat_of_nat)

lemma of_nat_eq_u32:
  "m < 4294967296 \<Longrightarrow> n < 4294967296 \<Longrightarrow> (of_nat m :: u32) = of_nat n \<longleftrightarrow> m = n"
  by (metis unat_of_nat_u32)

lemma unat_add_u32:
  "unat a + unat b < 4294967296 \<Longrightarrow> unat (a + b :: u32) = unat a + unat b"
  by (simp add: unat_word_ariths)

lemma unat_add_nat_u32:
  "unat a + n < 4294967296 \<Longrightarrow> unat (a + of_nat n :: u32) = unat a + n"
  by (simp add: unat_add_u32)

lemma unat_mult_u32:
  "unat a * unat b < 4294967296 \<Longrightarrow> unat (a * b :: u32) = unat a * unat b"
  by (simp add: unat_word_ariths)

lemma unat_diff_u32: "b \<le> a \<Longrightarrow> unat (a - b :: u32) = unat a - unat b"
  by (rule unat_sub)

lemma word_le_unat: "a \<le> b \<longleftrightarrow> unat a \<le> unat b" for a b :: u32
  by (rule word_le_nat_alt)

lemma word_less_unat: "a < b \<longleftrightarrow> unat a < unat b" for a b :: u32
  by (rule word_less_nat_alt)

text \<open>Offset of an address into a block: membership is one unsigned comparison, also
  where the block wraps around the top of the address space.\<close>

lemma offset_less_iff:
  assumes "unat p + n \<le> 4294967296"
  shows "unat (a - p :: u32) < n \<longleftrightarrow> unat p \<le> unat a \<and> unat a < unat p + n"
  using assms by (auto simp: unat_sub_if' split: if_splits)

lemma inc_less_u32: "i < (n :: u32) \<Longrightarrow> unat (i + 1) = Suc (unat i)"
proof -
  assume "i < n"
  then have "unat i < unat n" by (simp add: word_less_nat_alt)
  then have "unat i + unat (1 :: u32) < 4294967296"
    using unat_u32_le [of n] by (simp del: unat_u32_le)
  then show ?thesis by (simp add: unat_add_u32)
qed

section \<open>Flag bits of kernel/uapi.h\<close>

definition O_RDONLY :: u32 where [kdefs]: "O_RDONLY = 0x0000"
definition O_WRONLY :: u32 where [kdefs]: "O_WRONLY = 0x0001"
definition O_RDWR :: u32 where [kdefs]: "O_RDWR = 0x0002"
definition O_ACCMODE :: u32 where [kdefs]: "O_ACCMODE = 0x0003"
definition O_CREAT :: u32 where [kdefs]: "O_CREAT = 0x0040"
definition O_EXCL :: u32 where [kdefs]: "O_EXCL = 0x0080"
definition O_NONBLOCK :: u32 where [kdefs]: "O_NONBLOCK = 0x0800"
definition O_CLOEXEC :: u32 where [kdefs]: "O_CLOEXEC = 0x80000"

definition POLLIN :: u32 where [kdefs]: "POLLIN = 0x0001"
definition POLLOUT :: u32 where [kdefs]: "POLLOUT = 0x0004"
definition POLLERR :: u32 where [kdefs]: "POLLERR = 0x0008"
definition POLLHUP :: u32 where [kdefs]: "POLLHUP = 0x0010"
definition POLLRDNORM :: u32 where [kdefs]: "POLLRDNORM = 0x0040"
definition POLLWRNORM :: u32 where [kdefs]: "POLLWRNORM = POLLOUT"

text \<open>A flag word tested against a mask, as \<^verbatim>\<open>if (flags & MASK)\<close> does.\<close>

definition has :: "u32 \<Rightarrow> u32 \<Rightarrow> bool" where
  [kdefs]: "has flags m \<longleftrightarrow> flags AND m \<noteq> 0"

section \<open>Lists\<close>

lemma nth_list_update_if:
  "i < length xs \<Longrightarrow> xs[i := x] ! j = (if i = j then x else xs ! j)"
  by (simp add: nth_list_update)

lemma take_Suc_snoc: "n < length xs \<Longrightarrow> take (Suc n) xs = take n xs @ [xs ! n]"
  by (rule take_Suc_conv_app_nth)

lemma map_nth_upt: "map (\<lambda>i. xs ! i) [0..<length xs] = xs"
  by (rule map_nth)

end
