(* ===== verification/Kstring.thy ===== *)
theory Kstring
  imports Kprelude
begin

text \<open>
  \<^verbatim>\<open>kernel/string.c\<close> over byte-addressed memory: the copying, filling and comparing
  loops, one byte at a time as the source writes them, and the NUL-terminated string
  routines, which are partial (\<open>None\<close>: no terminator, the loop never ends).  The lemmas
  give each loop its closed form; \<open>memmove\<close> is correct for every overlap, and \<open>strcmp\<close>,
  \<open>strlen\<close>, \<open>strcpy\<close> agree with the list of bytes a string denotes.
\<close>

section \<open>Definitions\<close>

text \<open>\<^verbatim>\<open>while (n--) *d++ = *s++;\<close> --- the body of \<^verbatim>\<open>memcpy\<close> and of the forward branch of
  \<^verbatim>\<open>memmove\<close>.\<close>

fun memcpy :: "mem \<Rightarrow> u32 \<Rightarrow> u32 \<Rightarrow> nat \<Rightarrow> mem" where
  "memcpy m d s 0 = m"
| "memcpy m d s (Suc n) = memcpy (m(d := m s)) (d + 1) (s + 1) n"

text \<open>\<^verbatim>\<open>while (n--) *--d = *--s;\<close>\<close>

fun copy_back :: "mem \<Rightarrow> u32 \<Rightarrow> u32 \<Rightarrow> nat \<Rightarrow> mem" where
  "copy_back m d s 0 = m"
| "copy_back m d s (Suc n) = copy_back (m(d - 1 := m (s - 1))) (d - 1) (s - 1) n"

definition memmove :: "mem \<Rightarrow> u32 \<Rightarrow> u32 \<Rightarrow> nat \<Rightarrow> mem" where
  "memmove m d s n =
     (if d = s \<or> n = 0 then m
      else if d < s then memcpy m d s n
      else copy_back m (d + of_nat n) (s + of_nat n) n)"

fun memset :: "mem \<Rightarrow> u32 \<Rightarrow> u8 \<Rightarrow> nat \<Rightarrow> mem" where
  "memset m d c 0 = m"
| "memset m d c (Suc n) = memset (m(d := c)) (d + 1) c n"

fun memcmp :: "mem \<Rightarrow> u32 \<Rightarrow> u32 \<Rightarrow> nat \<Rightarrow> int" where
  "memcmp m p q 0 = 0"
| "memcmp m p q (Suc n) =
     (if m p \<noteq> m q then int (unat (m p)) - int (unat (m q)) else memcmp m (p + 1) (q + 1) n)"

partial_function (option) strlen_from :: "mem \<Rightarrow> u32 \<Rightarrow> u32 \<Rightarrow> u32 option" where
  "strlen_from m s p = (if m p = 0 then Some (p - s) else strlen_from m s (p + 1))"

definition strlen :: "mem \<Rightarrow> u32 \<Rightarrow> u32 option" where
  "strlen m s = strlen_from m s s"

partial_function (option) strcmp :: "mem \<Rightarrow> u32 \<Rightarrow> u32 \<Rightarrow> int option" where
  "strcmp m a b =
     (if m a \<noteq> 0 \<and> m a = m b then strcmp m (a + 1) (b + 1)
      else Some (int (unat (m a)) - int (unat (m b))))"

fun strncmp :: "mem \<Rightarrow> u32 \<Rightarrow> u32 \<Rightarrow> nat \<Rightarrow> int" where
  "strncmp m a b 0 = 0"
| "strncmp m a b (Suc n) =
     (if m a \<noteq> 0 \<and> m a = m b then strncmp m (a + 1) (b + 1) n
      else int (unat (m a)) - int (unat (m b)))"

partial_function (option) strcpy :: "mem \<Rightarrow> u32 \<Rightarrow> u32 \<Rightarrow> mem option" where
  "strcpy m d s =
     (if m s \<noteq> 0 then strcpy (m(d := m s)) (d + 1) (s + 1) else Some (m(d := m s)))"

definition to_upper :: "u8 \<Rightarrow> u8" where
  "to_upper c = (if 97 \<le> c \<and> c \<le> 122 then c - 97 + 65 else c)"

partial_function (option) stricmp :: "mem \<Rightarrow> u32 \<Rightarrow> u32 \<Rightarrow> int option" where
  "stricmp m a b =
     (let ca = to_upper (m a); cb = to_upper (m b)
      in if ca \<noteq> cb then Some (int (unat ca) - int (unat cb))
         else if ca = 0 then Some 0
         else stricmp m (a + 1) (b + 1))"

text \<open>\<^verbatim>\<open>strncpy\<close>: the copying loop, then the padding loop from where it stopped.\<close>

fun strncpy :: "mem \<Rightarrow> u32 \<Rightarrow> u32 \<Rightarrow> nat \<Rightarrow> mem" where
  "strncpy m d s 0 = m"
| "strncpy m d s (Suc n) =
     (if m s \<noteq> 0 then strncpy (m(d := m s)) (d + 1) (s + 1) n else memset m d 0 (Suc n))"

text \<open>\<^verbatim>\<open>strchr\<close>: \<open>Some None\<close> is the null pointer.  The character is an \<^verbatim>\<open>int\<close>, narrowed
  for the comparison in the loop and not narrowed for the final test.\<close>

partial_function (option) strchr :: "mem \<Rightarrow> u32 \<Rightarrow> int \<Rightarrow> u32 option option" where
  "strchr m s c =
     (if m s \<noteq> 0 then (if m s = of_int c then Some (Some s) else strchr m (s + 1) c)
      else Some (if c = 0 then Some s else None))"

definition strsignal :: "int \<Rightarrow> string" where
  "strsignal sig =
     (if sig = 1 then ''hangup'' else if sig = 2 then ''interrupt''
      else if sig = 3 then ''quit'' else if sig = 4 then ''illegal instruction''
      else if sig = 5 then ''trace trap'' else if sig = 6 then ''aborted''
      else if sig = 7 then ''bus error'' else if sig = 8 then ''arithmetic exception''
      else if sig = 9 then ''killed'' else if sig = 10 then ''user signal 1''
      else if sig = 11 then ''segmentation fault'' else if sig = 12 then ''user signal 2''
      else if sig = 13 then ''broken pipe'' else if sig = 14 then ''alarm clock''
      else if sig = 15 then ''terminated'' else if sig = 17 then ''child exited''
      else if sig = 18 then ''continued'' else if sig = 19 then ''stopped (signal)''
      else if sig = 20 then ''stopped'' else if sig = 21 then ''stopped (tty input)''
      else if sig = 22 then ''stopped (tty output)'' else if sig = 28 then ''window changed''
      else ''signal'')"

text \<open>The bytes a block of memory holds, and memory with a list of bytes written to it.\<close>

definition bytes_at :: "mem \<Rightarrow> u32 \<Rightarrow> nat \<Rightarrow> u8 list" where
  "bytes_at m a n = map (\<lambda>i. m (a + of_nat i)) [0..<n]"

definition put_bytes :: "mem \<Rightarrow> u32 \<Rightarrow> u8 list \<Rightarrow> mem" where
  "put_bytes m a xs = (\<lambda>x. if unat (x - a) < length xs then xs ! unat (x - a) else m x)"

text \<open>\<open>cstring m a xs\<close>: the NUL-terminated string at \<open>a\<close> is \<open>xs\<close>.\<close>

definition cstring :: "mem \<Rightarrow> u32 \<Rightarrow> u8 list \<Rightarrow> bool" where
  "cstring m a xs \<longleftrightarrow> bytes_at m a (length xs) = xs \<and> 0 \<notin> set xs \<and> m (a + of_nat (length xs)) = 0"

section \<open>Address arithmetic\<close>

lemma add_Suc_u32: "(a :: u32) + 1 + of_nat n = a + of_nat (Suc n)"
  by (simp add: algebra_simps)

lemma unat_diff_Suc: "x \<noteq> d \<Longrightarrow> unat (x - d :: u32) = Suc (unat (x - (d + 1)))"
proof -
  assume "x \<noteq> d"
  then have "x - d \<noteq> 0" by simp
  then have "unat (x - d - 1) = unat (x - d) - 1" and "unat (x - d) \<noteq> 0"
    by (simp_all add: unat_minus_one unat_eq_0)
  then show ?thesis by (simp add: algebra_simps)
qed

lemma of_nat_unat_diff: "of_nat (unat (x - d :: u32)) = x - d"
  by simp

section \<open>Closed forms of the loops\<close>

lemma memset_apply:
  "n \<le> 4294967296 \<Longrightarrow> memset m d c n x = (if unat (x - d) < n then c else m x)"
proof (induction n arbitrary: m d)
  case 0
  then show ?case by simp
next
  case (Suc n)
  then have "memset (m(d := c)) (d + 1) c n x
      = (if unat (x - (d + 1)) < n then c else (m(d := c)) x)"
    by simp
  then show ?case
    by (cases "x = d") (auto simp: unat_diff_Suc)
qed

lemma memcpy_apply:
  assumes "n \<le> 4294967296"
    and "\<And>i j. i < j \<Longrightarrow> j < n \<Longrightarrow> d + of_nat i \<noteq> s + of_nat j"
  shows "memcpy m d s n x = (if unat (x - d) < n then m (s + (x - d)) else m x)"
  using assms
proof (induction n arbitrary: m d s)
  case 0
  then show ?case by simp
next
  case (Suc n)
  let ?m = "m(d := m s)"
  have "memcpy ?m (d + 1) (s + 1) n x
      = (if unat (x - (d + 1)) < n then ?m (s + 1 + (x - (d + 1))) else ?m x)"
  proof (rule Suc.IH)
    show "n \<le> 4294967296" using Suc.prems(1) by simp
    show "d + 1 + of_nat i \<noteq> s + 1 + of_nat j" if "i < j" "j < n" for i j
      using Suc.prems(2)[of "Suc i" "Suc j"] that by (simp add: algebra_simps)
  qed
  moreover have "s + (x - d) \<noteq> d" if "x \<noteq> d" "unat (x - d) < Suc n"
  proof -
    have "0 < unat (x - d)" using that(1) by (simp add: unat_gt_0)
    then show ?thesis using Suc.prems(2)[of 0 "unat (x - d)"] that(2) by simp
  qed
  ultimately show ?case
    by (cases "x = d") (auto simp: unat_diff_Suc algebra_simps)
qed

lemma copy_back_apply:
  assumes "n \<le> 4294967296"
    and "\<And>i j. j < i \<Longrightarrow> i < n \<Longrightarrow> d + of_nat i \<noteq> s + of_nat j"
  shows "copy_back m (d + of_nat n) (s + of_nat n) n x
      = (if unat (x - d) < n then m (s + (x - d)) else m x)"
  using assms
proof (induction n arbitrary: m)
  case 0
  then show ?case by simp
next
  case (Suc n)
  let ?m = "m(d + of_nat n := m (s + of_nat n))"
  have IH: "copy_back ?m (d + of_nat n) (s + of_nat n) n x
      = (if unat (x - d) < n then ?m (s + (x - d)) else ?m x)"
    using Suc.prems by (intro Suc.IH) auto
  have n: "unat (of_nat n :: u32) = n" using Suc.prems(1) by simp
  have "s + (x - d) \<noteq> d + of_nat n" if "unat (x - d) < n"
    using Suc.prems(2)[of "unat (x - d)" n] that by auto
  moreover have "x = d + of_nat n \<longleftrightarrow> unat (x - d) = n"
    using n by (metis add_diff_cancel_left' diff_add_cancel of_nat_unat_diff)
  ultimately show ?case using IH
    by (auto simp: less_Suc_eq algebra_simps)
qed

lemma memmove_apply:
  assumes d: "unat d + n \<le> 4294967296" and s: "unat s + n \<le> 4294967296"
  shows "memmove m d s n x = (if unat (x - d) < n then m (s + (x - d)) else m x)"
proof -
  have n: "n \<le> 4294967296" using d by linarith
  have ne: "d + of_nat i \<noteq> s + of_nat j"
    if "i < n" "j < n" "unat d + i \<noteq> unat s + j" for i j
  proof
    assume "d + of_nat i = s + of_nat j"
    then have "unat (d + of_nat i) = unat (s + of_nat j)" by simp
    moreover have "unat d + i < 4294967296" "unat s + j < 4294967296"
      using that d s by linarith+
    ultimately show False
      using that(3) by (simp add: unat_add_nat_u32)
  qed
  show ?thesis
  proof (cases "d < s")
    case True
    then have "unat d < unat s" by (simp add: word_less_nat_alt)
    with True n ne show ?thesis
      by (simp add: memmove_def memcpy_apply)
  next
    case False
    then have "unat s \<le> unat d" by (simp add: word_less_nat_alt)
    then have "copy_back m (d + of_nat n) (s + of_nat n) n x
        = (if unat (x - d) < n then m (s + (x - d)) else m x)"
      using n ne by (intro copy_back_apply) auto
    with False show ?thesis by (auto simp: memmove_def)
  qed
qed

section \<open>Byte blocks\<close>

lemma length_bytes_at [simp]: "length (bytes_at m a n) = n"
  by (simp add: bytes_at_def)

lemma nth_bytes_at [simp]: "i < n \<Longrightarrow> bytes_at m a n ! i = m (a + of_nat i)"
  by (simp add: bytes_at_def)

lemma bytes_at_0 [simp]: "bytes_at m a 0 = []"
  by (simp add: bytes_at_def)

lemma bytes_at_Suc: "bytes_at m a (Suc n) = m a # bytes_at m (a + 1) n"
  by (rule nth_equalityI) (auto simp: nth_Cons add_Suc_u32 split: nat.splits)

lemma bytes_at_cong:
  "(\<And>i. i < n \<Longrightarrow> m (a + of_nat i) = m' (a + of_nat i)) \<Longrightarrow> bytes_at m a n = bytes_at m' a n"
  by (simp add: bytes_at_def)

lemma bytes_at_put_bytes [simp]:
  "length xs \<le> 4294967296 \<Longrightarrow> bytes_at (put_bytes m a xs) a (length xs) = xs"
  by (rule nth_equalityI) (auto simp: put_bytes_def)

section \<open>NUL-terminated strings\<close>

lemma cstring_Nil [simp]: "cstring m a [] \<longleftrightarrow> m a = 0"
  by (simp add: cstring_def)

lemma cstring_Cons [simp]:
  "cstring m a (x # xs) \<longleftrightarrow> m a = x \<and> x \<noteq> 0 \<and> cstring m (a + 1) xs"
  by (auto simp: cstring_def bytes_at_Suc add.assoc)

lemma strlen_from_cstring:
  "cstring m p xs \<Longrightarrow> strlen_from m s p = Some (p + of_nat (length xs) - s)"
proof (induction xs arbitrary: p)
  case Nil
  then show ?case by (simp add: strlen_from.simps)
next
  case (Cons x xs)
  then have "strlen_from m s (p + 1) = Some (p + 1 + of_nat (length xs) - s)" by simp
  with Cons.prems show ?case
    by (subst strlen_from.simps) (simp add: add_Suc_u32 algebra_simps)
qed

lemma uint_pos_u8: "c \<noteq> 0 \<Longrightarrow> uint (c :: u8) \<noteq> 0 \<and> 0 < uint c"
  using unsigned_greater_eq [of c] by (auto simp: order_less_le word_uint_eq_iff)

text \<open>C30: \<open>strcmp\<close> returns on every pair of NUL-terminated strings, with 0 exactly when they
  are equal and a negative result exactly when the first comes first in the byte-wise
  dictionary order.\<close>

theorem strcmp_correct:
  assumes "cstring m a xs" and "cstring m b ys"
  shows "\<exists>r. strcmp m a b = Some r \<and> (r = 0 \<longleftrightarrow> xs = ys) \<and>
             (r < 0 \<longleftrightarrow> (xs, ys) \<in> lexord {(u, v). u < v})"
  using assms
proof (induction xs arbitrary: a b ys)
  case Nil
  then show ?case
    by (cases ys) (auto simp: strcmp.simps [of m a b] uint_pos_u8)
next
  case (Cons x xs)
  show ?case
  proof (cases ys)
    case Nil
    with Cons.prems show ?thesis
      by (auto simp: strcmp.simps [of m a b] uint_pos_u8)
  next
    case (Cons y zs)
    show ?thesis
    proof (cases "x = y")
      case True
      from \<open>cstring m a (x # xs)\<close> \<open>cstring m b ys\<close> Cons
      have step: "strcmp m a b = strcmp m (a + 1) (b + 1)"
        and "cstring m (a + 1) xs" "cstring m (b + 1) zs"
        using True by (auto simp: strcmp.simps [of m a b])
      from Cons.IH [OF this(2,3)] step Cons True show ?thesis by auto
    next
      case False
      with Cons.prems Cons have "strcmp m a b = Some (int (unat x) - int (unat y))"
        by (auto simp: strcmp.simps [of m a b])
      with False Cons show ?thesis
        by (auto simp: word_less_def word_uint_eq_iff)
    qed
  qed
qed

lemma cstring_upd_other:
  "(\<And>i. i \<le> length xs \<Longrightarrow> a + of_nat i \<noteq> d) \<Longrightarrow> cstring (m(d := v)) a xs = cstring m a xs"
  using bytes_at_cong [of "length xs" "m(d := v)" a m] by (auto simp: cstring_def)

lemma strcpy_memcpy:
  assumes "cstring m s xs"
    and "\<And>i j. i < j \<Longrightarrow> j \<le> length xs \<Longrightarrow> d + of_nat i \<noteq> s + of_nat j"
  shows "strcpy m d s = Some (memcpy m d s (Suc (length xs)))"
  using assms
proof (induction xs arbitrary: m d s)
  case Nil
  then show ?case by (subst strcpy.simps) simp
next
  case (Cons x xs)
  let ?m = "m(d := m s)"
  have "cstring ?m (s + 1) xs"
  proof -
    have "s + 1 + of_nat i \<noteq> d" if "i \<le> length xs" for i
      using Cons.prems(2)[of 0 "Suc i"] that by (simp add: add_Suc_u32 algebra_simps)
    then show ?thesis using Cons.prems(1) by (simp add: cstring_upd_other)
  qed
  moreover have "d + 1 + of_nat i \<noteq> s + 1 + of_nat j" if "i < j" "j \<le> length xs" for i j
    using Cons.prems(2)[of "Suc i" "Suc j"] that by (simp add: algebra_simps)
  ultimately have "strcpy ?m (d + 1) (s + 1) = Some (memcpy ?m (d + 1) (s + 1) (Suc (length xs)))"
    by (rule Cons.IH)
  moreover have "m s \<noteq> 0" using Cons.prems(1) by simp
  ultimately show ?case by (subst strcpy.simps) simp
qed

section \<open>Properties\<close>

text \<open>C29: \<open>memmove\<close> moves a block correctly however the source and the destination overlap:
  the destination holds the bytes the source held before the call, and no other byte
  changes.  Both blocks must lie within the address space.\<close>

theorem memmove_correct:
  assumes "unat d + n \<le> 2 ^ 32" and "unat s + n \<le> 2 ^ 32"
  shows "bytes_at (memmove m d s n) d n = bytes_at m s n \<and>
    (\<forall>a. a \<in> {d + of_nat i |i. i < n} \<or> memmove m d s n a = m a)"
proof -
  have b: "unat d + n \<le> 4294967296" "unat s + n \<le> 4294967296" using assms by simp_all
  have "memmove m d s n (d + of_nat i) = m (s + of_nat i)" if "i < n" for i
    using that b by (simp add: memmove_apply)
  then have "bytes_at (memmove m d s n) d n = bytes_at m s n" by (simp add: bytes_at_def)
  moreover have "a \<in> {d + of_nat i |i. i < n} \<or> memmove m d s n a = m a" for a
  proof (cases "unat (a - d) < n")
    case True
    moreover have "a = d + of_nat (unat (a - d))" by simp
    ultimately show ?thesis by blast
  qed (use b in \<open>simp add: memmove_apply\<close>)
  ultimately show ?thesis by blast
qed

theorem memmove_correct_witness:
  "bytes_at (memmove (\<lambda>a. ucast a) 0x101 0x100 3) 0x101 3 = [0, 1, 2]"
  using conjunct1 [OF memmove_correct [of "0x101" 3 "0x100" "\<lambda>a. ucast a"]]
  by (simp add: bytes_at_def upt_rec numeral_2_eq_2 [symmetric])

theorem strcmp_correct_witness:
  "\<exists>r. strcmp (put_bytes (\<lambda>_. 0) 16 [97, 98, 0, 97, 99, 0]) 16 19 = Some r \<and> r < 0"
proof -
  let ?m = "put_bytes (\<lambda>_. 0) 16 [97, 98, 0, 97, 99, 0]"
  have "cstring ?m 16 [97, 98]" "cstring ?m 19 [97, 99]"
    by (simp_all add: cstring_def bytes_at_def put_bytes_def upt_rec)
  from strcmp_correct [OF this] show ?thesis by auto
qed

end
