(* ===== verification/Pmm.thy ===== *)
theory Pmm
  imports Kstring "HOL-Library.Multiset"
begin

text \<open>
  \<^verbatim>\<open>kernel/pmm.c\<close>, the physical page allocator.  Its bitmap and its reference counts live
  in the memory they describe, at the front of the pool, so the model keeps them there:
  the state holds the byte memory and the addresses \<open>bitmap\<close> and \<open>refs\<close>, every
  \<open>test_bit\<close> reads a byte of it and every \<open>pmm_alloc\<close> zeroes a page of it.
  The invariant \<open>pmm_wf\<close> says where the tables are, that their own pages are taken, that
  \<open>used\<close> counts the set bits and that a free page has no extra references; the
  abstraction \<open>holders\<close> is the number of holders of each page, on which every
  operation acts by one function update.
\<close>

section \<open>Definitions\<close>

definition PAGE_SIZE :: u32 where [kdefs]: "PAGE_SIZE = 4096"
definition PAGE_MASK :: u32 where [kdefs]: "PAGE_MASK = PAGE_SIZE - 1"

definition PAGE_ALIGN_DOWN :: "u32 \<Rightarrow> u32" where
  [kdefs]: "PAGE_ALIGN_DOWN x = x AND NOT PAGE_MASK"

definition PAGE_ALIGN_UP :: "u32 \<Rightarrow> u32" where
  [kdefs]: "PAGE_ALIGN_UP x = PAGE_ALIGN_DOWN (x + PAGE_MASK)"

record pmm =
  pmem :: mem
  bitmap :: u32
  refs :: u32
  base :: u32
  total :: u32
  used :: u32

definition pmm_test_bit :: "pmm \<Rightarrow> u32 \<Rightarrow> bool" where
  "pmm_test_bit s i \<longleftrightarrow> drop_bit (unat (i AND 7)) (pmem s (bitmap s + drop_bit 3 i)) AND 1 \<noteq> 0"

definition pmm_set_bit :: "u32 \<Rightarrow> pmm \<Rightarrow> pmm" where
  "pmm_set_bit i s =
     (let a = bitmap s + drop_bit 3 i
      in s\<lparr>pmem := (pmem s)(a := pmem s a OR push_bit (unat (i AND 7)) 1)\<rparr>)"

definition pmm_clear_bit :: "u32 \<Rightarrow> pmm \<Rightarrow> pmm" where
  "pmm_clear_bit i s =
     (let a = bitmap s + drop_bit 3 i
      in s\<lparr>pmem := (pmem s)(a := pmem s a AND NOT (push_bit (unat (i AND 7)) 1))\<rparr>)"

text \<open>\<^verbatim>\<open>refs[i]\<close>, a big-endian \<^verbatim>\<open>u16\<close>.\<close>

definition ld16 :: "mem \<Rightarrow> u32 \<Rightarrow> u16" where
  "ld16 m a = push_bit 8 (ucast (m a)) OR ucast (m (a + 1))"

definition st16 :: "mem \<Rightarrow> u32 \<Rightarrow> u16 \<Rightarrow> mem" where
  "st16 m a v = m(a := ucast (drop_bit 8 v), a + 1 := ucast v)"

definition pmm_refs :: "pmm \<Rightarrow> u32 \<Rightarrow> u16" where
  "pmm_refs s i = ld16 (pmem s) (refs s + 2 * i)"

definition pmm_set_refs :: "u32 \<Rightarrow> u16 \<Rightarrow> pmm \<Rightarrow> pmm" where
  "pmm_set_refs i v s = s\<lparr>pmem := st16 (pmem s) (refs s + 2 * i) v\<rparr>"

definition u32_upto :: "u32 \<Rightarrow> u32 list" where
  "u32_upto n = map of_nat [0..<unat n]"

definition pmm_init :: "u32 \<Rightarrow> u32 \<Rightarrow> pmm \<Rightarrow> pmm" where
  "pmm_init first last0 s0 =
     (let s = s0\<lparr>used := 0, base := PAGE_ALIGN_UP first\<rparr>;
          last1 = PAGE_ALIGN_DOWN last0
      in if last1 \<le> base s then s\<lparr>total := 0, bitmap := 0\<rparr>
         else
           let pages = (last1 - base s) div PAGE_SIZE;
               map_bytes = ((pages + 7) div 8 + 1) AND NOT 1;
               map_bytes = map_bytes + pages * 2;
               map_pages = (map_bytes + PAGE_SIZE - 1) div PAGE_SIZE
           in if pages \<le> map_pages then s\<lparr>total := 0, bitmap := 0\<rparr>
              else
                let s = s\<lparr>bitmap := base s,
                          pmem := memset (pmem s) (base s) 0 (unat (map_pages * PAGE_SIZE)),
                          refs := base s + (((pages + 7) div 8 + 1) AND NOT 1),
                          total := pages\<rparr>
                in foldl (\<lambda>s i. (pmm_set_bit i s)\<lparr>used := used s + 1\<rparr>) s (u32_upto map_pages))"

definition pmm_alloc :: "pmm \<Rightarrow> u32 \<times> pmm" where
  "pmm_alloc s =
     (case find (\<lambda>i. \<not> pmm_test_bit s i) (u32_upto (total s)) of
        None \<Rightarrow> (0, s)
      | Some i \<Rightarrow>
          let pa = base s + i * PAGE_SIZE;
              s1 = (pmm_set_bit i s)\<lparr>used := used s + 1\<rparr>
          in (pa, s1\<lparr>pmem := memset (pmem s1) pa 0 (unat PAGE_SIZE)\<rparr>))"

definition pmm_free :: "u32 \<Rightarrow> pmm \<Rightarrow> pmm" where
  "pmm_free pa s =
     (if pa < base s then s
      else
        let i = (pa - base s) div PAGE_SIZE
        in if i < total s \<and> pmm_test_bit s i \<and> pmm_refs s i \<noteq> 0
           then pmm_set_refs i (pmm_refs s i - 1) s
           else if total s \<le> i \<or> \<not> pmm_test_bit s i then s
           else (pmm_clear_bit i s)\<lparr>used := used s - 1\<rparr>)"

text \<open>The run of clear bits that \<^verbatim>\<open>for (j = 0; j < n; j++) if (test_bit(i + j)) break;\<close>
  counts, and the outer loop of \<^verbatim>\<open>pmm_alloc_pages\<close>, which skips a failed run.  The
  indices are naturals: \<open>i + n\<close> stays below \<open>2 * total\<close>, far from wrapping.\<close>

definition clear_run :: "pmm \<Rightarrow> nat \<Rightarrow> nat \<Rightarrow> nat" where
  "clear_run s i n = length (takeWhile (\<lambda>j. \<not> pmm_test_bit s (of_nat (i + j))) [0..<n])"

function find_run :: "pmm \<Rightarrow> nat \<Rightarrow> nat \<Rightarrow> nat option" where
  "find_run s n i =
     (if i + n \<le> unat (total s)
      then let j = clear_run s i n in if j = n then Some i else find_run s n (i + j + 1)
      else None)"
  by pat_completeness auto
termination
  by (relation "measure (\<lambda>(s, n, i). Suc (unat (total s)) - i)") auto

definition pmm_alloc_pages :: "u32 \<Rightarrow> pmm \<Rightarrow> u32 \<times> pmm" where
  "pmm_alloc_pages n s =
     (if n = 0 then (0, s)
      else if n = 1 then pmm_alloc s
      else
        case find_run s (unat n) 0 of
          None \<Rightarrow> (0, s)
        | Some i \<Rightarrow>
            let pa = base s + of_nat i * PAGE_SIZE;
                s1 = foldl (\<lambda>s j. pmm_set_bit (of_nat (i + j)) s) s [0..<unat n];
                s2 = s1\<lparr>used := used s1 + n\<rparr>
            in (pa, s2\<lparr>pmem := memset (pmem s2) pa 0 (unat (n * PAGE_SIZE))\<rparr>))"

fun pmm_free_pages :: "u32 \<Rightarrow> nat \<Rightarrow> pmm \<Rightarrow> pmm" where
  "pmm_free_pages pa 0 s = s"
| "pmm_free_pages pa (Suc n) s = pmm_free_pages (pa + PAGE_SIZE) n (pmm_free pa s)"

definition pmm_ref :: "u32 \<Rightarrow> pmm \<Rightarrow> bool \<times> pmm" where
  "pmm_ref pa s =
     (if pa < base s then (False, s)
      else
        let i = (pa - base s) div PAGE_SIZE
        in if total s \<le> i \<or> \<not> pmm_test_bit s i \<or> pmm_refs s i = 0xffff then (False, s)
           else (True, pmm_set_refs i (pmm_refs s i + 1) s))"

definition pmm_refcount :: "u32 \<Rightarrow> pmm \<Rightarrow> u32" where
  "pmm_refcount pa s =
     (if pa < base s then 0
      else
        let i = (pa - base s) div PAGE_SIZE
        in if total s \<le> i \<or> \<not> pmm_test_bit s i then 0 else 1 + ucast (pmm_refs s i))"

definition pmm_total :: "pmm \<Rightarrow> u32" where
  "pmm_total s = total s"

definition pmm_available :: "pmm \<Rightarrow> u32" where
  "pmm_available s = total s - used s"

section \<open>Layout, invariant and abstraction\<close>

text \<open>The layout \<open>pmm_init\<close> computes, over the naturals: the offset of the counts, and the
  number of pages the two tables take.\<close>

definition refs_off :: "nat \<Rightarrow> nat" where
  "refs_off T = 2 * (((T + 7) div 8 + 1) div 2)"

definition map_pages_of :: "nat \<Rightarrow> nat" where
  "map_pages_of T = (refs_off T + 2 * T + 4095) div 4096"

text \<open>Byte \<open>k\<close> of the pool, bit \<open>i\<close> of the map and count \<open>i\<close>, by natural index.\<close>

definition pool_byte :: "pmm \<Rightarrow> nat \<Rightarrow> u8" where
  "pool_byte s k = pmem s (base s + of_nat k)"

definition taken :: "pmm \<Rightarrow> nat \<Rightarrow> bool" where
  "taken s i \<longleftrightarrow> i < unat (total s) \<and> pmm_test_bit s (of_nat i)"

definition extra :: "pmm \<Rightarrow> nat \<Rightarrow> nat" where
  "extra s i = unat (pmm_refs s (of_nat i))"

definition holders :: "pmm \<Rightarrow> nat \<Rightarrow> nat" where
  "holders s i = (if taken s i then Suc (extra s i) else 0)"

definition pmm_layout :: "pmm \<Rightarrow> bool" where
  "pmm_layout s \<longleftrightarrow>
     unat (base s) mod 4096 = 0 \<and>
     unat (base s) + 4096 * unat (total s) < 4294967296 \<and>
     map_pages_of (unat (total s)) < unat (total s) \<and>
     bitmap s = base s \<and> refs s = base s + of_nat (refs_off (unat (total s)))"

definition pmm_wf :: "pmm \<Rightarrow> bool" where
  "pmm_wf s \<longleftrightarrow>
     pmm_layout s \<and>
     (\<forall>i < map_pages_of (unat (total s)). taken s i) \<and>
     unat (used s) = card {i. taken s i} \<and>
     (\<forall>i < unat (total s). \<not> taken s i \<longrightarrow> extra s i = 0)"

text \<open>The physical address of page \<open>i\<close>, and the pages that are not the tables' own.\<close>

definition page_pa :: "pmm \<Rightarrow> nat \<Rightarrow> u32" where
  "page_pa s i = base s + of_nat i * PAGE_SIZE"

definition user_page :: "pmm \<Rightarrow> nat \<Rightarrow> bool" where
  "user_page s i \<longleftrightarrow> map_pages_of (unat (total s)) \<le> i \<and> i < unat (total s)"

declare find_run.simps [simp del]

section \<open>Table layout\<close>

lemma refs_off_bounds:
  "(T + 7) div 8 \<le> refs_off T" "refs_off T + 2 * T \<le> 4096 * map_pages_of T"
  unfolding refs_off_def map_pages_of_def by linarith+

lemma bit_byte_in_map: "i < T \<Longrightarrow> i div 8 < refs_off T"
  unfolding refs_off_def by linarith

lemma map_pages_pos: "0 < T \<Longrightarrow> 0 < map_pages_of T"
  using refs_off_bounds(2)[of T] by (cases "map_pages_of T") auto

lemma layoutD:
  assumes "pmm_layout s"
  shows "bitmap s = base s" and "refs s = base s + of_nat (refs_off (unat (total s)))"
    and "unat (base s) + 4096 * unat (total s) < 4294967296"
    and "map_pages_of (unat (total s)) < unat (total s)"
    and "0 < map_pages_of (unat (total s))"
    and "unat (total s) < 1048576"
  using assms map_pages_pos [of "unat (total s)"] by (auto simp: pmm_layout_def)

lemma pool_addr_eq:
  "j < 4294967296 \<Longrightarrow> k < 4294967296 \<Longrightarrow> (b :: u32) + of_nat j = b + of_nat k \<longleftrightarrow> j = k"
  by (simp add: of_nat_eq_u32)

lemma pool_byte_upd:
  assumes "j < 4294967296" and "k < 4294967296"
  shows "pool_byte (s\<lparr>pmem := (pmem s)(base s + of_nat j := v)\<rparr>) k
      = (if k = j then v else pool_byte s k)"
  using assms by (auto simp: pool_byte_def of_nat_eq_u32)

lemma pool_byte_memset:
  assumes "j + n \<le> 4294967296" and "k < 4294967296"
  shows "pool_byte (s\<lparr>pmem := memset (pmem s) (base s + of_nat j) 0 n\<rparr>) k
      = (if j \<le> k \<and> k < j + n then 0 else pool_byte s k)"
proof -
  have "base s + of_nat k - (base s + of_nat j) = of_nat k - of_nat j" by simp
  moreover have "unat (of_nat k - of_nat j :: u32) < n \<longleftrightarrow> j \<le> k \<and> k < j + n" if "n \<noteq> 0"
    using offset_less_iff [of "of_nat j" n "of_nat k"] assms that by simp
  ultimately show ?thesis
    using assms by (cases "n = 0") (auto simp: pool_byte_def memset_apply)
qed

section \<open>Bits and counts by pool byte\<close>

lemma drop_bit_3_of_nat: "i < 4294967296 \<Longrightarrow> drop_bit 3 (of_nat i :: u32) = of_nat (i div 8)"
  by (rule word_unat_eq_iff [THEN iffD2]) (simp add: unat_drop_bit_eq drop_bit_eq_div unat_div)

lemma and_7_of_nat: "i < 4294967296 \<Longrightarrow> unat (of_nat i AND 7 :: u32) = i mod 8"
proof -
  assume i: "i < 4294967296"
  have "(7 :: u32) = mask 3" by (simp add: mask_eq_exp_minus_1)
  then have "of_nat i AND 7 = take_bit 3 (of_nat i :: u32)" by (simp add: take_bit_eq_mask)
  then show ?thesis using i by (simp add: take_bit_eq_mod unat_mod)
qed

lemma and_1_bit: "(w :: u8) AND 1 \<noteq> 0 \<longleftrightarrow> bit w 0"
  by (simp add: and_one_eq odd_iff_mod_2_eq_one bit_0)

lemma pmm_test_bit_byte:
  "pmm_layout s \<Longrightarrow> i < 4294967296 \<Longrightarrow>
   pmm_test_bit s (of_nat i) = bit (pool_byte s (i div 8)) (i mod 8)"
  by (simp add: pmm_test_bit_def drop_bit_3_of_nat and_7_of_nat and_1_bit bit_drop_bit_eq
      pool_byte_def layoutD)

lemma refs_addr:
  "pmm_layout s \<Longrightarrow> refs s + 2 * of_nat i = base s + of_nat (refs_off (unat (total s)) + 2 * i)"
  by (simp add: layoutD)

lemma pmm_refs_byte:
  assumes "pmm_layout s"
  shows "pmm_refs s (of_nat i) =
      push_bit 8 (ucast (pool_byte s (refs_off (unat (total s)) + 2 * i)))
      OR ucast (pool_byte s (refs_off (unat (total s)) + 2 * i + 1))"
  unfolding pmm_refs_def ld16_def refs_addr [OF assms] pool_byte_def
  by (simp add: algebra_simps)

lemma ld16_st16_same: "ld16 (st16 m a v) a = v"
  by (rule bit_word_eqI) (auto simp: ld16_def st16_def bit_simps)

lemma ld16_st16_other:
  "a \<noteq> b \<Longrightarrow> a \<noteq> b + 1 \<Longrightarrow> a + 1 \<noteq> b \<Longrightarrow> ld16 (st16 m b v) a = ld16 m a"
  by (simp add: ld16_def st16_def)

section \<open>The effect of each primitive on the layout, the bits and the counts\<close>

lemma pmm_prims_fields [simp]:
  "base (pmm_set_bit w s) = base s" "total (pmm_set_bit w s) = total s"
  "used (pmm_set_bit w s) = used s"
  "base (pmm_clear_bit w s) = base s" "total (pmm_clear_bit w s) = total s"
  "used (pmm_clear_bit w s) = used s"
  "base (pmm_set_refs w v s) = base s" "total (pmm_set_refs w v s) = total s"
  "used (pmm_set_refs w v s) = used s"
  by (simp_all add: pmm_set_bit_def pmm_clear_bit_def pmm_set_refs_def Let_def)

lemma pmm_prims_layout [simp]:
  "pmm_layout (pmm_set_bit w s) = pmm_layout s"
  "pmm_layout (pmm_clear_bit w s) = pmm_layout s"
  "pmm_layout (pmm_set_refs w v s) = pmm_layout s"
  "pmm_layout (s\<lparr>used := u\<rparr>) = pmm_layout s"
  "pmm_layout (s\<lparr>pmem := m\<rparr>) = pmm_layout s"
  by (simp_all add: pmm_layout_def pmm_set_bit_def pmm_clear_bit_def pmm_set_refs_def Let_def)

lemma used_irrelevant [simp]:
  "taken (s\<lparr>used := u\<rparr>) = taken s" "extra (s\<lparr>used := u\<rparr>) = extra s"
  "pool_byte (s\<lparr>used := u\<rparr>) = pool_byte s"
  "pmm_test_bit (s\<lparr>used := u\<rparr>) = pmm_test_bit s"
  by (auto simp: fun_eq_iff taken_def extra_def pmm_test_bit_def pmm_refs_def pool_byte_def)

lemma taken_byte:
  "pmm_layout s \<Longrightarrow>
   taken s i \<longleftrightarrow> i < unat (total s) \<and> bit (pool_byte s (i div 8)) (i mod 8)"
  using layoutD(6) [of s] by (auto simp: taken_def pmm_test_bit_byte)

lemma pool_byte_set_bit:
  assumes "pmm_layout s" and "i < 4294967296" and "k < 4294967296"
  shows "pool_byte (pmm_set_bit (of_nat i) s) k
      = (if k = i div 8 then pool_byte s k OR push_bit (i mod 8) 1 else pool_byte s k)"
  using assms pool_byte_upd [of "i div 8" k s]
  by (auto simp: pmm_set_bit_def Let_def drop_bit_3_of_nat and_7_of_nat layoutD pool_byte_def)

lemma pool_byte_clear_bit:
  assumes "pmm_layout s" and "i < 4294967296" and "k < 4294967296"
  shows "pool_byte (pmm_clear_bit (of_nat i) s) k
      = (if k = i div 8 then pool_byte s k AND NOT (push_bit (i mod 8) 1) else pool_byte s k)"
  using assms pool_byte_upd [of "i div 8" k s]
  by (auto simp: pmm_clear_bit_def Let_def drop_bit_3_of_nat and_7_of_nat layoutD pool_byte_def)

lemma taken_set_bit:
  assumes "pmm_layout s" and "i < unat (total s)"
  shows "taken (pmm_set_bit (of_nat i) s) j \<longleftrightarrow> j = i \<or> taken s j"
proof -
  have "j div 8 = i div 8 \<Longrightarrow> j mod 8 = i mod 8 \<longleftrightarrow> j = i"
    by (metis mod_mult_div_eq)
  moreover have "i < 4294967296" "j < unat (total s) \<Longrightarrow> j div 8 < 4294967296"
    using assms(2) layoutD(6) [OF assms(1)] by auto
  ultimately show ?thesis
    using assms by (auto simp: taken_byte pool_byte_set_bit bit_simps split: if_splits)
qed

lemma taken_clear_bit:
  assumes "pmm_layout s" and "i < unat (total s)"
  shows "taken (pmm_clear_bit (of_nat i) s) j \<longleftrightarrow> taken s j \<and> j \<noteq> i"
proof -
  have "j div 8 = i div 8 \<Longrightarrow> j mod 8 = i mod 8 \<longleftrightarrow> j = i"
    by (metis mod_mult_div_eq)
  moreover have "i < 4294967296" "j < unat (total s) \<Longrightarrow> j div 8 < 4294967296"
    using assms(2) layoutD(6) [OF assms(1)] by auto
  ultimately show ?thesis
    using assms by (auto simp: taken_byte pool_byte_clear_bit bit_simps split: if_splits)
qed

lemma extra_cong_bytes:
  assumes "pmm_layout s" and "pmm_layout s'" and "total s' = total s"
    and "\<And>k. refs_off (unat (total s)) \<le> k \<Longrightarrow> k < 4096 * map_pages_of (unat (total s)) \<Longrightarrow>
           pool_byte s' k = pool_byte s k"
    and "j < unat (total s)"
  shows "extra s' j = extra s j"
proof -
  have "refs_off (unat (total s)) + 2 * j + 1 < 4096 * map_pages_of (unat (total s))"
    using refs_off_bounds(2)[of "unat (total s)"] assms(5) by linarith
  then show ?thesis
    using assms by (simp add: extra_def pmm_refs_byte)
qed

lemma meta_small: "pmm_layout s \<Longrightarrow> k < 4096 * map_pages_of (unat (total s)) \<Longrightarrow> k < 4294967296"
  using layoutD(3,4) [of s] by linarith

lemma extra_set_bit:
  assumes "pmm_layout s" and "i < unat (total s)" and "j < unat (total s)"
  shows "extra (pmm_set_bit (of_nat i) s) j = extra s j"
proof (rule extra_cong_bytes [OF assms(1) _ _ _ assms(3)])
  fix k
  assume "refs_off (unat (total s)) \<le> k" "k < 4096 * map_pages_of (unat (total s))"
  with assms bit_byte_in_map [OF assms(2)] meta_small [OF assms(1)] layoutD(6) [OF assms(1)]
  show "pool_byte (pmm_set_bit (of_nat i) s) k = pool_byte s k"
    by (simp add: pool_byte_set_bit)
qed (use assms in simp_all)

lemma extra_clear_bit:
  assumes "pmm_layout s" and "i < unat (total s)" and "j < unat (total s)"
  shows "extra (pmm_clear_bit (of_nat i) s) j = extra s j"
proof (rule extra_cong_bytes [OF assms(1) _ _ _ assms(3)])
  fix k
  assume "refs_off (unat (total s)) \<le> k" "k < 4096 * map_pages_of (unat (total s))"
  with assms bit_byte_in_map [OF assms(2)] meta_small [OF assms(1)] layoutD(6) [OF assms(1)]
  show "pool_byte (pmm_clear_bit (of_nat i) s) k = pool_byte s k"
    by (simp add: pool_byte_clear_bit)
qed (use assms in simp_all)

lemma pool_byte_set_refs:
  assumes "pmm_layout s" and "i < unat (total s)" and "k < 4294967296"
    and "k < refs_off (unat (total s)) + 2 * i \<or> refs_off (unat (total s)) + 2 * i + 1 < k"
  shows "pool_byte (pmm_set_refs (of_nat i) v s) k = pool_byte s k"
proof -
  let ?o = "refs_off (unat (total s)) + 2 * i"
  have o: "?o + 1 < 4294967296"
    using refs_off_bounds(2)[of "unat (total s)"] layoutD(3,4) [OF assms(1)] assms(2) by linarith
  have "base s + of_nat k \<noteq> base s + of_nat ?o" "base s + of_nat k \<noteq> base s + of_nat (?o + 1)"
    using assms(3,4) o pool_addr_eq [of k ?o] pool_addr_eq [of k "?o + 1"] by auto
  moreover have "base s + of_nat (?o + 1) = base s + of_nat ?o + 1" by (simp add: algebra_simps)
  ultimately show ?thesis
    unfolding pool_byte_def pmm_set_refs_def st16_def refs_addr [OF assms(1)]
    by (simp add: algebra_simps)
qed

lemma taken_set_refs:
  assumes "pmm_layout s" and "i < unat (total s)"
  shows "taken (pmm_set_refs (of_nat i) v s) j = taken s j"
proof (cases "j < unat (total s)")
  case True
  then have "j div 8 < refs_off (unat (total s))" by (rule bit_byte_in_map)
  moreover have "j div 8 < 4294967296" using True layoutD(6) [OF assms(1)] by linarith
  ultimately show ?thesis
    using assms by (simp add: taken_byte pool_byte_set_refs)
qed (simp add: taken_def)

lemma extra_set_refs:
  assumes "pmm_layout s" and "i < unat (total s)" and "j < unat (total s)"
  shows "extra (pmm_set_refs (of_nat i) v s) j = (if j = i then unat v else extra s j)"
proof (cases "j = i")
  case True
  then show ?thesis
    by (simp add: extra_def pmm_refs_def pmm_set_refs_def ld16_st16_same)
next
  case False
  let ?o = "refs_off (unat (total s)) + 2 * j"
  have "?o + 1 < 4294967296"
    using refs_off_bounds(2)[of "unat (total s)"] layoutD(3,4) [OF assms(1)] assms(3) by linarith
  then have "pool_byte (pmm_set_refs (of_nat i) v s) ?o = pool_byte s ?o"
    "pool_byte (pmm_set_refs (of_nat i) v s) (?o + 1) = pool_byte s (?o + 1)"
    using assms False by (intro pool_byte_set_refs; linarith)+
  with False assms show ?thesis by (simp add: extra_def pmm_refs_byte)
qed

text \<open>Zeroing user pages leaves both tables alone.\<close>

definition zero_pages :: "nat \<Rightarrow> nat \<Rightarrow> pmm \<Rightarrow> pmm" where
  "zero_pages i n s = s\<lparr>pmem := memset (pmem s) (page_pa s i) 0 (4096 * n)\<rparr>"

lemma zero_pages_fields [simp]:
  "base (zero_pages i n s) = base s" "total (zero_pages i n s) = total s"
  "used (zero_pages i n s) = used s" "pmm_layout (zero_pages i n s) = pmm_layout s"
  by (simp_all add: zero_pages_def)

lemma page_pa_offset: "page_pa s i = base s + of_nat (4096 * i)"
  by (simp add: page_pa_def PAGE_SIZE_def algebra_simps)

lemma pool_byte_zero_pages:
  assumes "pmm_layout s" and "i + n \<le> unat (total s)" and "k < 4294967296"
  shows "pool_byte (zero_pages i n s) k
      = (if 4096 * i \<le> k \<and> k < 4096 * (i + n) then 0 else pool_byte s k)"
proof -
  have "4096 * i + 4096 * n \<le> 4294967296"
    using assms(2) layoutD(3) [OF assms(1)] by linarith
  then show ?thesis
    using pool_byte_memset [of "4096 * i" "4096 * n" k s] assms(3)
    by (simp add: zero_pages_def page_pa_offset algebra_simps)
qed

lemma tables_zero_pages:
  assumes "pmm_layout s" and "map_pages_of (unat (total s)) \<le> i" and "i + n \<le> unat (total s)"
  shows "taken (zero_pages i n s) = taken s"
    and "j < unat (total s) \<Longrightarrow> extra (zero_pages i n s) j = extra s j"
proof -
  have meta: "pool_byte (zero_pages i n s) k = pool_byte s k"
    if "k < 4096 * map_pages_of (unat (total s))" for k
    using that assms pool_byte_zero_pages [OF assms(1,3)] meta_small [OF assms(1)] by auto
  show "taken (zero_pages i n s) = taken s"
  proof
    fix j
    have "pool_byte (zero_pages i n s) (j div 8) = pool_byte s (j div 8)" if "j < unat (total s)"
      using bit_byte_in_map [OF that] refs_off_bounds(2)[of "unat (total s)"] by (intro meta) linarith
    then show "taken (zero_pages i n s) j = taken s j"
      using assms(1) by (auto simp: taken_byte)
  qed
  show "extra (zero_pages i n s) j = extra s j" if "j < unat (total s)"
    using that assms(1) meta by (intro extra_cong_bytes) auto
qed

section \<open>Counting the set bits\<close>

lemma taken_set_finite [simp]: "finite {i. taken s i}"
  by (rule finite_subset [of _ "{..<unat (total s)}"]) (auto simp: taken_def)

lemma taken_card_le: "card {i. taken s i} \<le> unat (total s)"
  using card_mono [of "{..<unat (total s)}" "{i. taken s i}"] by (auto simp: taken_def)

lemma wfD:
  assumes "pmm_wf s"
  shows "pmm_layout s" and "i < map_pages_of (unat (total s)) \<Longrightarrow> taken s i"
    and "unat (used s) = card {i. taken s i}"
    and "i < unat (total s) \<Longrightarrow> \<not> taken s i \<Longrightarrow> extra s i = 0"
  using assms by (auto simp: pmm_wf_def)

lemma used_inc:
  assumes "pmm_wf s" and "\<not> taken s i" and "i < unat (total s)"
  shows "unat (used s + 1) = card {j. j = i \<or> taken s j}"
proof -
  have "{j. j = i \<or> taken s j} = insert i {j. taken s j}" by auto
  then have "card {j. j = i \<or> taken s j} = Suc (card {j. taken s j})"
    using assms(2) by simp
  moreover have "unat (used s + 1) = Suc (unat (used s))"
    using wfD(3) [OF assms(1)] taken_card_le [of s] layoutD(6) [OF wfD(1) [OF assms(1)]]
    by (simp add: unat_add_u32)
  ultimately show ?thesis using wfD(3) [OF assms(1)] by simp
qed

lemma used_dec:
  assumes "pmm_wf s" and "taken s i"
  shows "unat (used s - 1) = card {j. taken s j \<and> j \<noteq> i}"
proof -
  have "{j. taken s j \<and> j \<noteq> i} = {j. taken s j} - {i}" by auto
  then have "card {j. taken s j \<and> j \<noteq> i} = card {j. taken s j} - 1"
    using assms(2) by simp
  moreover have "0 < card {j. taken s j}"
    using assms(2) by (auto simp: card_gt_0_iff)
  ultimately show ?thesis
    using wfD(3) [OF assms(1)] by (simp add: unat_minus_one unat_gt_0 [symmetric])
qed

section \<open>pmm_alloc\<close>

lemma set_u32_upto: "w \<in> set (u32_upto n) \<longleftrightarrow> w < n"
proof
  assume "w < n"
  then have "unat w < unat n" by (simp add: word_less_nat_alt)
  moreover have "w = of_nat (unat w)" by simp
  ultimately show "w \<in> set (u32_upto n)" unfolding u32_upto_def by force
next
  assume "w \<in> set (u32_upto n)"
  then obtain i where "i < unat n" "w = of_nat i" by (auto simp: u32_upto_def)
  then show "w < n" by (simp add: word_less_nat_alt less_trans [OF _ unat_u32_less])
qed

lemma find_clear_bit:
  "find (\<lambda>i. \<not> pmm_test_bit s i) (u32_upto (total s)) = None \<Longrightarrow> i < unat (total s) \<Longrightarrow> taken s i"
  "find (\<lambda>i. \<not> pmm_test_bit s i) (u32_upto (total s)) = Some w \<Longrightarrow>
     \<exists>i. w = of_nat i \<and> i < unat (total s) \<and> \<not> taken s i \<and> (\<forall>j<i. taken s j)"
proof -
  have less: "of_nat j < total s" if "j < unat (total s)" for j
    using that by (simp add: word_less_nat_alt less_trans [OF _ unat_u32_less])
  show "taken s i"
    if "find (\<lambda>i. \<not> pmm_test_bit s i) (u32_upto (total s)) = None" "i < unat (total s)"
    using that less by (auto simp: find_None_iff set_u32_upto taken_def)
  show "\<exists>i. w = of_nat i \<and> i < unat (total s) \<and> \<not> taken s i \<and> (\<forall>j<i. taken s j)"
    if "find (\<lambda>i. \<not> pmm_test_bit s i) (u32_upto (total s)) = Some w"
    using that by (auto simp: find_Some_iff u32_upto_def taken_def)
qed

text \<open>What a successful allocation of page \<open>i\<close> does, stated once for the single and the
  multiple page routines.\<close>

definition alloc_post :: "nat \<Rightarrow> nat \<Rightarrow> pmm \<Rightarrow> pmm \<Rightarrow> bool" where
  "alloc_post i n s s' \<longleftrightarrow>
     base s' = base s \<and> total s' = total s \<and>
     (\<forall>j. holders s' j = (if i \<le> j \<and> j < i + n then 1 else holders s j)) \<and>
     (\<forall>k. 4096 * map_pages_of (unat (total s)) \<le> k \<and> k < 4096 * unat (total s) \<longrightarrow>
        pool_byte s' k = (if 4096 * i \<le> k \<and> k < 4096 * (i + n) then 0 else pool_byte s k))"

lemma pmm_alloc_none:
  assumes "pmm_wf s" and "\<forall>i < unat (total s). taken s i"
  shows "pmm_alloc s = (0, s)"
proof -
  have "find (\<lambda>i. \<not> pmm_test_bit s i) (u32_upto (total s)) = None"
    using assms(2) find_clear_bit(2) [of s]
    by (cases "find (\<lambda>i. \<not> pmm_test_bit s i) (u32_upto (total s))") auto
  then show ?thesis by (simp add: pmm_alloc_def)
qed

lemma pmm_alloc_state:
  assumes wf: "pmm_wf s" and free: "\<not> taken s i" "i < unat (total s)" and first: "\<forall>j<i. taken s j"
  shows "pmm_alloc s = (page_pa s i, zero_pages i 1 ((pmm_set_bit (of_nat i) s)\<lparr>used := used s + 1\<rparr>))"
proof -
  have "find (\<lambda>i. \<not> pmm_test_bit s i) (u32_upto (total s)) \<noteq> None"
    using find_clear_bit(1) [of s i] free by auto
  then obtain w where w: "find (\<lambda>i. \<not> pmm_test_bit s i) (u32_upto (total s)) = Some w" by auto
  then obtain k where "w = of_nat k" "\<not> taken s k" "\<forall>j<k. taken s j"
    using find_clear_bit(2) by blast
  then have "w = of_nat i" using free(1) first by (metis linorder_neqE_nat)
  then show ?thesis
    using w by (simp add: pmm_alloc_def Let_def zero_pages_def page_pa_def PAGE_SIZE_def)
qed

lemma pool_byte_set_bit_user:
  assumes "pmm_layout s" and "i < unat (total s)"
    and "4096 * map_pages_of (unat (total s)) \<le> k" and "k < 4294967296"
  shows "pool_byte (pmm_set_bit (of_nat i) s) k = pool_byte s k"
proof -
  have "i div 8 < k"
    using bit_byte_in_map [OF assms(2)] refs_off_bounds(2)[of "unat (total s)"] assms(3) by linarith
  then show ?thesis
    using assms layoutD(6) [OF assms(1)] by (simp add: pool_byte_set_bit)
qed

lemma grab_pages:
  assumes wf: "pmm_wf s" and i: "map_pages_of (unat (total s)) \<le> i" "i + n \<le> unat (total s)"
    and free: "\<And>j. i \<le> j \<Longrightarrow> j < i + n \<Longrightarrow> \<not> taken s j"
    and s1: "pmm_layout s1" "base s1 = base s" "total s1 = total s" "used s1 = used s + of_nat n"
      "\<And>j. taken s1 j \<longleftrightarrow> taken s j \<or> (i \<le> j \<and> j < i + n)"
      "\<And>j. j < unat (total s) \<Longrightarrow> extra s1 j = extra s j"
      "\<And>k. 4096 * map_pages_of (unat (total s)) \<le> k \<Longrightarrow> k < 4294967296 \<Longrightarrow>
         pool_byte s1 k = pool_byte s k"
  shows "pmm_wf (zero_pages i n s1)" and "alloc_post i n s (zero_pages i n s1)"
proof -
  let ?s' = "zero_pages i n s1"
  have taken': "taken ?s' = taken s1"
    using tables_zero_pages(1) [of s1 i n] s1 i by simp
  have extra': "extra ?s' j = extra s j" if "j < unat (total s)" for j
    using tables_zero_pages(2) [of s1 i n j] s1 i that by simp
  have T: "unat (total s) < 1048576" using layoutD(6) wfD(1) [OF wf] by blast
  have "{j. taken s1 j} = {j. taken s j} \<union> {i..<i + n}"
    by (rule set_eqI) (simp add: s1(5))
  moreover have "{j. taken s j} \<inter> {i..<i + n} = {}" using free by auto
  ultimately have card: "card {j. taken s1 j} = card {j. taken s j} + n"
    by (simp add: card_Un_disjoint)
  moreover have "card {j. taken s1 j} \<le> unat (total s)"
    using taken_card_le [of s1] s1(3) by simp
  ultimately have used: "unat (used s + of_nat n) = card {j. taken s1 j}"
    using wfD(3) [OF wf] T by (simp add: unat_add_nat_u32)
  show "pmm_wf ?s'"
    unfolding pmm_wf_def
  proof (intro conjI)
    show "pmm_layout ?s'" using s1(1) by simp
    show "\<forall>j<map_pages_of (unat (total ?s')). taken ?s' j"
      using taken' s1(3,5) wfD(2) [OF wf] by simp
    show "unat (used ?s') = card {j. taken ?s' j}"
      using used taken' s1(4) by simp
    show "\<forall>j<unat (total ?s'). \<not> taken ?s' j \<longrightarrow> extra ?s' j = 0"
      using taken' extra' s1(3,5) wfD(4) [OF wf] by simp
  qed
  show "alloc_post i n s ?s'"
    unfolding alloc_post_def
  proof (intro conjI allI impI)
    fix j
    show "holders ?s' j = (if i \<le> j \<and> j < i + n then 1 else holders s j)"
      using taken' extra' s1(5) free wfD(4) [OF wf] i
      by (cases "j < unat (total s)") (auto simp: holders_def taken_def [of s])
  next
    fix k
    assume "4096 * map_pages_of (unat (total s)) \<le> k \<and> k < 4096 * unat (total s)"
    moreover have "4096 * unat (total s) < 4294967296" using T by linarith
    ultimately show "pool_byte ?s' k
        = (if 4096 * i \<le> k \<and> k < 4096 * (i + n) then 0 else pool_byte s k)"
      using pool_byte_zero_pages [of s1 i n k] s1 i by auto
  qed (use s1 in auto)
qed

lemma page_pa_nonzero:
  assumes "pmm_layout s" and "map_pages_of (unat (total s)) \<le> i" and "i < unat (total s)"
  shows "page_pa s i \<noteq> 0"
proof -
  have "unat (page_pa s i) = unat (base s) + 4096 * i"
    unfolding page_pa_offset using layoutD(3) [OF assms(1)] assms(3)
    by (intro unat_add_nat_u32) linarith
  moreover have "0 < i" using layoutD(5) [OF assms(1)] assms(2) by linarith
  ultimately have "unat (page_pa s i) \<noteq> 0" by simp
  then show ?thesis by auto
qed

lemma pmm_alloc_spec:
  assumes wf: "pmm_wf s" and free: "\<not> taken s i" "i < unat (total s)" and first: "\<forall>j<i. taken s j"
  obtains s' where "pmm_alloc s = (page_pa s i, s')" and "pmm_wf s'" and "alloc_post i 1 s s'"
    and "user_page s i" and "page_pa s i \<noteq> 0"
proof -
  have lay: "pmm_layout s" using wf by (rule wfD)
  have mp: "map_pages_of (unat (total s)) \<le> i"
    using wfD(2) [OF wf, of i] free(1) by (meson leI)
  let ?s1 = "(pmm_set_bit (of_nat i) s)\<lparr>used := used s + 1\<rparr>"
  have pre: "i + 1 \<le> unat (total s)" "\<And>j. i \<le> j \<Longrightarrow> j < i + 1 \<Longrightarrow> \<not> taken s j"
    using free by (auto simp: less_Suc_eq)
  have "pmm_wf (zero_pages i 1 ?s1) \<and> alloc_post i 1 s (zero_pages i 1 ?s1)"
    using lay free by (intro conjI grab_pages [OF wf mp pre])
      (auto simp: taken_set_bit extra_set_bit pool_byte_set_bit_user)
  moreover have "page_pa s i \<noteq> 0" using lay mp free(2) by (rule page_pa_nonzero)
  moreover have "user_page s i" using mp free(2) by (simp add: user_page_def)
  ultimately show ?thesis
    using that pmm_alloc_state [OF wf free first] by blast
qed

section \<open>pmm_alloc_pages\<close>

lemma clear_run_le: "clear_run s i n \<le> n"
  using length_takeWhile_le [of _ "[0..<n]"] by (simp add: clear_run_def)

lemma clear_run_clear: "j < clear_run s i n \<Longrightarrow> \<not> pmm_test_bit s (of_nat (i + j))"
proof -
  let ?P = "\<lambda>j. \<not> pmm_test_bit s (of_nat (i + j))"
  assume j: "j < clear_run s i n"
  then have "j < length [0..<n]" using clear_run_le [of s i n] by simp
  moreover have "takeWhile ?P [0..<n] ! j \<in> set (takeWhile ?P [0..<n])"
    using j by (intro nth_mem) (simp add: clear_run_def)
  moreover have "takeWhile ?P [0..<n] ! j = [0..<n] ! j"
    using j by (intro takeWhile_nth) (simp add: clear_run_def)
  ultimately show ?thesis using set_takeWhileD by fastforce
qed

lemma clear_run_stop:
  assumes "clear_run s i n < n"
  shows "pmm_test_bit s (of_nat (i + clear_run s i n))"
proof -
  have "length (takeWhile (\<lambda>j. \<not> pmm_test_bit s (of_nat (i + j))) [0..<n]) < length [0..<n]"
    using assms by (simp add: clear_run_def)
  from nth_length_takeWhile [OF this] show ?thesis
    using assms by (simp add: clear_run_def)
qed

text \<open>The scan finds the lowest run of \<open>n\<close> clear bits, and fails only when there is none:
  skipping a failed run loses nothing.\<close>

definition blocked :: "pmm \<Rightarrow> nat \<Rightarrow> nat \<Rightarrow> bool" where
  "blocked s n k \<longleftrightarrow> (\<exists>j. k \<le> j \<and> j < k + n \<and> taken s j)"

lemma find_run_spec:
  "case find_run s n i of
     Some k \<Rightarrow> i \<le> k \<and> k + n \<le> unat (total s) \<and> \<not> blocked s n k \<and>
               (\<forall>k'. i \<le> k' \<and> k' < k \<longrightarrow> blocked s n k')
   | None \<Rightarrow> (\<forall>k. i \<le> k \<and> k + n \<le> unat (total s) \<longrightarrow> blocked s n k)"
proof (induction s n i rule: find_run.induct)
  case (1 s n i)
  let ?j = "clear_run s i n"
  consider (out) "\<not> i + n \<le> unat (total s)" | (hit) "i + n \<le> unat (total s)" "?j = n"
    | (skip) "i + n \<le> unat (total s)" "?j < n"
    using clear_run_le [of s i n] by linarith
  then show ?case
  proof cases
    case out
    then have "find_run s n i = None" by (subst find_run.simps) simp
    with out show ?thesis by auto
  next
    case hit
    have "\<not> taken s j" if "i \<le> j" "j < i + n" for j
      using clear_run_clear [of "j - i" s i n] that hit(2) by (simp add: taken_def)
    then have "\<not> blocked s n i" by (auto simp: blocked_def)
    moreover have "find_run s n i = Some i" using hit by (subst find_run.simps) simp
    ultimately show ?thesis using hit by auto
  next
    case skip
    have "taken s (i + ?j)"
      using clear_run_stop [OF skip(2)] skip by (simp add: taken_def)
    then have pass: "blocked s n k" if "i \<le> k" "\<not> i + ?j + 1 \<le> k" for k
      using that skip(2) unfolding blocked_def by (intro exI [of _ "i + ?j"]) auto
    have eq: "find_run s n i = find_run s n (i + ?j + 1)"
      using skip by (subst find_run.simps) (simp add: Let_def)
    note IH = "1.IH" [OF skip(1) refl less_imp_neq [OF skip(2)]]
    show ?thesis
    proof (cases "find_run s n (i + ?j + 1)")
      case None
      with IH have "blocked s n k" if "i + ?j + 1 \<le> k" "k + n \<le> unat (total s)" for k
        using that by simp
      with pass have "\<forall>k. i \<le> k \<and> k + n \<le> unat (total s) \<longrightarrow> blocked s n k"
        by blast
      with eq None show ?thesis by simp
    next
      case (Some k)
      with IH have k: "i + ?j + 1 \<le> k" "k + n \<le> unat (total s)" "\<not> blocked s n k"
        and "\<And>k'. i + ?j + 1 \<le> k' \<Longrightarrow> k' < k \<Longrightarrow> blocked s n k'"
        by auto
      with pass have "blocked s n k'" if "i \<le> k'" "k' < k" for k'
        using that by blast
      with k eq Some show ?thesis by simp
    qed
  qed
qed

lemma set_bits_fold:
  assumes "pmm_layout s" and "i + n \<le> unat (total s)"
  defines "s1 \<equiv> foldl (\<lambda>s j. pmm_set_bit (of_nat (i + j)) s) s [0..<n]"
  shows "pmm_layout s1" and "base s1 = base s" and "total s1 = total s" and "used s1 = used s"
    and "taken s1 j \<longleftrightarrow> taken s j \<or> (i \<le> j \<and> j < i + n)"
    and "j < unat (total s) \<Longrightarrow> extra s1 j = extra s j"
    and "4096 * map_pages_of (unat (total s)) \<le> k \<Longrightarrow> k < 4294967296 \<Longrightarrow>
           pool_byte s1 k = pool_byte s k"
proof -
  have "pmm_layout s1 \<and> base s1 = base s \<and> total s1 = total s \<and> used s1 = used s \<and>
      (\<forall>j. taken s1 j \<longleftrightarrow> taken s j \<or> (i \<le> j \<and> j < i + n)) \<and>
      (\<forall>j < unat (total s). extra s1 j = extra s j) \<and>
      (\<forall>k. 4096 * map_pages_of (unat (total s)) \<le> k \<longrightarrow> k < 4294967296 \<longrightarrow>
         pool_byte s1 k = pool_byte s k)"
    using assms(2) unfolding s1_def
  proof (induction n)
    case 0
    then show ?case using assms(1) by auto
  next
    case (Suc n)
    let ?p = "foldl (\<lambda>s j. pmm_set_bit (of_nat (i + j)) s) s [0..<n]"
    let ?q = "pmm_set_bit (of_nat (i + n)) ?p"
    have IH: "pmm_layout ?p" "total ?p = total s" "base ?p = base s" "used ?p = used s"
      "\<And>j. taken ?p j \<longleftrightarrow> taken s j \<or> (i \<le> j \<and> j < i + n)"
      "\<And>j. j < unat (total s) \<Longrightarrow> extra ?p j = extra s j"
      "\<And>k. 4096 * map_pages_of (unat (total s)) \<le> k \<Longrightarrow> k < 4294967296 \<Longrightarrow>
         pool_byte ?p k = pool_byte s k"
      using Suc by simp_all
    have lt: "i + n < unat (total ?p)" using Suc.prems IH(2) by simp
    have "taken ?q j \<longleftrightarrow> taken s j \<or> (i \<le> j \<and> j < i + Suc n)" for j
      using taken_set_bit [OF IH(1) lt, of j] IH(5) [of j] by auto
    moreover have "extra ?q j = extra s j" if "j < unat (total s)" for j
      using extra_set_bit [OF IH(1) lt] IH(2,6) that by simp
    moreover have "pool_byte ?q k = pool_byte s k"
      if "4096 * map_pages_of (unat (total s)) \<le> k" "k < 4294967296" for k
      using pool_byte_set_bit_user [OF IH(1) lt] IH(2,7) that by simp
    moreover have "foldl (\<lambda>s j. pmm_set_bit (of_nat (i + j)) s) s [0..<Suc n] = ?q" by simp
    ultimately show ?case using IH(1-4) by (simp only: pmm_prims_fields pmm_prims_layout) blast
  qed
  then show "pmm_layout s1" and "base s1 = base s" and "total s1 = total s" and "used s1 = used s"
    and "taken s1 j \<longleftrightarrow> taken s j \<or> (i \<le> j \<and> j < i + n)"
    and "j < unat (total s) \<Longrightarrow> extra s1 j = extra s j"
    and "4096 * map_pages_of (unat (total s)) \<le> k \<Longrightarrow> k < 4294967296 \<Longrightarrow>
           pool_byte s1 k = pool_byte s k"
    by auto
qed

lemma pmm_alloc_pages_hit:
  assumes wf: "pmm_wf s" and n: "1 < unat n" and run: "find_run s (unat n) 0 = Some i"
  obtains s' where "pmm_alloc_pages n s = (page_pa s i, s')" and "pmm_wf s'"
    and "alloc_post i (unat n) s s'" and "page_pa s i \<noteq> 0"
proof -
  have lay: "pmm_layout s" using wf by (rule wfD)
  have i: "i + unat n \<le> unat (total s)" "\<not> blocked s (unat n) i"
    using find_run_spec [where s = s and n = "unat n" and i = 0] run by auto
  then have free: "\<not> taken s j" if "i \<le> j" "j < i + unat n" for j
    using that by (auto simp: blocked_def)
  have mp: "map_pages_of (unat (total s)) \<le> i"
    using wfD(2) [OF wf, of i] free [of i] n by (meson le_add1 leI less_add_same_cancel1 less_trans zero_less_one order_refl)
  let ?s1 = "foldl (\<lambda>s j. pmm_set_bit (of_nat (i + j)) s) s [0..<unat n]"
  let ?s2 = "?s1\<lparr>used := used ?s1 + n\<rparr>"
  note fold = set_bits_fold [OF lay i(1)]
  have "pmm_wf (zero_pages i (unat n) ?s2) \<and> alloc_post i (unat n) s (zero_pages i (unat n) ?s2)"
    using fold by (intro conjI grab_pages [OF wf mp i(1) free]) simp_all
  moreover have "unat (n * PAGE_SIZE) = 4096 * unat n"
    using i(1) layoutD(6) [OF lay] by (simp add: PAGE_SIZE_def unat_mult_u32)
  then have "pmm_alloc_pages n s = (page_pa s i, zero_pages i (unat n) ?s2)"
    using n run fold(2) by (auto simp: pmm_alloc_pages_def zero_pages_def page_pa_def Let_def)
  moreover have "page_pa s i \<noteq> 0"
    using lay mp i(1) n by (intro page_pa_nonzero) auto
  ultimately show ?thesis using that by blast
qed

section \<open>Freeing, sharing, counting\<close>

definition page_idx :: "pmm \<Rightarrow> u32 \<Rightarrow> nat" where
  "page_idx s pa = (unat pa - unat (base s)) div 4096"

lemma page_idx_word:
  assumes "base s \<le> pa"
  shows "(pa - base s) div PAGE_SIZE = of_nat (page_idx s pa)"
proof -
  have "page_idx s pa < 4294967296"
    using unat_u32_less [of pa] unfolding page_idx_def by linarith
  then have "unat ((pa - base s) div PAGE_SIZE) = unat (of_nat (page_idx s pa) :: u32)"
    using assms by (simp add: page_idx_def PAGE_SIZE_def unat_div unat_sub)
  then show ?thesis by (rule word_unat_eq_iff [THEN iffD2])
qed

lemma page_idx_less_word:
  "of_nat (page_idx s pa) < total s \<longleftrightarrow> page_idx s pa < unat (total s)"
  "total s \<le> of_nat (page_idx s pa) \<longleftrightarrow> \<not> page_idx s pa < unat (total s)"
proof -
  have "page_idx s pa < 4294967296"
    using unat_u32_less [of pa] unfolding page_idx_def by linarith
  then show "of_nat (page_idx s pa) < total s \<longleftrightarrow> page_idx s pa < unat (total s)"
    "total s \<le> of_nat (page_idx s pa) \<longleftrightarrow> \<not> page_idx s pa < unat (total s)"
    by (simp_all add: word_less_nat_alt word_le_nat_alt not_less)
qed

text \<open>Each operation, with the page it names as a natural index.\<close>

lemma pmm_free_idx:
  assumes "base s \<le> pa" and "i = page_idx s pa"
  shows "pmm_free pa s =
     (if taken s i then
        if extra s i \<noteq> 0 then pmm_set_refs (of_nat i) (pmm_refs s (of_nat i) - 1) s
        else (pmm_clear_bit (of_nat i) s)\<lparr>used := used s - 1\<rparr>
      else s)"
  using assms
  by (auto simp: pmm_free_def page_idx_word taken_def extra_def Let_def leD page_idx_less_word
      word_unat_eq_iff)

lemma pmm_ref_idx:
  assumes "base s \<le> pa" and "i = page_idx s pa"
  shows "pmm_ref pa s =
     (if taken s i \<and> extra s i \<noteq> 65535
      then (True, pmm_set_refs (of_nat i) (pmm_refs s (of_nat i) + 1) s) else (False, s))"
proof -
  have "pmm_refs s w = 0xffff \<longleftrightarrow> unat (pmm_refs s w) = 65535" for w
    by (simp add: word_unat_eq_iff)
  then show ?thesis
    using assms
    by (auto simp: pmm_ref_def page_idx_word taken_def extra_def Let_def leD page_idx_less_word)
qed

lemma pmm_refcount_idx:
  assumes "base s \<le> pa"
  shows "unat (pmm_refcount pa s) = holders s (page_idx s pa)"
proof -
  have "unat (ucast (x :: u16) + 1 :: u32) = Suc (unat x)" for x
  proof -
    have "unat (ucast x :: u32) = unat x"
      unfolding unsigned_ucast_eq
      by (intro take_bit_nat_eq_self less_trans [OF unat_u16_less]) simp
    moreover have "unat x + 1 < 4294967296" using unat_u16_less [of x] by linarith
    ultimately show ?thesis by (simp add: unat_add_u32)
  qed
  then show ?thesis
    using assms
    by (auto simp: pmm_refcount_def page_idx_word taken_def extra_def holders_def Let_def
        leD page_idx_less_word add.commute)
qed

lemma pmm_free_below: "pa < base s \<Longrightarrow> pmm_free pa s = s"
  by (simp add: pmm_free_def)

lemma pmm_wf_cong:
  assumes "pmm_wf s" and "pmm_layout s'" and "total s' = total s" and "used s' = used s"
    and "\<And>j. taken s' j = taken s j"
    and "\<And>j. j < unat (total s) \<Longrightarrow> \<not> taken s j \<Longrightarrow> extra s' j = extra s j"
  shows "pmm_wf s'"
proof -
  have "taken s' = taken s" using assms(5) by (rule ext)
  then show ?thesis unfolding pmm_wf_def using assms wfD [OF assms(1)] by simp
qed

lemma pmm_free_holders:
  assumes wf: "pmm_wf s" and pa: "base s \<le> pa" and i: "i = page_idx s pa" and tk: "taken s i"
  shows "holders (pmm_free pa s) = (holders s)(i := holders s i - 1)"
    and "user_page s i \<or> extra s i \<noteq> 0 \<Longrightarrow> pmm_wf (pmm_free pa s)"
    and "pmm_layout (pmm_free pa s)" and "total (pmm_free pa s) = total s"
    and "base (pmm_free pa s) = base s"
proof -
  have lay: "pmm_layout s" using wf by (rule wfD)
  have lt: "i < unat (total s)" using tk by (simp add: taken_def)
  note idx = pmm_free_idx [OF pa i]
  have ext: "unat (pmm_refs s (of_nat i) - 1) = extra s i - 1" if "extra s i \<noteq> 0"
    using that by (simp add: extra_def unat_minus_one unat_gt_0 [symmetric])
  show "pmm_layout (pmm_free pa s)" "total (pmm_free pa s) = total s" "base (pmm_free pa s) = base s"
    using idx lay by simp_all
  show "holders (pmm_free pa s) = (holders s)(i := holders s i - 1)"
  proof
    fix j
    have "taken (pmm_free pa s) j \<longleftrightarrow> taken s j \<and> (j \<noteq> i \<or> extra s i \<noteq> 0)"
      by (cases "extra s i = 0") (auto simp: idx tk lay lt taken_set_refs taken_clear_bit)
    moreover have "extra (pmm_free pa s) j = (if j = i then extra s i - 1 else extra s j)"
      if "j < unat (total s)"
      using that ext
      by (cases "extra s i = 0") (simp_all add: idx tk lay lt extra_set_refs extra_clear_bit)
    ultimately show "holders (pmm_free pa s) j = ((holders s)(i := holders s i - 1)) j"
      using tk by (cases "j < unat (total s)") (auto simp: holders_def taken_def)
  qed
  show "pmm_wf (pmm_free pa s)" if u: "user_page s i \<or> extra s i \<noteq> 0"
  proof (cases "extra s i = 0")
    case False
    then show ?thesis
      unfolding idx using tk lay lt wf
      by (simp) (rule pmm_wf_cong [OF wf], auto simp: taken_set_refs extra_set_refs)
  next
    case True
    then have "map_pages_of (unat (total s)) \<le> i" using u by (simp add: user_page_def)
    then show ?thesis
      unfolding idx using tk lay lt True wfD(2,4) [OF wf] used_dec [OF wf tk]
      by (simp add: pmm_wf_def taken_clear_bit extra_clear_bit) blast
  qed
qed

lemma pmm_free_untaken:
  assumes "base s \<le> pa" and "\<not> taken s (page_idx s pa)"
  shows "pmm_free pa s = s"
  using pmm_free_idx [OF assms(1) refl] assms(2) by simp

lemma pmm_ref_holders:
  assumes wf: "pmm_wf s" and pa: "base s \<le> pa" and i: "i = page_idx s pa"
    and tk: "taken s i" "holders s i < 65536"
  obtains s' where "pmm_ref pa s = (True, s')" and "pmm_wf s'" and "base s' = base s"
    and "total s' = total s" and "holders s' = (holders s)(i := holders s i + 1)"
proof -
  have lay: "pmm_layout s" using wf by (rule wfD)
  have lt: "i < unat (total s)" using tk by (simp add: taken_def)
  let ?s' = "pmm_set_refs (of_nat i) (pmm_refs s (of_nat i) + 1) s"
  have e: "extra s i < 65535" using tk by (simp add: holders_def)
  then have ext: "unat (pmm_refs s (of_nat i) + 1) = Suc (extra s i)"
    by (simp add: extra_def unat_word_ariths)
  have "pmm_ref pa s = (True, ?s')" using pmm_ref_idx [OF pa i] tk e by simp
  moreover have "pmm_wf ?s'"
    using lay lt tk by (intro pmm_wf_cong [OF wf]) (auto simp: taken_set_refs extra_set_refs)
  moreover have "holders ?s' = (holders s)(i := holders s i + 1)"
  proof
    fix j
    show "holders ?s' j = ((holders s)(i := holders s i + 1)) j"
      using tk lay lt ext
      by (cases "j < unat (total s)")
        (simp_all add: holders_def taken_set_refs extra_set_refs, simp add: taken_def)
  qed
  ultimately show ?thesis using that by simp
qed

section \<open>pmm_init\<close>

lemma unat_and_not_mask:
  fixes x :: "'a::len word"
  shows "unat (x AND NOT (mask n)) = unat x - unat x mod 2 ^ n"
proof -
  have "x AND NOT (mask n) = push_bit n (drop_bit n x)"
    by (rule bit_word_eqI) (auto simp: bit_simps)
  also have "\<dots> = x - take_bit n x"
    by (metis add_diff_cancel_right' bits_ident)
  finally have "x AND NOT (mask n) = x - take_bit n x" .
  moreover have "take_bit n x \<le> x"
    by (metis take_bit_nat_less_eq_self word_le_nat_alt unsigned_take_bit_eq)
  ultimately show ?thesis
    by (simp add: unat_sub unsigned_take_bit_eq take_bit_nat_def)
qed

lemma PAGE_ALIGN_DOWN_unat: "unat (PAGE_ALIGN_DOWN x) = unat x - unat x mod 4096"
proof -
  have "PAGE_MASK = mask 12" by (simp add: kdefs mask_eq_exp_minus_1)
  then show ?thesis using unat_and_not_mask [of x 12] by (simp add: PAGE_ALIGN_DOWN_def)
qed

lemma and_not_1_unat: "unat (x AND NOT (1 :: u32)) = unat x - unat x mod 2"
proof -
  have "(1 :: u32) = mask 1" by (simp add: mask_eq_exp_minus_1)
  then show ?thesis using unat_and_not_mask [of x 1] by simp
qed

lemma init_sizes:
  fixes pages :: u32
  defines "mb \<equiv> ((pages + 7) div 8 + 1) AND NOT 1"
  assumes "unat pages < 1048576"
  shows "unat mb = refs_off (unat pages)"
    and "unat ((mb + pages * 2 + PAGE_SIZE - 1) div PAGE_SIZE) = map_pages_of (unat pages)"
proof -
  have "unat ((pages + 7) div 8 + 1) = (unat pages + 7) div 8 + 1"
    using assms(2) by (simp add: unat_word_ariths unat_div)
  then have mb: "unat mb = (unat pages + 7) div 8 + 1 - ((unat pages + 7) div 8 + 1) mod 2"
    unfolding mb_def by (simp only: and_not_1_unat)
  also have "\<dots> = refs_off (unat pages)"
    unfolding refs_off_def by (metis minus_mod_eq_mult_div)
  finally show *: "unat mb = refs_off (unat pages)" .
  have small: "refs_off (unat pages) + 2 * unat pages < 4000000"
    unfolding refs_off_def using assms(2) by linarith
  have "unat (mb + pages * 2 + 4095) = refs_off (unat pages) + 2 * unat pages + 4095"
    using small * by (simp add: unat_word_ariths)
  then have "unat (mb + pages * 2 + PAGE_SIZE - 1) = refs_off (unat pages) + 2 * unat pages + 4095"
    by (simp add: PAGE_SIZE_def add.commute)
  then show "unat ((mb + pages * 2 + PAGE_SIZE - 1) div PAGE_SIZE) = map_pages_of (unat pages)"
    by (simp add: unat_div map_pages_of_def PAGE_SIZE_def)
qed

lemma set_bits_count:
  "foldl (\<lambda>s i. (pmm_set_bit i s)\<lparr>used := used s + 1\<rparr>) s (map of_nat [0..<n])
   = (foldl (\<lambda>s j. pmm_set_bit (of_nat (0 + j)) s) s [0..<n])\<lparr>used := used s + of_nat n\<rparr>"
proof (induction n)
  case (Suc n)
  let ?t = "foldl (\<lambda>s j. pmm_set_bit (of_nat j) s) s [0..<n]"
  have "pmm_set_bit w (t\<lparr>used := u\<rparr>) = (pmm_set_bit w t)\<lparr>used := u\<rparr>" for w t u
    by (simp add: pmm_set_bit_def Let_def)
  with Suc show ?case by (simp add: algebra_simps)
qed simp

text \<open>A pool whose tables are all zero is empty, and reserving the tables' own pages makes it
  well formed.\<close>

lemma reserve_tables:
  assumes lay: "pmm_layout s" and used: "used s = 0"
    and zero: "\<And>k. k < 4096 * map_pages_of (unat (total s)) \<Longrightarrow> pool_byte s k = 0"
  defines "s' \<equiv> foldl (\<lambda>s i. (pmm_set_bit i s)\<lparr>used := used s + 1\<rparr>) s
                  (map of_nat [0..<map_pages_of (unat (total s))])"
  shows "pmm_wf s'" and "base s' = base s" and "total s' = total s"
    and "holders s' = (\<lambda>i. if i < map_pages_of (unat (total s)) then 1 else 0)"
proof -
  let ?m = "map_pages_of (unat (total s))"
  have lt: "0 + ?m \<le> unat (total s)" using layoutD(4) [OF lay] by simp
  note fold = set_bits_fold [OF lay lt]
  have s': "s' = (foldl (\<lambda>s j. pmm_set_bit (of_nat (0 + j)) s) s [0..<?m])\<lparr>used := of_nat ?m\<rparr>"
    unfolding s'_def set_bits_count used by simp
  have untaken: "\<not> taken s j" for j
  proof (cases "j < unat (total s)")
    case True
    then have "pool_byte s (j div 8) = 0"
      using bit_byte_in_map [OF True] refs_off_bounds(2)[of "unat (total s)"] by (intro zero) linarith
    then show ?thesis using lay by (simp add: taken_byte)
  qed (simp add: taken_def)
  have noextra: "extra s j = 0" if "j < unat (total s)" for j
  proof -
    have "refs_off (unat (total s)) + 2 * j + 1 < 4096 * ?m"
      using refs_off_bounds(2)[of "unat (total s)"] that by linarith
    then show ?thesis using lay by (simp add: extra_def pmm_refs_byte zero)
  qed
  have tk: "taken s' = (\<lambda>j. j < ?m)"
    using fold(5) untaken by (auto simp: s' fun_eq_iff)
  have ex: "extra s' j = 0" if "j < unat (total s)" for j
    using fold(6) noextra that by (simp add: s')
  show "base s' = base s" and tot: "total s' = total s"
    using fold(2,3) by (simp_all add: s')
  show "holders s' = (\<lambda>i. if i < ?m then 1 else 0)"
    using ex lt by (auto simp: holders_def tk fun_eq_iff)
  have "?m < 4294967296" using layoutD(4,6) [OF lay] by linarith
  then have "unat (used s') = card {j. taken s' j}" unfolding tk by (simp add: s')
  moreover have "pmm_layout s'" using fold(1) by (simp add: s')
  ultimately show "pmm_wf s'" using ex tot by (simp add: pmm_wf_def tk)
qed

lemma pmm_init_pool:
  fixes first last0 s0
  defines "b \<equiv> PAGE_ALIGN_UP first" and "e \<equiv> PAGE_ALIGN_DOWN last0"
  defines "T \<equiv> (unat e - unat b) div 4096"
  assumes "map_pages_of T < T"
  defines "s \<equiv> pmm_init first last0 s0"
  shows "pmm_wf s" and "base s = b" and "unat (total s) = T"
    and "holders s = (\<lambda>i. if i < map_pages_of T then 1 else 0)"
proof -
  let ?p = "(e - b) div PAGE_SIZE"
  let ?mb = "((?p + 7) div 8 + 1) AND NOT 1"
  have be: "b < e" using assms(4) by (cases "b < e") (auto simp: T_def word_le_nat_alt not_less)
  then have p: "unat ?p = T"
    by (simp add: T_def unat_div PAGE_SIZE_def unat_sub less_imp_le)
  have T: "unat b + 4096 * T < 4294967296"
    using be unat_u32_less [of e] unfolding T_def word_less_nat_alt by linarith
  then have T': "unat ?p < 1048576" using p by linarith
  note sizes = init_sizes [OF T', unfolded p]
  have "unat b mod 4096 = 0"
    by (simp add: b_def PAGE_ALIGN_UP_def PAGE_ALIGN_DOWN_unat)
  define m where "m = ?mb + ?p * 2 + PAGE_SIZE - 1"
  have m: "unat (m div PAGE_SIZE) = map_pages_of T" using sizes(2) by (simp add: m_def)
  define s1 where "s1 = s0\<lparr>used := 0, base := b, bitmap := b,
      pmem := memset (pmem s0) b 0 (unat (m div PAGE_SIZE * PAGE_SIZE)),
      refs := b + ?mb, total := ?p\<rparr>"
  have ns: "\<not> e \<le> b" using be by simp
  have np: "\<not> ?p \<le> m div PAGE_SIZE"
    using assms(4) p m by (simp add: word_le_nat_alt)
  have s: "s = foldl (\<lambda>s i. (pmm_set_bit i s)\<lparr>used := used s + 1\<rparr>) s1
      (map of_nat [0..<map_pages_of (unat (total s1))])"
    using ns np m p unfolding s_def pmm_init_def
    by (simp add: Let_def b_def [symmetric] e_def [symmetric] m_def s1_def u32_upto_def)
  have "refs s1 = base s1 + of_nat (refs_off (unat (total s1)))"
    using sizes(1) p by (simp add: s1_def flip: sizes(1))
  then have lay: "pmm_layout s1"
    using T p assms(4) \<open>unat b mod 4096 = 0\<close> by (simp add: pmm_layout_def s1_def)
  have "unat (m div PAGE_SIZE * PAGE_SIZE) = 4096 * map_pages_of T"
    using m T assms(4) by (simp add: unat_word_ariths PAGE_SIZE_def)
  then have "pool_byte s1 k = 0" if "k < 4096 * map_pages_of T" for k
    using that T assms(4) by (simp add: pool_byte_def s1_def memset_apply)
  then show "pmm_wf s" and "base s = b" and "unat (total s) = T"
    and "holders s = (\<lambda>i. if i < map_pages_of T then 1 else 0)"
    using reserve_tables [OF lay] p unfolding s by (auto simp: s1_def)
qed

section \<open>The page pool as its clients see it\<close>

text \<open>
  What a client of the allocator relies on: \<open>alloc\<close> hands out a page nobody holds, \<open>share\<close>
  adds a holder and \<open>release\<close> takes one away, and none of them touches any other page's
  count.  \<open>refc s pa\<close> is the number of holders of the page at \<open>pa\<close>.
\<close>

locale page_pool =
  fixes ok :: "'s \<Rightarrow> bool"
    and refc :: "'s \<Rightarrow> u32 \<Rightarrow> nat"
    and alloc :: "'s \<Rightarrow> u32 \<times> 's"
    and release :: "u32 \<Rightarrow> 's \<Rightarrow> 's"
  assumes refc_zero: "ok s \<Longrightarrow> refc s 0 = 0"
    and alloc_law: "ok s \<Longrightarrow> alloc s = (pa, s') \<Longrightarrow>
          (if pa = 0 then s' = s
           else ok s' \<and> refc s pa = 0 \<and> refc s' = (refc s)(pa := 1))"
    and release_law: "ok s \<Longrightarrow> 0 < refc s pa \<Longrightarrow>
          ok (release pa s) \<and> refc (release pa s) = (refc s)(pa := refc s pa - 1)"
begin

lemma alloc_ok: "ok s \<Longrightarrow> alloc s = (pa, s') \<Longrightarrow> ok s'"
  using alloc_law [of s pa s'] by (auto split: if_splits)

lemma alloc_fresh: "ok s \<Longrightarrow> alloc s = (pa, s') \<Longrightarrow> 0 < refc s q \<Longrightarrow> pa \<noteq> q"
  using alloc_law [of s pa s'] refc_zero [of s] by (auto split: if_splits)

lemma alloc_keeps: "ok s \<Longrightarrow> alloc s = (pa, s') \<Longrightarrow> 0 < refc s q \<Longrightarrow> refc s' q = refc s q"
  using alloc_law [of s pa s'] by (auto split: if_splits)

lemma alloc_release:
  assumes "ok s" and "alloc s = (pa, s')" and "pa \<noteq> 0"
  shows "refc (release pa s') = refc s" and "ok (release pa s')"
proof -
  have "ok s'" "refc s pa = 0" "refc s' = (refc s)(pa := 1)"
    using alloc_law [OF assms(1,2)] assms(3) by auto
  then show "refc (release pa s') = refc s" "ok (release pa s')"
    using release_law [of s' pa] by (auto simp: fun_eq_iff)
qed

text \<open>A client that is the only holder of a set of pages: the set grows by an allocation and
  shrinks by a release, and stays exclusively held.\<close>

definition owns :: "'s \<Rightarrow> u32 set \<Rightarrow> bool" where
  "owns s P \<longleftrightarrow> ok s \<and> (\<forall>p\<in>P. refc s p = 1)"

lemma owns_alloc:
  assumes "owns s P" and "alloc s = (pa, s')" and "pa \<noteq> 0"
  shows "pa \<notin> P" and "owns s' (insert pa P)"
  using assms alloc_law [of s pa s'] unfolding owns_def by auto

lemma owns_release:
  assumes "owns s P" and "pa \<in> P"
  shows "owns (release pa s) (P - {pa})"
  using assms release_law [of s pa] unfolding owns_def by auto

text \<open>Accounting: \<open>M\<close> are the holds a client has, one for each occurrence of a page, and \<open>oth\<close> the
  holds of everyone else, which the client's allocations and releases do not change.\<close>

definition accounted :: "'s \<Rightarrow> u32 multiset \<Rightarrow> (u32 \<Rightarrow> nat) \<Rightarrow> bool" where
  "accounted s M oth \<longleftrightarrow> ok s \<and> (\<forall>pa. refc s pa = count M pa + oth pa)"

lemma accounted_alloc:
  "accounted s M oth \<Longrightarrow> alloc s = (pa, s') \<Longrightarrow> accounted s' (if pa = 0 then M else add_mset pa M) oth"
  using alloc_law [of s pa s'] unfolding accounted_def by (auto split: if_splits)

lemma accounted_release:
  assumes "accounted s (add_mset pa M) oth"
  shows "accounted (release pa s) M oth"
proof -
  have "ok s" "0 < refc s pa" using assms by (auto simp: accounted_def)
  then show ?thesis using release_law [of s pa] assms by (auto simp: accounted_def)
qed

lemma accounted_nonzero: "accounted s M oth \<Longrightarrow> 0 \<notin># M"
  using refc_zero [of s] unfolding accounted_def by (metis add_is_0 count_eq_zero_iff)

lemma owns_alloc_fail: "owns s P \<Longrightarrow> alloc s = (0, s') \<Longrightarrow> s' = s"
  using alloc_law [of s 0 s'] unfolding owns_def by auto

end

text \<open>The holders of a page by its address; only the pages after the tables have any.\<close>

definition page_refs :: "pmm \<Rightarrow> u32 \<Rightarrow> nat" where
  "page_refs s pa =
     (if base s \<le> pa \<and> user_page s (page_idx s pa) \<and> pa = page_pa s (page_idx s pa)
      then holders s (page_idx s pa) else 0)"

lemma page_pa_unat:
  "pmm_layout s \<Longrightarrow> i < unat (total s) \<Longrightarrow> unat (page_pa s i) = unat (base s) + 4096 * i"
  unfolding page_pa_offset using layoutD(3) [of s] by (intro unat_add_nat_u32) linarith

lemma page_idx_page_pa:
  "pmm_layout s \<Longrightarrow> i < unat (total s) \<Longrightarrow> base s \<le> page_pa s i \<and> page_idx s (page_pa s i) = i"
  by (simp add: page_idx_def page_pa_unat word_le_nat_alt)

lemma page_refs_page_pa:
  "pmm_layout s \<Longrightarrow> i < unat (total s) \<Longrightarrow>
   page_refs s (page_pa s i) = (if user_page s i then holders s i else 0)"
  using page_idx_page_pa [of s i] by (simp add: page_refs_def)

lemma page_refs_upd:
  assumes "pmm_layout s" and "user_page s i" and "base s' = base s" and "total s' = total s"
    and "holders s' = (holders s)(i := n)"
  shows "page_refs s' = (page_refs s)(page_pa s i := n)"
proof
  fix pa
  have i: "i < unat (total s)" using assms(2) by (simp add: user_page_def)
  have "page_idx s pa = i \<Longrightarrow> pa = page_pa s (page_idx s pa) \<Longrightarrow> pa = page_pa s i" by simp
  then show "page_refs s' pa = ((page_refs s)(page_pa s i := n)) pa"
    using assms page_idx_page_pa [OF assms(1) i]
    by (auto simp: page_refs_def page_idx_def user_page_def page_pa_def)
qed

lemma page_refsD:
  assumes "0 < page_refs s pa"
  obtains i where "i = page_idx s pa" and "user_page s i" and "pa = page_pa s i" and "base s \<le> pa"
    and "page_refs s pa = holders s i" and "taken s i"
proof (rule that [OF refl])
  show "user_page s (page_idx s pa)" "pa = page_pa s (page_idx s pa)" "base s \<le> pa"
    "page_refs s pa = holders s (page_idx s pa)" "taken s (page_idx s pa)"
    using assms unfolding page_refs_def holders_def by (auto split: if_splits)
qed

lemma alloc_post_holders:
  "alloc_post i 1 s s' \<Longrightarrow> holders s' = (holders s)(i := 1)"
  by (auto simp: alloc_post_def fun_eq_iff)

lemma pmm_alloc_cases [consumes 1, case_names full page]:
  assumes wf: "pmm_wf s"
  obtains (full) "\<forall>i < unat (total s). taken s i" and "pmm_alloc s = (0, s)"
  | (page) i s' where "i < unat (total s)" and "\<not> taken s i" and "\<forall>j<i. taken s j"
      and "user_page s i" and "page_pa s i \<noteq> 0"
      and "pmm_alloc s = (page_pa s i, s')" and "pmm_wf s'" and "alloc_post i 1 s s'"
proof (cases "\<forall>i < unat (total s). taken s i")
  case True
  then show ?thesis using full pmm_alloc_none [OF wf] by blast
next
  case False
  then obtain k where k: "k < unat (total s) \<and> \<not> taken s k"
    "\<forall>j<k. \<not> (j < unat (total s) \<and> \<not> taken s j)"
    using exists_least_iff [of "\<lambda>i. i < unat (total s) \<and> \<not> taken s i"] by blast
  then have "\<not> taken s k" "k < unat (total s)" "\<forall>j<k. taken s j" by auto
  then show ?thesis
    using page by (metis pmm_alloc_spec [OF wf])
qed

interpretation pool: page_pool pmm_wf page_refs pmm_alloc pmm_free
proof
  fix s pa s'
  assume wf: "pmm_wf s"
  then have lay: "pmm_layout s" by (rule wfD)
  show "page_refs s 0 = 0"
  proof (rule ccontr)
    assume "page_refs s 0 \<noteq> 0"
    then have "0 < page_refs s 0" by simp
    then obtain i where "user_page s i" "0 = page_pa s i" by (rule page_refsD)
    then show False using page_pa_nonzero [OF lay, of i] by (auto simp: user_page_def)
  qed
  show "if pa = 0 then s' = s
        else pmm_wf s' \<and> page_refs s pa = 0 \<and> page_refs s' = (page_refs s)(pa := 1)"
    if al: "pmm_alloc s = (pa, s')"
    using wf
  proof (cases rule: pmm_alloc_cases)
    case full
    then show ?thesis using al by simp
  next
    case (page i s'')
    then have eq: "pa = page_pa s i" "s'' = s'" using al by auto
    have "page_refs s' = (page_refs s)(page_pa s i := 1)"
      using page(8) unfolding eq(2)
      by (intro page_refs_upd [OF lay page(4)] alloc_post_holders) (auto simp: alloc_post_def)
    then show ?thesis
      using page eq page_refs_page_pa [OF lay page(1)] by (simp add: holders_def)
  qed
  show "pmm_wf (pmm_free pa s) \<and> page_refs (pmm_free pa s) = (page_refs s)(pa := page_refs s pa - 1)"
    if "0 < page_refs s pa"
  proof -
    from that obtain i where i: "i = page_idx s pa" "user_page s i" "pa = page_pa s i" "base s \<le> pa"
      "page_refs s pa = holders s i" "taken s i" by (rule page_refsD)
    note f = pmm_free_holders [OF wf i(4,1,6)]
    have "page_refs (pmm_free pa s) = (page_refs s)(page_pa s i := holders s i - 1)"
      using f by (intro page_refs_upd [OF lay i(2)]) auto
    then show ?thesis using f(2) i(2,3,5) by simp
  qed
qed

section \<open>Properties\<close>

definition free_run :: "pmm \<Rightarrow> nat \<Rightarrow> nat \<Rightarrow> bool" where
  "free_run s n i \<longleftrightarrow> i + n \<le> unat (total s) \<and> (\<forall>j \<in> {i..<i + n}. \<not> taken s j)"

lemma free_run_blocked: "free_run s n i \<longleftrightarrow> i + n \<le> unat (total s) \<and> \<not> blocked s n i"
  by (auto simp: free_run_def blocked_def)

lemma taken_holders: "taken s i \<longleftrightarrow> holders s i \<noteq> 0"
  by (simp add: holders_def)

text \<open>An eight page pool from \<open>0x1000\<close>, one page of which holds the tables.\<close>

definition demo_pool :: pmm where
  "demo_pool = pmm_init 0x1000 0x9000
     \<lparr>pmem = \<lambda>_. 0, bitmap = 0, refs = 0, base = 0, total = 0, used = 0\<rparr>"

lemma demo_pool_facts:
  "pmm_wf demo_pool" "base demo_pool = 0x1000" "unat (total demo_pool) = 8"
  "holders demo_pool = (\<lambda>i. if i < 1 then 1 else 0)"
  "taken demo_pool i \<longleftrightarrow> i = 0" "extra demo_pool 0 = 0"
proof -
  have m: "map_pages_of 8 = 1" by (simp add: map_pages_of_def refs_off_def)
  have ends: "PAGE_ALIGN_UP 0x1000 = 0x1000" "PAGE_ALIGN_DOWN 0x9000 = 0x9000"
    by (simp_all add: kdefs)
  note init = pmm_init_pool [of "0x9000" "0x1000", unfolded ends, simplified m, simplified,
      folded demo_pool_def]
  show *: "pmm_wf demo_pool" "base demo_pool = 0x1000" "unat (total demo_pool) = 8"
    "holders demo_pool = (\<lambda>i. if i < 1 then 1 else 0)"
    using init by (simp_all add: demo_pool_def m)
  show tk: "taken demo_pool i \<longleftrightarrow> i = 0" for i by (simp add: taken_holders *(4))
  show "extra demo_pool 0 = 0" using fun_cong [OF *(4), of 0] tk by (simp add: holders_def)
qed

text \<open>C11: \<open>pmm_alloc\<close> on a well-formed pool.  If every page is taken it returns 0 and changes
  nothing; otherwise it returns the address of the lowest free page, which is never one of the
  tables' own, the page has exactly one holder afterwards and is all zeroes, every other page
  keeps its holders and its bytes, and the pool is well formed again.\<close>

theorem pmm_alloc_correct:
  assumes "pmm_wf s" and "pmm_alloc s = (pa, s')"
  shows "pmm_wf s' \<and>
    (if \<forall>i \<in> {..<unat (total s)}. taken s i then pa = 0 \<and> s' = s
     else \<exists>i. free_run s 1 i \<and> (\<forall>j \<in> {..<i}. taken s j) \<and> user_page s i \<and>
              pa = page_pa s i \<and> pa \<noteq> 0 \<and> alloc_post i 1 s s')"
  using assms(1)
proof (cases rule: pmm_alloc_cases)
  case full
  then show ?thesis using assms by auto
next
  case (page i t)
  then have "pa = page_pa s i" "s' = t" using assms(2) by auto
  moreover have "free_run s 1 i" using page by (simp add: free_run_def)
  ultimately show ?thesis using page by auto
qed

theorem pmm_alloc_correct_witness:
  "pmm_wf demo_pool \<and> fst (pmm_alloc demo_pool) = 0x2000"
proof -
  obtain pa s' where al: "pmm_alloc demo_pool = (pa, s')" by (cases "pmm_alloc demo_pool")
  have "\<not> (\<forall>i \<in> {..<unat (total demo_pool)}. taken demo_pool i)"
    by (auto simp: demo_pool_facts)
  then obtain i where "free_run demo_pool 1 i" "\<forall>j \<in> {..<i}. taken demo_pool j"
    "pa = page_pa demo_pool i"
    using pmm_alloc_correct [OF demo_pool_facts(1) al] by (simp only: if_False) blast
  moreover from this have "\<not> 1 < i" "i \<noteq> 0"
    by (auto simp: free_run_def demo_pool_facts)
  then have "i = 1" by simp
  ultimately show ?thesis using al by (simp add: demo_pool_facts page_pa_def PAGE_SIZE_def)
qed

text \<open>C20: \<open>pmm_alloc_pages\<close> asks for \<open>n\<close> adjacent pages, and although it skips a failed run
  instead of retrying inside it, it misses no run: it returns 0, changing nothing, exactly
  when no \<open>n\<close> adjacent pages are free, and otherwise takes the lowest such run, gives each
  page one holder, zeroes it and touches nothing else.\<close>

theorem pmm_alloc_pages_correct:
  assumes "pmm_wf s" and "n \<noteq> 0" and "pmm_alloc_pages n s = (pa, s')"
  shows "pmm_wf s' \<and>
    (if \<exists>i. free_run s (unat n) i
     then \<exists>i. free_run s (unat n) i \<and> (\<forall>j \<in> {..<i}. \<not> free_run s (unat n) j) \<and>
              pa = page_pa s i \<and> pa \<noteq> 0 \<and> alloc_post i (unat n) s s'
     else pa = 0 \<and> s' = s)"
proof (cases "n = 1")
  case True
  show ?thesis
    using assms(1)
  proof (cases rule: pmm_alloc_cases)
    case full
    then show ?thesis using assms True by (auto simp: pmm_alloc_pages_def free_run_def)
  next
    case (page i t)
    then have "pa = page_pa s i" "s' = t" using assms(3) True by (auto simp: pmm_alloc_pages_def)
    moreover have "free_run s 1 i" "\<forall>j\<in>{..<i}. \<not> free_run s 1 j"
      using page by (auto simp: free_run_def)
    ultimately show ?thesis using page True by auto
  qed
next
  case False
  have "unat n \<noteq> 0" "unat n \<noteq> 1" using False assms(2) by (simp_all add: word_unat_eq_iff)
  then have n: "1 < unat n" by simp
  note run = find_run_spec [where s = s and n = "unat n" and i = 0]
  show ?thesis
  proof (cases "find_run s (unat n) 0")
    case None
    then have "pa = 0 \<and> s' = s" using assms(2,3) False by (simp add: pmm_alloc_pages_def)
    moreover have "\<not> free_run s (unat n) i" for i using run None by (auto simp: free_run_blocked)
    ultimately show ?thesis using assms(1) by auto
  next
    case (Some i)
    then have "free_run s (unat n) i" "\<forall>j\<in>{..<i}. \<not> free_run s (unat n) j"
      using run by (auto simp: free_run_blocked)
    then show ?thesis
      using pmm_alloc_pages_hit [OF assms(1) n Some] assms(3) by (metis fst_conv snd_conv)
  qed
qed

theorem pmm_alloc_pages_correct_witness:
  "pmm_wf demo_pool \<and> (3 :: u32) \<noteq> 0 \<and> fst (pmm_alloc_pages 3 demo_pool) = 0x2000"
proof -
  obtain pa s' where al: "pmm_alloc_pages 3 demo_pool = (pa, s')"
    by (cases "pmm_alloc_pages 3 demo_pool")
  have run: "free_run demo_pool 3 i \<longleftrightarrow> 0 < i \<and> i + 3 \<le> 8" for i
    by (auto simp: free_run_def demo_pool_facts)
  have "\<exists>i. free_run demo_pool (unat (3 :: u32)) i" using run [of 1] by auto
  then obtain i where "free_run demo_pool 3 i" "\<forall>j \<in> {..<i}. \<not> free_run demo_pool 3 j"
    "pa = page_pa demo_pool i"
    using pmm_alloc_pages_correct [OF demo_pool_facts(1) _ al] by auto
  moreover from this have "\<not> 1 < i" "i \<noteq> 0" using run [of 1] by (auto simp: run)
  then have "i = 1" by simp
  ultimately show ?thesis
    using al by (simp add: demo_pool_facts page_pa_def PAGE_SIZE_def)
qed

text \<open>C12: \<open>pmm_free\<close> takes one holder away from the page that contains the address and changes
  no other page's count; the page becomes free exactly when that was the last holder.  An
  address below the pool, above it or in a free page is ignored.  The pool stays well formed
  as long as the address is not the last hold on one of the tables' own pages.\<close>

theorem pmm_free_correct:
  assumes "pmm_wf s" and "i = page_idx s pa"
  shows "if base s \<le> pa \<and> taken s i
     then holders (pmm_free pa s) = (holders s)(i := holders s i - 1) \<and>
          (taken (pmm_free pa s) i \<longleftrightarrow> 1 < holders s i) \<and>
          (pmm_wf (pmm_free pa s) \<longleftrightarrow> user_page s i \<or> 1 < holders s i)
     else pmm_free pa s = s"
proof (cases "base s \<le> pa \<and> taken s i")
  case True
  then have lt: "i < unat (total s)" by (simp add: taken_def)
  note f = pmm_free_holders [OF assms(1) conjunct1 [OF True] assms(2) conjunct2 [OF True]]
  have tk: "taken (pmm_free pa s) i \<longleftrightarrow> 1 < holders s i"
    unfolding taken_holders [of "pmm_free pa s"] f(1) by auto
  have "1 < holders s i \<longleftrightarrow> extra s i \<noteq> 0" using True by (simp add: holders_def)
  moreover have "user_page s i \<or> 1 < holders s i" if "pmm_wf (pmm_free pa s)"
    using wfD(2) [OF that, of i] tk f(4) lt
    by (cases "i < map_pages_of (unat (total s))") (auto simp: user_page_def)
  ultimately show ?thesis using True f(1,2) tk by auto
next
  case False
  then show ?thesis
    using pmm_free_below [of pa s] pmm_free_untaken [of s pa] assms(2) by (simp only: if_False) force
qed

theorem pmm_free_correct_witness:
  "pmm_wf demo_pool \<and> pmm_free 0x2abc demo_pool = demo_pool \<and>
   holders (pmm_free 0x1abc demo_pool) 0 = 0 \<and> \<not> pmm_wf (pmm_free 0x1abc demo_pool)"
proof -
  have idx: "page_idx demo_pool 0x2abc = 1" "page_idx demo_pool 0x1abc = 0"
    by (simp_all add: page_idx_def demo_pool_facts)
  have "pmm_free 0x2abc demo_pool = demo_pool"
    using pmm_free_correct [OF demo_pool_facts(1) refl, of "0x2abc"] idx
    by (simp add: demo_pool_facts)
  moreover have "\<not> user_page demo_pool 0"
    by (simp add: user_page_def demo_pool_facts map_pages_of_def refs_off_def)
  then have "holders (pmm_free 0x1abc demo_pool) 0 = 0 \<and> \<not> pmm_wf (pmm_free 0x1abc demo_pool)"
    using pmm_free_correct [OF demo_pool_facts(1) refl, of "0x1abc"] idx
    by (simp add: demo_pool_facts)
  ultimately show ?thesis using demo_pool_facts(1) by simp
qed

text \<open>C19: \<open>pmm_init\<close> leaves a well-formed pool whenever the range it is given has more
  pages than its tables take: the pool starts at the first page boundary at or after
  \<open>first\<close>, the tables' pages have one holder each and no other page has any; and otherwise it
  leaves an empty pool, from which \<open>pmm_alloc\<close> hands out nothing.\<close>

theorem pmm_init_correct:
  fixes first last0 :: u32 and s0 :: pmm
  defines "s \<equiv> pmm_init first last0 s0"
    and "T \<equiv> (unat (PAGE_ALIGN_DOWN last0) - unat (PAGE_ALIGN_UP first)) div 4096"
  shows "if map_pages_of T < T
     then pmm_wf s \<and> base s = PAGE_ALIGN_UP first \<and> unat (total s) = T \<and>
          holders s = (\<lambda>i. if i < map_pages_of T then 1 else 0) \<and>
          unat (pmm_available s) = T - map_pages_of T
     else total s = 0 \<and> pmm_alloc s = (0, s)"
proof (cases "map_pages_of T < T")
  case True
  note init = pmm_init_pool [of last0 first s0, folded T_def, OF True, folded s_def]
  have "{i. taken s i} = {..<map_pages_of T}"
    unfolding taken_holders init(4) by auto
  then have "unat (used s) = map_pages_of T" using wfD(3) [OF init(1)] by simp
  then have "unat (pmm_available s) = T - map_pages_of T"
    unfolding pmm_available_def using True init(3) by (simp add: unat_sub word_le_nat_alt)
  then show ?thesis using True init by simp
next
  case False
  let ?b = "PAGE_ALIGN_UP first" and ?e = "PAGE_ALIGN_DOWN last0"
  let ?p = "(?e - ?b) div PAGE_SIZE"
  let ?m = "((((?p + 7) div 8 + 1) AND NOT 1) + ?p * 2 + PAGE_SIZE - 1) div PAGE_SIZE"
  have "?e \<le> ?b \<or> ?p \<le> ?m"
  proof (rule disjCI)
    assume "\<not> ?p \<le> ?m"
    show "?e \<le> ?b"
    proof (rule ccontr)
      assume "\<not> ?e \<le> ?b"
      then have p: "unat ?p = T"
        by (simp add: T_def unat_div PAGE_SIZE_def unat_sub less_imp_le)
      moreover have "unat ?p < 1048576"
        unfolding p T_def using unat_u32_less [of ?e] by linarith
      ultimately show False
        using False \<open>\<not> ?p \<le> ?m\<close> init_sizes(2) [of ?p] by (simp only: word_le_nat_alt)
    qed
  qed
  then have "total s = 0"
  proof
    assume "?e \<le> ?b"
    then show ?thesis unfolding s_def pmm_init_def by (simp add: Let_def)
  next
    assume "?p \<le> ?m"
    then show ?thesis unfolding s_def pmm_init_def by (simp add: Let_def)
  qed
  then show ?thesis using False by (simp add: pmm_alloc_def u32_upto_def)
qed

text \<open>C21: sharing.  \<open>pmm_ref\<close> adds a holder to a taken page that has fewer than 65536 and
  refuses, changing nothing, otherwise; it keeps the pool well formed; a \<open>pmm_free\<close> after it
  restores every count; and \<open>pmm_refcount\<close> reports the number of holders.\<close>

theorem pmm_ref_correct:
  assumes "pmm_wf s" and "base s \<le> pa" and "i = page_idx s pa"
  shows "case pmm_ref pa s of (ok, s') \<Rightarrow>
     (ok \<longleftrightarrow> taken s i \<and> holders s i < 65536) \<and> pmm_wf s' \<and>
     unat (pmm_refcount pa s') = holders s i + (if ok then 1 else 0) \<and>
     (if ok then holders s' = (holders s)(i := holders s i + 1) \<and>
                 holders (pmm_free pa s') = holders s
      else s' = s)"
proof (cases "taken s i \<and> holders s i < 65536")
  case True
  then obtain s' where s': "pmm_ref pa s = (True, s')" "pmm_wf s'" "base s' = base s"
    "total s' = total s" "holders s' = (holders s)(i := holders s i + 1)"
    using pmm_ref_holders [OF assms] by blast
  have i': "i = page_idx s' pa" "base s' \<le> pa"
    using assms s'(3) by (simp_all add: page_idx_def)
  have "taken s' i" unfolding taken_holders s'(5) by simp
  then have "holders (pmm_free pa s') = holders s"
    using pmm_free_holders(1) [OF s'(2) i'(2,1)] s'(5) by simp
  then show ?thesis
    using True s' pmm_refcount_idx [OF i'(2)] i'(1) by simp
next
  case False
  moreover have "extra s i < 65536" unfolding extra_def by (rule unat_u16_less)
  ultimately have "\<not> (taken s i \<and> extra s i \<noteq> 65535)" by (auto simp: holders_def)
  then have "pmm_ref pa s = (False, s)" using pmm_ref_idx [OF assms(2,3)] by simp
  then show ?thesis using False assms pmm_refcount_idx [OF assms(2)] by simp
qed

theorem pmm_ref_correct_witness:
  "pmm_wf demo_pool \<and> base demo_pool \<le> 0x1000 \<and> fst (pmm_ref 0x1000 demo_pool) \<and>
   \<not> fst (pmm_ref 0x2000 demo_pool)"
proof -
  have idx: "page_idx demo_pool 0x1000 = 0" "page_idx demo_pool 0x2000 = 1"
    by (simp_all add: page_idx_def demo_pool_facts)
  show ?thesis
    using pmm_ref_correct [OF demo_pool_facts(1) _ refl, of "0x1000"]
      pmm_ref_correct [OF demo_pool_facts(1) _ refl, of "0x2000"] idx
    by (auto simp: demo_pool_facts split: prod.splits)
qed

end
