(* ===== verification/Waitq.thy ===== *)
theory Waitq
  imports Kprelude
begin

text \<open>
  \<^verbatim>\<open>kernel/wait.c\<close>: wait queues, semaphores and mutexes.  A queue is the head of a chain linked
  through the tasks' own \<^verbatim>\<open>wait_next\<close> fields; the model keeps the links, and \<^verbatim>\<open>enqueue\<close> and
  \<^verbatim>\<open>dequeue\<close> walk them from a pointer to a link, as the code does.  The invariant
  \<open>queues_are s L\<close> says that the chains of \<open>s\<close> are the lists \<open>L\<close>, that no task is on
  two of them and that every task's \<^verbatim>\<open>queue\<close> field names the one it is on.  Every operation is
  shown to act on \<open>L\<close> as its list counterpart.

  A task is a number, and so is a queue.  A call that sleeps is split where it gives up the
  processor: the part before \<^verbatim>\<open>schedule()\<close> and the part after are two functions, and an
  interrupt handler or another task runs between them.
\<close>

section \<open>Definitions\<close>

datatype (plugins only: code size) tstate =
  TASK_UNUSED | TASK_READY | TASK_RUNNING | TASK_BLOCKED | TASK_STOPPED | TASK_ZOMBIE | TASK_TRACED

record tasks =
  head :: "nat \<Rightarrow> nat option"
  wait_next :: "nat \<Rightarrow> nat option"
  queue :: "nat \<Rightarrow> nat option"
  state :: "nat \<Rightarrow> tstate"
  woken :: "nat \<Rightarrow> bool"
  wake_at :: "nat \<Rightarrow> u32"

text \<open>The \<^verbatim>\<open>struct task **p\<close> of the two walks: a queue's head or a task's \<^verbatim>\<open>wait_next\<close>.\<close>

datatype link = Head nat | Next nat

fun get_link :: "tasks \<Rightarrow> link \<Rightarrow> nat option" where
  "get_link s (Head q) = head s q"
| "get_link s (Next t) = wait_next s t"

fun set_link :: "link \<Rightarrow> nat option \<Rightarrow> tasks \<Rightarrow> tasks" where
  "set_link (Head q) v s = s\<lparr>head := (head s)(q := v)\<rparr>"
| "set_link (Next t) v s = s\<lparr>wait_next := (wait_next s)(t := v)\<rparr>"

partial_function (option) enqueue_from :: "link \<Rightarrow> nat \<Rightarrow> nat \<Rightarrow> tasks \<Rightarrow> tasks option" where
  "enqueue_from p q t s =
     (case get_link s p of
        Some u \<Rightarrow> enqueue_from (Next u) q t s
      | None \<Rightarrow>
          let s = set_link p (Some t) s;
              s = s\<lparr>wait_next := (wait_next s)(t := None)\<rparr>
          in Some (s\<lparr>queue := (queue s)(t := Some q)\<rparr>))"

definition enqueue :: "nat \<Rightarrow> nat \<Rightarrow> tasks \<Rightarrow> tasks option" where
  "enqueue q t s = enqueue_from (Head q) q t s"

partial_function (option) dequeue_from :: "link \<Rightarrow> nat \<Rightarrow> tasks \<Rightarrow> tasks option" where
  "dequeue_from p t s =
     (case get_link s p of
        None \<Rightarrow> Some s
      | Some u \<Rightarrow>
          if u = t then
            let s = set_link p (wait_next s t) s;
                s = s\<lparr>wait_next := (wait_next s)(t := None)\<rparr>
            in Some (s\<lparr>queue := (queue s)(t := None)\<rparr>)
          else dequeue_from (Next u) t s)"

definition dequeue :: "nat \<Rightarrow> nat \<Rightarrow> tasks \<Rightarrow> tasks option" where
  "dequeue q t s = dequeue_from (Head q) t s"

text \<open>\<^verbatim>\<open>sleep_on\<close>, up to and after \<^verbatim>\<open>schedule()\<close>, for the task \<open>c\<close>.\<close>

definition sleep_on_enter :: "nat \<Rightarrow> nat \<Rightarrow> tasks \<Rightarrow> tasks option" where
  "sleep_on_enter q c s =
     map_option (\<lambda>s. s\<lparr>state := (state s)(c := TASK_BLOCKED)\<rparr>) (enqueue q c s)"

definition sleep_on_leave :: "nat \<Rightarrow> nat \<Rightarrow> tasks \<Rightarrow> tasks option" where
  "sleep_on_leave q c s = (if queue s c = Some q then dequeue q c s else Some s)"

text \<open>\<^verbatim>\<open>sleep_on_timeout\<close>: the deadline, one turn of the loop up to \<^verbatim>\<open>schedule()\<close>, and the rest
  of the turn, which returns 1, returns 0 or goes round again (\<open>None\<close>).\<close>

definition HZ :: u32 where "HZ = 100"

definition timeout_deadline :: "u32 \<Rightarrow> u32 \<Rightarrow> u32" where
  "timeout_deadline jiffies ms = jiffies + (ms * HZ + 999) div 1000"

definition sleep_on_timeout_enter :: "nat \<Rightarrow> u32 \<Rightarrow> nat \<Rightarrow> tasks \<Rightarrow> tasks option" where
  "sleep_on_timeout_enter q deadline c s =
     (let s = s\<lparr>woken := (woken s)(c := False)\<rparr>
      in map_option (\<lambda>s. s\<lparr>state := (state s)(c := TASK_BLOCKED), wake_at := (wake_at s)(c := deadline)\<rparr>)
           (enqueue q c s))"

definition sleep_on_timeout_leave ::
    "nat \<Rightarrow> u32 \<Rightarrow> u32 \<Rightarrow> nat \<Rightarrow> tasks \<Rightarrow> (bool option \<times> tasks) option" where
  "sleep_on_timeout_leave q deadline jiffies c s =
     map_option
       (\<lambda>s. let s = s\<lparr>wake_at := (wake_at s)(c := 0)\<rparr>
            in if woken s c then (Some True, s\<lparr>woken := (woken s)(c := False)\<rparr>)
               else if 0 \<le> sint (jiffies - deadline) then (Some False, s)
               else (None, s))
       (if queue s c = Some q then dequeue q c s else Some s)"

definition wake_task :: "nat \<Rightarrow> tasks \<Rightarrow> tasks" where
  "wake_task t s =
     (let s = (if state s t = TASK_BLOCKED then s\<lparr>state := (state s)(t := TASK_READY)\<rparr> else s)
      in s\<lparr>woken := (woken s)(t := True)\<rparr>)"

definition wake_signalled :: "nat \<Rightarrow> tasks \<Rightarrow> tasks option" where
  "wake_signalled t s =
     map_option (wake_task t)
       (case queue s t of Some q \<Rightarrow> dequeue q t s | None \<Rightarrow> Some s)"

definition unlink_task :: "nat \<Rightarrow> tasks \<Rightarrow> tasks" where
  "unlink_task t s = s\<lparr>wait_next := (wait_next s)(t := None), queue := (queue s)(t := None)\<rparr>"

definition wake_one :: "nat \<Rightarrow> tasks \<Rightarrow> tasks" where
  "wake_one q s =
     (case head s q of
        None \<Rightarrow> s
      | Some t \<Rightarrow> wake_task t (unlink_task t (s\<lparr>head := (head s)(q := wait_next s t)\<rparr>)))"

partial_function (option) wake_chain :: "nat option \<Rightarrow> tasks \<Rightarrow> tasks option" where
  "wake_chain p s =
     (case p of
        None \<Rightarrow> Some s
      | Some t \<Rightarrow> wake_chain (wait_next s t) (wake_task t (unlink_task t s)))"

definition wake_all :: "nat \<Rightarrow> tasks \<Rightarrow> tasks option" where
  "wake_all q s = wake_chain (head s q) (s\<lparr>head := (head s)(q := None)\<rparr>)"

text \<open>Semaphores: the count beside the queue \<open>q\<close>.  \<open>sem_trywait\<close> is also the test each turn of
  \<^verbatim>\<open>sem_wait\<close>'s loop makes with interrupts masked; when it fails \<^verbatim>\<open>sem_wait\<close> restores the
  mask and then calls \<open>sleep_on\<close>.\<close>

definition sem_init :: "nat \<Rightarrow> int \<Rightarrow> tasks \<Rightarrow> int \<times> tasks" where
  "sem_init q count s = (count, s\<lparr>head := (head s)(q := None)\<rparr>)"

definition sem_trywait :: "int \<Rightarrow> bool \<times> int" where
  "sem_trywait count = (if 0 < count then (True, count - 1) else (False, count))"

definition sem_post :: "nat \<Rightarrow> int \<times> tasks \<Rightarrow> int \<times> tasks" where
  "sem_post q cs = (case cs of (count, s) \<Rightarrow> (count + 1, wake_one q s))"

text \<open>Mutexes.\<close>

record mutex =
  locked :: bool
  owner :: "nat option"

definition mutex_init :: "nat \<Rightarrow> tasks \<Rightarrow> mutex \<times> tasks" where
  "mutex_init q s = (\<lparr>locked = False, owner = None\<rparr>, s\<lparr>head := (head s)(q := None)\<rparr>)"

datatype lock_pass = Acquired mutex | Panic | Must_sleep

definition mutex_lock_pass :: "nat \<Rightarrow> mutex \<Rightarrow> lock_pass" where
  "mutex_lock_pass c m =
     (if \<not> locked m then Acquired (m\<lparr>locked := True, owner := Some c\<rparr>)
      else if owner m = Some c then Panic
      else Must_sleep)"

definition mutex_trylock :: "nat \<Rightarrow> mutex \<Rightarrow> bool \<times> mutex" where
  "mutex_trylock c m =
     (if \<not> locked m then (True, m\<lparr>locked := True, owner := Some c\<rparr>) else (False, m))"

definition mutex_unlock :: "nat \<Rightarrow> mutex \<times> tasks \<Rightarrow> mutex \<times> tasks" where
  "mutex_unlock q ms = (case ms of (m, s) \<Rightarrow> (m\<lparr>locked := False, owner := None\<rparr>, wake_one q s))"

text \<open>Where a task is in \<^verbatim>\<open>sem_wait\<close> or \<^verbatim>\<open>mutex_lock\<close>: about to test, between a failed test and
  \<open>sleep_on\<close> (interrupts are unmasked again there), inside \<open>sleep_on\<close>, or holding the mutex.\<close>

datatype wait_pc = Away | Trying | Decided | Asleep | Holding

record sem_sys =
  scount :: int
  stasks :: tasks
  spc :: "nat \<Rightarrow> wait_pc"

text \<open>The steps of tasks and posters on one semaphore.  The kernel does not preempt a task
  inside a system call, so a post by a task cannot fall between another's failed test and its
  sleep; one by an interrupt handler can, and \<open>intr\<close> says whether handlers post.

  \<^verbatim>\<open>sem_post\<close> is one step although it masks interrupts twice, once to count and once in
  \<^verbatim>\<open>wake_one\<close>: no task can run in between, and a handler that posts there only adds a permit and
  wakes the next task, in whichever order.  A signal wakes a sleeper, which then tests again.\<close>

inductive sem_step :: "bool \<Rightarrow> nat \<Rightarrow> sem_sys \<Rightarrow> sem_sys \<Rightarrow> bool" for intr q where
  sem_call: "spc c t = Away \<Longrightarrow> queue (stasks c) t = None \<Longrightarrow>
     sem_step intr q c (c\<lparr>spc := (spc c)(t := Trying)\<rparr>)"
| sem_take: "spc c t = Trying \<Longrightarrow> sem_trywait (scount c) = (True, n) \<Longrightarrow>
     sem_step intr q c (c\<lparr>scount := n, spc := (spc c)(t := Away)\<rparr>)"
| sem_refuse: "spc c t = Trying \<Longrightarrow> sem_trywait (scount c) = (False, n) \<Longrightarrow>
     sem_step intr q c (c\<lparr>scount := n, spc := (spc c)(t := Decided)\<rparr>)"
| sem_sleep: "spc c t = Decided \<Longrightarrow> sleep_on_enter q t (stasks c) = Some s \<Longrightarrow>
     sem_step intr q c (c\<lparr>stasks := s, spc := (spc c)(t := Asleep)\<rparr>)"
| sem_resume: "spc c t = Asleep \<Longrightarrow> state (stasks c) t \<noteq> TASK_BLOCKED \<Longrightarrow>
     sleep_on_leave q t (stasks c) = Some s \<Longrightarrow>
     sem_step intr q c (c\<lparr>stasks := s, spc := (spc c)(t := Trying)\<rparr>)"
| sem_signal: "spc c t = Asleep \<Longrightarrow> wake_signalled t (stasks c) = Some s \<Longrightarrow>
     sem_step intr q c (c\<lparr>stasks := s\<rparr>)"
| sem_give: "intr \<or> (\<forall>t. spc c t \<noteq> Decided) \<Longrightarrow> sem_post q (scount c, stasks c) = (n, s) \<Longrightarrow>
     sem_step intr q c (c\<lparr>scount := n, stasks := s\<rparr>)"

record mutex_sys =
  mtx :: mutex
  mtasks :: tasks
  mpc :: "nat \<Rightarrow> wait_pc"

inductive mutex_step :: "nat \<Rightarrow> mutex_sys \<Rightarrow> mutex_sys \<Rightarrow> bool" for q where
  mutex_call: "mpc c t = Away \<Longrightarrow> queue (mtasks c) t = None \<Longrightarrow>
     mutex_step q c (c\<lparr>mpc := (mpc c)(t := Trying)\<rparr>)"
| mutex_acquire: "mpc c t = Trying \<Longrightarrow> mutex_lock_pass t (mtx c) = Acquired m \<Longrightarrow>
     mutex_step q c (c\<lparr>mtx := m, mpc := (mpc c)(t := Holding)\<rparr>)"
| mutex_refuse: "mpc c t = Trying \<Longrightarrow> mutex_lock_pass t (mtx c) = Must_sleep \<Longrightarrow>
     mutex_step q c (c\<lparr>mpc := (mpc c)(t := Decided)\<rparr>)"
| mutex_sleep: "mpc c t = Decided \<Longrightarrow> sleep_on_enter q t (mtasks c) = Some s \<Longrightarrow>
     mutex_step q c (c\<lparr>mtasks := s, mpc := (mpc c)(t := Asleep)\<rparr>)"
| mutex_resume: "mpc c t = Asleep \<Longrightarrow> state (mtasks c) t \<noteq> TASK_BLOCKED \<Longrightarrow>
     sleep_on_leave q t (mtasks c) = Some s \<Longrightarrow>
     mutex_step q c (c\<lparr>mtasks := s, mpc := (mpc c)(t := Trying)\<rparr>)"
| mutex_signal: "mpc c t = Asleep \<Longrightarrow> wake_signalled t (mtasks c) = Some s \<Longrightarrow>
     mutex_step q c (c\<lparr>mtasks := s\<rparr>)"
| mutex_try: "mpc c t = Away \<Longrightarrow> queue (mtasks c) t = None \<Longrightarrow> mutex_trylock t (mtx c) = (True, m) \<Longrightarrow>
     mutex_step q c (c\<lparr>mtx := m, mpc := (mpc c)(t := Holding)\<rparr>)"
| mutex_release: "mpc c t = Holding \<Longrightarrow> (\<forall>u. mpc c u \<noteq> Decided) \<Longrightarrow>
     mutex_unlock q (mtx c, mtasks c) = (m, s) \<Longrightarrow>
     mutex_step q c (c\<lparr>mtx := m, mtasks := s, mpc := (mpc c)(t := Away)\<rparr>)"

text \<open>What the components that sleep and wake see of this: a queue as the list of its tasks,
  and an environment that records the tasks made ready, in order, the tasks waiting in
  \<^verbatim>\<open>poll()\<close>, and the signals sent, each with the code and the value that go with it, if any.\<close>

record env =
  made_ready :: "nat list"
  poll_wait :: "nat list"
  signals :: "(nat \<times> int \<times> (int \<times> u32) option) list"

definition wake_list :: "nat list \<Rightarrow> env \<Rightarrow> env" where
  "wake_list ts e = e\<lparr>made_ready := made_ready e @ ts\<rparr>"

definition poll_wake :: "env \<Rightarrow> env" where
  "poll_wake e = wake_list (poll_wait e) (e\<lparr>poll_wait := []\<rparr>)"

definition signal_send :: "nat \<Rightarrow> int \<Rightarrow> env \<Rightarrow> env" where
  "signal_send t sig e = e\<lparr>signals := signals e @ [(t, sig, None)]\<rparr>"

definition signal_send_info :: "nat \<Rightarrow> int \<Rightarrow> int \<Rightarrow> u32 \<Rightarrow> env \<Rightarrow> env" where
  "signal_send_info t sig code v e = e\<lparr>signals := signals e @ [(t, sig, Some (code, v))]\<rparr>"

section \<open>Chains and lists\<close>

primrec chain :: "tasks \<Rightarrow> nat option \<Rightarrow> nat list \<Rightarrow> bool" where
  "chain s p [] \<longleftrightarrow> p = None"
| "chain s p (t # ts) \<longleftrightarrow> p = Some t \<and> chain s (wait_next s t) ts"

definition queues_are :: "tasks \<Rightarrow> (nat \<Rightarrow> nat list) \<Rightarrow> bool" where
  "queues_are s L \<longleftrightarrow>
     (\<forall>q. chain s (head s q) (L q) \<and> distinct (L q)) \<and>
     (\<forall>q t. t \<in> set (L q) \<longleftrightarrow> queue s t = Some q)"

lemma chain_cong:
  "chain s p xs \<Longrightarrow> (\<And>t. t \<in> set xs \<Longrightarrow> wait_next s' t = wait_next s t) \<Longrightarrow> chain s' p xs"
  by (induction xs arbitrary: p) auto

lemma queues_areD:
  assumes "queues_are s L"
  shows "chain s (head s q) (L q)" and "distinct (L q)"
    and "t \<in> set (L q) \<longleftrightarrow> queue s t = Some q"
  using assms by (auto simp: queues_are_def)

lemma on_one_queue: "queues_are s L \<Longrightarrow> t \<in> set (L q) \<Longrightarrow> t \<in> set (L q') \<Longrightarrow> q = q'"
  by (simp add: queues_are_def)

text \<open>The walk from a link \<open>p\<close> whose chain is \<open>xs\<close>: the code stops at the link of the last
  task, or at \<open>p\<close> itself.\<close>

primrec end_link :: "link \<Rightarrow> nat list \<Rightarrow> link" where
  "end_link p [] = p"
| "end_link p (t # ts) = end_link (Next t) ts"

lemma end_link_snoc [simp]: "end_link p (xs @ [t]) = Next t"
  by (induction xs arbitrary: p) auto

lemma end_link_cases: "end_link p xs = p \<and> xs = [] \<or> (\<exists>t \<in> set xs. end_link p xs = Next t)"
  by (cases xs rule: rev_cases) auto

definition link_after :: "link \<Rightarrow> nat \<Rightarrow> nat \<Rightarrow> tasks \<Rightarrow> tasks" where
  "link_after p q t s =
     (let s = set_link p (Some t) s;
          s = s\<lparr>wait_next := (wait_next s)(t := None)\<rparr>
      in s\<lparr>queue := (queue s)(t := Some q)\<rparr>)"

lemma enqueue_from_chain:
  "chain s (get_link s p) xs \<Longrightarrow>
   enqueue_from p q t s = Some (link_after (end_link p xs) q t s)"
proof (induction xs arbitrary: p)
  case Nil
  then show ?case by (simp add: enqueue_from.simps [of p] link_after_def Let_def)
next
  case (Cons u us)
  then show ?case by (simp add: enqueue_from.simps [of p])
qed

definition cut_link :: "link \<Rightarrow> nat \<Rightarrow> tasks \<Rightarrow> tasks" where
  "cut_link p t s =
     (let s = set_link p (wait_next s t) s;
          s = s\<lparr>wait_next := (wait_next s)(t := None)\<rparr>
      in s\<lparr>queue := (queue s)(t := None)\<rparr>)"

lemma dequeue_from_chain:
  "chain s (get_link s p) (xs @ t # ys) \<Longrightarrow> t \<notin> set xs \<Longrightarrow>
   dequeue_from p t s = Some (cut_link (end_link p xs) t s)"
proof (induction xs arbitrary: p)
  case Nil
  then show ?case by (simp add: dequeue_from.simps [of p] cut_link_def Let_def)
next
  case (Cons u us)
  then show ?case by (simp add: dequeue_from.simps [of p])
qed

lemma dequeue_from_absent:
  "chain s (get_link s p) xs \<Longrightarrow> t \<notin> set xs \<Longrightarrow> dequeue_from p t s = Some s"
proof (induction xs arbitrary: p)
  case Nil
  then show ?case by (simp add: dequeue_from.simps [of p])
next
  case (Cons u us)
  then show ?case by (simp add: dequeue_from.simps [of p])
qed

section \<open>Every operation acts on the lists\<close>

lemma chain_snoc:
  assumes "chain s (get_link s p) xs" and "t \<notin> set xs" and "p \<noteq> Next t"
    and "distinct xs" and "\<And>u. p = Next u \<Longrightarrow> u \<notin> set xs"
  shows "chain (link_after (end_link p xs) q t s) (get_link (link_after (end_link p xs) q t s) p) (xs @ [t])"
  using assms
proof (induction xs arbitrary: p)
  case Nil
  then show ?case by (cases p) (auto simp: link_after_def Let_def)
next
  case (Cons u us)
  let ?s = "link_after (end_link (Next u) us) q t s"
  have "chain ?s (get_link ?s (Next u)) (us @ [t])"
    using Cons.prems by (intro Cons.IH) auto
  moreover have "get_link ?s p = Some u"
    using Cons.prems end_link_cases [of "Next u" us]
    by (cases p) (auto simp: link_after_def Let_def)
  ultimately show ?case by simp
qed

lemma link_after_other:
  assumes "p = Head q \<or> (\<exists>u. p = Next u)"
  shows "q' \<noteq> q \<Longrightarrow> head (link_after p q t s) q' = head s q'"
    and "u \<noteq> t \<Longrightarrow> p \<noteq> Next u \<Longrightarrow> wait_next (link_after p q t s) u = wait_next s u"
    and "queue (link_after p q t s) = (queue s)(t := Some q)"
    and "state (link_after p q t s) = state s" and "woken (link_after p q t s) = woken s"
  using assms by (auto simp: link_after_def Let_def split: if_splits)

lemma enqueue_list:
  assumes Q: "queues_are s L" and t: "queue s t = None"
  obtains s' where "enqueue q t s = Some s'" and "queues_are s' (L(q := L q @ [t]))"
    and "state s' = state s" and "woken s' = woken s" and "queue s' = (queue s)(t := Some q)"
proof -
  let ?p = "end_link (Head q) (L q)"
  let ?s = "link_after ?p q t s"
  have notin: "t \<notin> set (L q')" for q' using queues_areD(3) [OF Q, of t q'] t by simp
  have p: "?p = Head q \<or> (\<exists>u. ?p = Next u)" and pin: "\<And>u. ?p = Next u \<Longrightarrow> u \<in> set (L q)"
    using end_link_cases [of "Head q" "L q"] by auto
  note other = link_after_other [OF p]
  have "enqueue q t s = Some ?s"
    unfolding enqueue_def using queues_areD(1) [OF Q, of q] by (intro enqueue_from_chain) simp
  moreover have "queues_are ?s (L(q := L q @ [t]))"
    unfolding queues_are_def
  proof (intro conjI allI)
    fix q'
    show "distinct ((L(q := L q @ [t])) q')" using queues_areD(2) [OF Q] notin by simp
    show "chain ?s (head ?s q') ((L(q := L q @ [t])) q')"
    proof (cases "q' = q")
      case True
      then show ?thesis
        using chain_snoc [of s "Head q" "L q" t q] queues_areD(1,2) [OF Q] notin by simp
    next
      case False
      have "chain ?s (head s q') (L q')"
      proof (rule chain_cong [OF queues_areD(1) [OF Q]])
        fix u
        assume u: "u \<in> set (L q')"
        then have "u \<noteq> t" using notin by blast
        moreover have "?p \<noteq> Next u"
          using pin u on_one_queue [OF Q u] False by blast
        ultimately show "wait_next ?s u = wait_next s u" by (rule other(2))
      qed
      then show ?thesis using False other(1) by simp
    qed
  next
    fix q' u
    show "u \<in> set ((L(q := L q @ [t])) q') \<longleftrightarrow> queue ?s u = Some q'"
      using queues_areD(3) [OF Q] notin by (auto simp: other(3))
  qed
  ultimately show ?thesis using that other(3-5) by blast
qed

lemma cut_link_other:
  assumes "p = Head q \<or> (\<exists>u. p = Next u)"
  shows "q' \<noteq> q \<Longrightarrow> head (cut_link p t s) q' = head s q'"
    and "u \<noteq> t \<Longrightarrow> p \<noteq> Next u \<Longrightarrow> wait_next (cut_link p t s) u = wait_next s u"
    and "queue (cut_link p t s) = (queue s)(t := None)"
    and "state (cut_link p t s) = state s" and "woken (cut_link p t s) = woken s"
  using assms by (auto simp: cut_link_def Let_def split: if_splits)

lemma chain_cut:
  assumes "chain s (get_link s p) (xs @ t # ys)" and "distinct (xs @ t # ys)"
    and "\<And>u. p = Next u \<Longrightarrow> u \<notin> set (xs @ t # ys)"
  shows "chain (cut_link (end_link p xs) t s) (get_link (cut_link (end_link p xs) t s) p) (xs @ ys)"
  using assms
proof (induction xs arbitrary: p)
  case Nil
  have "chain (cut_link p t s) (wait_next s t) ys"
  proof (rule chain_cong [where s = s])
    fix u
    assume "u \<in> set ys"
    then show "wait_next (cut_link p t s) u = wait_next s u"
      using Nil by (cases p) (auto simp: cut_link_def Let_def)
  qed (use Nil in simp)
  then show ?case using Nil by (cases p) (auto simp: cut_link_def Let_def)
next
  case (Cons u us)
  let ?s = "cut_link (end_link (Next u) us) t s"
  have "chain ?s (get_link ?s (Next u)) (us @ ys)"
    using Cons.prems by (intro Cons.IH) auto
  moreover have "get_link ?s p = Some u"
    using Cons.prems end_link_cases [of "Next u" us]
    by (cases p) (auto simp: cut_link_def Let_def)
  ultimately show ?case by simp
qed

lemma remove1_split: "t \<notin> set xs \<Longrightarrow> remove1 t (xs @ t # ys) = xs @ ys"
  by (simp add: remove1_append)

lemma dequeue_list:
  assumes Q: "queues_are s L" and t: "queue s t = Some q"
  obtains s' where "dequeue q t s = Some s'" and "queues_are s' (L(q := remove1 t (L q)))"
    and "state s' = state s" and "woken s' = woken s" and "queue s' = (queue s)(t := None)"
proof -
  have "t \<in> set (L q)" using queues_areD(3) [OF Q] t by simp
  then obtain xs ys where split: "L q = xs @ t # ys" "t \<notin> set xs" by (meson split_list_first)
  let ?p = "end_link (Head q) xs"
  let ?s = "cut_link ?p t s"
  have dist: "distinct (xs @ t # ys)" using queues_areD(2) [OF Q, of q] split by simp
  have chn: "chain s (get_link s (Head q)) (xs @ t # ys)"
    using queues_areD(1) [OF Q, of q] split by simp
  have p: "?p = Head q \<or> (\<exists>u. ?p = Next u)" and pin: "\<And>u. ?p = Next u \<Longrightarrow> u \<in> set (L q)"
    using end_link_cases [of "Head q" xs] split by auto
  note other = cut_link_other [OF p]
  have "dequeue q t s = Some ?s"
    unfolding dequeue_def using chn split(2) by (rule dequeue_from_chain)
  moreover have "queues_are ?s (L(q := remove1 t (L q)))"
    unfolding queues_are_def
  proof (intro conjI allI)
    fix q'
    show "distinct ((L(q := remove1 t (L q))) q')" using queues_areD(2) [OF Q] by simp
    show "chain ?s (head ?s q') ((L(q := remove1 t (L q))) q')"
    proof (cases "q' = q")
      case True
      then show ?thesis
        using chain_cut [OF chn dist] split by (simp add: remove1_split)
    next
      case False
      have "chain ?s (head s q') (L q')"
      proof (rule chain_cong [OF queues_areD(1) [OF Q]])
        fix u
        assume u: "u \<in> set (L q')"
        then have "u \<noteq> t" using on_one_queue [OF Q u] \<open>t \<in> set (L q)\<close> False by blast
        moreover have "?p \<noteq> Next u"
          using pin u on_one_queue [OF Q u] False by blast
        ultimately show "wait_next ?s u = wait_next s u" by (rule other(2))
      qed
      then show ?thesis using False other(1) by simp
    qed
  next
    fix q' u
    show "u \<in> set ((L(q := remove1 t (L q))) q') \<longleftrightarrow> queue ?s u = Some q'"
      using queues_areD(2,3) [OF Q] t by (auto simp: other(3))
  qed
  ultimately show ?thesis using that other(3-5) by blast
qed

lemma wake_task_fields [simp]:
  "head (wake_task t s) = head s" "wait_next (wake_task t s) = wait_next s"
  "queue (wake_task t s) = queue s"
  "state (wake_task t s) = (state s)(t := if state s t = TASK_BLOCKED then TASK_READY else state s t)"
  "woken (wake_task t s) = (woken s)(t := True)"
  by (auto simp: wake_task_def Let_def)

lemma wake_task_queues [simp]: "queues_are (wake_task t s) L = queues_are s L"
proof -
  have "chain (wake_task t s) p xs = chain s p xs" for p xs
    by (induction xs arbitrary: p) auto
  then show ?thesis by (simp add: queues_are_def)
qed

text \<open>\<^verbatim>\<open>wake_one\<close> unlinks the head exactly as \<^verbatim>\<open>dequeue\<close> would.\<close>

lemma wake_one_dequeue:
  assumes Q: "queues_are s L"
  shows "wake_one q s =
    (case L q of [] \<Rightarrow> s | t # _ \<Rightarrow> wake_task t (the (dequeue q t s)))"
proof (cases "L q")
  case Nil
  then have "head s q = None" using queues_areD(1) [OF Q, of q] by simp
  then show ?thesis by (simp add: wake_one_def Nil)
next
  case (Cons t ts)
  then have h: "head s q = Some t" using queues_areD(1) [OF Q, of q] by simp
  moreover have "dequeue q t s = Some (cut_link (Head q) t s)"
    using dequeue_from_chain [of s "Head q" "[]" t ts] queues_areD(1) [OF Q, of q] Cons
    by (simp add: dequeue_def)
  ultimately show ?thesis
    by (simp add: wake_one_def Cons cut_link_def unlink_task_def Let_def)
qed

definition wake_states :: "nat list \<Rightarrow> (nat \<Rightarrow> tstate) \<Rightarrow> nat \<Rightarrow> tstate" where
  "wake_states ts st = (\<lambda>t. if t \<in> set ts \<and> st t = TASK_BLOCKED then TASK_READY else st t)"

lemma wake_one_list:
  assumes Q: "queues_are s L"
  shows "queues_are (wake_one q s) (L(q := tl (L q)))"
    and "state (wake_one q s) = wake_states (take 1 (L q)) (state s)"
    and "queue (wake_one q s) = (\<lambda>t. if t \<in> set (take 1 (L q)) then None else queue s t)"
proof -
  have "queues_are (wake_one q s) (L(q := tl (L q))) \<and>
      state (wake_one q s) = wake_states (take 1 (L q)) (state s) \<and>
      queue (wake_one q s) = (\<lambda>t. if t \<in> set (take 1 (L q)) then None else queue s t)"
  proof (cases "L q")
    case Nil
    then show ?thesis
      using Q fun_upd_triv [of L q] by (simp add: wake_one_dequeue [OF Q] wake_states_def)
  next
    case (Cons t ts)
    then have "queue s t = Some q" using queues_areD(3) [OF Q, of t q] by simp
    then obtain s' where "dequeue q t s = Some s'" "queues_are s' (L(q := remove1 t (L q)))"
      "state s' = state s" "queue s' = (queue s)(t := None)" by (rule dequeue_list [OF Q])
    then show ?thesis
      using Cons by (auto simp: wake_one_dequeue [OF Q] wake_states_def fun_eq_iff)
  qed
  then show "queues_are (wake_one q s) (L(q := tl (L q)))"
    "state (wake_one q s) = wake_states (take 1 (L q)) (state s)"
    "queue (wake_one q s) = (\<lambda>t. if t \<in> set (take 1 (L q)) then None else queue s t)" by auto
qed

lemma wake_chain_list:
  assumes "chain s p xs" and "distinct xs"
  obtains s' where "wake_chain p s = Some s'" and "head s' = head s"
    and "wait_next s' = (\<lambda>t. if t \<in> set xs then None else wait_next s t)"
    and "queue s' = (\<lambda>t. if t \<in> set xs then None else queue s t)"
    and "state s' = wake_states xs (state s)"
    and "woken s' = (\<lambda>t. t \<in> set xs \<or> woken s t)"
  using assms
proof (induction xs arbitrary: p s thesis)
  case Nil
  then show ?case by (simp add: wake_chain.simps [of None] wake_states_def)
next
  case (Cons t ts)
  let ?s = "wake_task t (unlink_task t s)"
  have "chain ?s (wait_next s t) ts"
    using Cons.prems(2,3) by (auto simp: unlink_task_def intro!: chain_cong [of s "wait_next s t" ts])
  then obtain s' where s': "wake_chain (wait_next s t) ?s = Some s'" "head s' = head ?s"
    "wait_next s' = (\<lambda>u. if u \<in> set ts then None else wait_next ?s u)"
    "queue s' = (\<lambda>u. if u \<in> set ts then None else queue ?s u)"
    "state s' = wake_states ts (state ?s)" "woken s' = (\<lambda>u. u \<in> set ts \<or> woken ?s u)"
    by (rule Cons.IH [rotated]) (use Cons.prems(3) in simp)
  show ?case
  proof (rule Cons.prems(1))
    show "wake_chain p s = Some s'" using s'(1) Cons.prems(2) by (simp add: wake_chain.simps [of "Some t"])
    show "state s' = wake_states (t # ts) (state s)"
      using s'(5) by (auto simp: wake_states_def unlink_task_def fun_eq_iff)
  qed (use s' in \<open>auto simp: unlink_task_def fun_eq_iff\<close>)
qed

lemma wake_all_list:
  assumes Q: "queues_are s L"
  obtains s' where "wake_all q s = Some s'" and "queues_are s' (L(q := []))"
    and "state s' = wake_states (L q) (state s)"
    and "queue s' = (\<lambda>t. if t \<in> set (L q) then None else queue s t)"
proof -
  let ?s = "s\<lparr>head := (head s)(q := None)\<rparr>"
  have "chain ?s (head s q) (L q)"
    using queues_areD(1) [OF Q] by (rule chain_cong) simp
  then obtain s' where s': "wake_chain (head s q) ?s = Some s'" "head s' = head ?s"
    "wait_next s' = (\<lambda>t. if t \<in> set (L q) then None else wait_next ?s t)"
    "queue s' = (\<lambda>t. if t \<in> set (L q) then None else queue ?s t)"
    "state s' = wake_states (L q) (state ?s)"
    using queues_areD(2) [OF Q] by (rule wake_chain_list)
  have "queues_are s' (L(q := []))"
    unfolding queues_are_def
  proof (intro conjI allI)
    fix q'
    show "distinct ((L(q := [])) q')" using queues_areD(2) [OF Q] by simp
    have "chain s' (head s q') (L q')" if "q' \<noteq> q"
      using on_one_queue [OF Q, of _ q q'] that s'(3)
      by (intro chain_cong [OF queues_areD(1) [OF Q]]) auto
    then show "chain s' (head s' q') ((L(q := [])) q')" using s'(2) by simp
  next
    fix q' t
    show "t \<in> set ((L(q := [])) q') \<longleftrightarrow> queue s' t = Some q'"
      using queues_areD(3) [OF Q] s'(4) by auto
  qed
  then show ?thesis
    using s'(1,4,5) by (intro that) (auto simp: wake_all_def fun_eq_iff)
qed

section \<open>Tasks waiting on one queue\<close>

text \<open>What semaphores and mutexes share: exactly sleeping tasks are on the queue and they are
  blocked; a task that is off the queue although it sleeps has been woken.\<close>

definition wait_inv :: "nat \<Rightarrow> (nat \<Rightarrow> wait_pc) \<Rightarrow> tasks \<Rightarrow> (nat \<Rightarrow> nat list) \<Rightarrow> bool" where
  "wait_inv q pc s L \<longleftrightarrow> queues_are s L \<and>
     (\<forall>t \<in> set (L q). pc t = Asleep \<and> state s t = TASK_BLOCKED) \<and>
     (\<forall>t. pc t = Trying \<or> pc t = Decided \<longrightarrow> queue s t = None) \<and>
     (\<forall>t. pc t = Asleep \<longrightarrow> queue s t = None \<or> queue s t = Some q)"

definition awake :: "(nat \<Rightarrow> wait_pc) \<Rightarrow> tasks \<Rightarrow> nat set" where
  "awake pc s = {t. pc t = Trying \<or> pc t = Asleep \<and> queue s t = None}"

lemma wait_invD:
  assumes "wait_inv q pc s L"
  shows "queues_are s L" and "t \<in> set (L q) \<Longrightarrow> pc t = Asleep \<and> state s t = TASK_BLOCKED"
    and "pc t = Trying \<or> pc t = Decided \<Longrightarrow> queue s t = None"
    and "pc t = Asleep \<Longrightarrow> queue s t = None \<or> queue s t = Some q"
  using assms by (auto simp: wait_inv_def)

lemma wait_inv_pc:
  assumes "wait_inv q pc s L" and "pc t \<noteq> Asleep" and "queue s t = None" and "v \<noteq> Asleep"
  shows "wait_inv q (pc(t := v)) s L"
  using assms by (auto simp: wait_inv_def)

lemma wait_inv_sleep:
  assumes W: "wait_inv q pc s L" and t: "pc t = Decided"
  obtains s' where "sleep_on_enter q t s = Some s'"
    and "wait_inv q (pc(t := Asleep)) s' (L(q := L q @ [t]))"
    and "awake (pc(t := Asleep)) s' = awake pc s"
proof -
  have "queue s t = None" using wait_invD(3) [OF W] t by blast
  then obtain s1 where s1: "enqueue q t s = Some s1" "queues_are s1 (L(q := L q @ [t]))"
    "state s1 = state s" "queue s1 = (queue s)(t := Some q)"
    by (rule enqueue_list [OF wait_invD(1) [OF W]])
  let ?s = "s1\<lparr>state := (state s1)(t := TASK_BLOCKED)\<rparr>"
  have "chain ?s p xs = chain s1 p xs" for p xs by (induction xs arbitrary: p) auto
  then have "queues_are ?s (L(q := L q @ [t]))" using s1(2) by (simp add: queues_are_def)
  then have "wait_inv q (pc(t := Asleep)) ?s (L(q := L q @ [t]))"
    using wait_invD(2-4) [OF W] by (auto simp: wait_inv_def s1)
  moreover have "awake (pc(t := Asleep)) ?s = awake pc s"
    using t by (auto simp: awake_def s1)
  ultimately show ?thesis using that s1(1) by (simp add: sleep_on_enter_def)
qed

lemma wait_inv_resume:
  assumes W: "wait_inv q pc s L" and t: "pc t = Asleep" "state s t \<noteq> TASK_BLOCKED"
  shows "sleep_on_leave q t s = Some s" and "wait_inv q (pc(t := Trying)) s L"
    and "awake (pc(t := Trying)) s = awake pc s" and "queue s t = None"
proof -
  have "t \<notin> set (L q)" using wait_invD(2) [OF W] t by blast
  then have n: "queue s t = None"
    using wait_invD(4) [OF W t(1)] queues_areD(3) [OF wait_invD(1) [OF W]] by auto
  then show "queue s t = None" "sleep_on_leave q t s = Some s" by (simp_all add: sleep_on_leave_def)
  show "awake (pc(t := Trying)) s = awake pc s" using t n by (auto simp: awake_def)
  show "wait_inv q (pc(t := Trying)) s L"
    using W n \<open>t \<notin> set (L q)\<close> by (auto simp: wait_inv_def)
qed

lemma wait_inv_wake_one:
  assumes W: "wait_inv q pc s L"
  shows "wait_inv q pc (wake_one q s) (L(q := tl (L q)))"
    and "awake pc (wake_one q s) = awake pc s \<union> set (take 1 (L q))"
    and "set (take 1 (L q)) \<inter> awake pc s = {}"
proof -
  note Q = wait_invD(1) [OF W]
  note w = wake_one_list [OF Q, of q]
  have hd: "pc t = Asleep" "queue s t = Some q" if "t \<in> set (take 1 (L q))" for t
    using that wait_invD(2) [OF W, of t] queues_areD(3) [OF Q, of t q] by (auto dest: in_set_takeD)
  have rest: "t \<notin> set (take 1 (L q))" "t \<in> set (L q)" if "t \<in> set (tl (L q))" for t
    using that queues_areD(2) [OF Q, of q] by (cases "L q"; auto)+
  show "set (take 1 (L q)) \<inter> awake pc s = {}"
    using hd by (auto simp: awake_def)
  show "awake pc (wake_one q s) = awake pc s \<union> set (take 1 (L q))"
    using hd(1) by (auto simp: awake_def w(3))
  have "pc t = Asleep \<and> state (wake_one q s) t = TASK_BLOCKED" if "t \<in> set (tl (L q))" for t
    using rest [OF that] wait_invD(2) [OF W, of t] by (simp add: w(2) wake_states_def)
  then show "wait_inv q pc (wake_one q s) (L(q := tl (L q)))"
    using w(1) wait_invD(3,4) [OF W] by (simp add: wait_inv_def w(3))
qed

lemma wait_inv_signal:
  assumes W: "wait_inv q pc s L" and t: "pc t = Asleep" and w: "wake_signalled t s = Some s'"
  shows "wait_inv q pc s' (L(q := remove1 t (L q)))" and "awake pc s' = insert t (awake pc s)"
    and "queue s' = (queue s)(t := None)"
proof -
  note Q = wait_invD(1) [OF W]
  obtain s1 where s1: "s' = wake_task t s1" "queues_are s1 (L(q := remove1 t (L q)))" "state s1 = state s"
    "queue s1 = (queue s)(t := None)"
  proof (cases "queue s t")
    case None
    then have "t \<notin> set (L q)" using queues_areD(3) [OF Q, of t q] by auto
    then have "L(q := remove1 t (L q)) = L" by (intro fun_upd_idem) (simp add: remove1_idem)
    moreover have "(queue s)(t := None) = queue s" using None by (rule fun_upd_idem)
    moreover have "s' = wake_task t s" using None w by (simp add: wake_signalled_def)
    ultimately show ?thesis using that [of s] Q by simp
  next
    case (Some q')
    then have q: "queue s t = Some q" using wait_invD(4) [OF W t] by simp
    then obtain s1 where "dequeue q t s = Some s1" "queues_are s1 (L(q := remove1 t (L q)))" "state s1 = state s"
      "queue s1 = (queue s)(t := None)" by (rule dequeue_list [OF Q])
    then show ?thesis using that [of s1] w q by (simp add: wake_signalled_def)
  qed
  show qs: "queue s' = (queue s)(t := None)" by (simp add: s1)
  then show "awake pc s' = insert t (awake pc s)" using t by (auto simp: awake_def)
  have rest: "u \<in> set (L q) \<and> u \<noteq> t" if "u \<in> set (remove1 t (L q))" for u
    using that queues_areD(2) [OF Q, of q] by auto
  have "pc u = Asleep \<and> state s' u = TASK_BLOCKED" if "u \<in> set (remove1 t (L q))" for u
    using rest [OF that] wait_invD(2) [OF W, of u] by (simp add: s1)
  moreover have "queues_are s' (L(q := remove1 t (L q)))" by (simp add: s1)
  ultimately show "wait_inv q pc s' (L(q := remove1 t (L q)))"
    using wait_invD(3,4) [OF W] qs by (simp add: wait_inv_def)
qed

section \<open>Semaphores\<close>

definition sem_inv :: "nat \<Rightarrow> sem_sys \<Rightarrow> bool" where
  "sem_inv q c \<longleftrightarrow>
     (\<exists>L. wait_inv q (spc c) (stasks c) L \<and> finite (awake (spc c) (stasks c)) \<and>
          ((\<exists>t. spc c t = Decided) \<longrightarrow> scount c \<le> 0) \<and>
          (L q \<noteq> [] \<longrightarrow> scount c \<le> int (card (awake (spc c) (stasks c)))))"

lemma sem_invI:
  assumes "wait_inv q (spc c) (stasks c) L" and "finite (awake (spc c) (stasks c))"
    and "\<And>t. spc c t = Decided \<Longrightarrow> scount c \<le> 0"
    and "L q \<noteq> [] \<Longrightarrow> scount c \<le> int (card (awake (spc c) (stasks c)))"
  shows "sem_inv q c"
  using assms unfolding sem_inv_def by blast

lemma sem_step_inv:
  assumes "sem_step False q c c'" and "sem_inv q c"
  shows "sem_inv q c'"
proof -
  obtain L where W: "wait_inv q (spc c) (stasks c) L"
    and fin: "finite (awake (spc c) (stasks c))"
    and dec: "\<And>t. spc c t = Decided \<Longrightarrow> scount c \<le> 0"
    and cnt: "L q \<noteq> [] \<Longrightarrow> scount c \<le> int (card (awake (spc c) (stasks c)))"
    using assms(2) unfolding sem_inv_def by blast
  from assms(1) show ?thesis
  proof cases
    case (sem_call t)
    have "awake ((spc c)(t := Trying)) (stasks c) = insert t (awake (spc c) (stasks c))"
      by (auto simp: awake_def)
    moreover have "t \<notin> awake (spc c) (stasks c)" using sem_call by (simp add: awake_def)
    ultimately show ?thesis
      using sem_call W fin dec cnt
      by (intro sem_invI [where L = L]) (auto simp: wait_inv_pc split: if_splits)
  next
    case (sem_take t n)
    have "awake ((spc c)(t := Away)) (stasks c) = awake (spc c) (stasks c) - {t}"
      by (auto simp: awake_def)
    moreover have "t \<in> awake (spc c) (stasks c)" using sem_take by (simp add: awake_def)
    moreover have "n = scount c - 1" using sem_take by (auto simp: sem_trywait_def split: if_splits)
    moreover have "queue (stasks c) t = None" using wait_invD(3) [OF W] sem_take by blast
    ultimately show ?thesis
      using sem_take W fin dec cnt
      by (intro sem_invI [where L = L]) (fastforce simp: wait_inv_pc card_Diff_singleton_if split: if_splits)+
  next
    case (sem_refuse t n)
    have "awake ((spc c)(t := Decided)) (stasks c) = awake (spc c) (stasks c) - {t}"
      using sem_refuse by (auto simp: awake_def)
    moreover have "n = scount c" "n \<le> 0"
      using sem_refuse by (auto simp: sem_trywait_def split: if_splits)
    moreover have "queue (stasks c) t = None" using wait_invD(3) [OF W] sem_refuse by blast
    ultimately show ?thesis
      using sem_refuse W fin by (intro sem_invI [where L = L]) (auto simp: wait_inv_pc)
  next
    case (sem_sleep t s)
    then show ?thesis
      using wait_inv_sleep [OF W sem_sleep(2)] fin dec
      by (intro sem_invI [where L = "L(q := L q @ [t])"]) force+
  next
    case (sem_resume t s)
    note r = wait_inv_resume [OF W sem_resume(2,3)]
    show ?thesis
      using sem_resume r fin dec cnt by (intro sem_invI [where L = L]) (auto split: if_splits)
  next
    case (sem_signal t s)
    note w = wait_inv_signal [OF W sem_signal(2,3)]
    have more: "card (awake (spc c) (stasks c)) \<le> card (awake (spc c) s)"
      unfolding w(2) using fin by (simp add: card_insert_if)
    show ?thesis
    proof (intro sem_invI [where L = "L(q := remove1 t (L q))"])
      show "wait_inv q (spc c') (stasks c') (L(q := remove1 t (L q)))" "finite (awake (spc c') (stasks c'))"
        using w(1,2) fin sem_signal(1) by simp_all
      show "scount c' \<le> 0" if "spc c' u = Decided" for u using dec [of u] that sem_signal(1) by simp
      show "scount c' \<le> int (card (awake (spc c') (stasks c')))" if "(L(q := remove1 t (L q))) q \<noteq> []"
        using cnt more that sem_signal(1) by fastforce
    qed
  next
    case (sem_give n s)
    then have eq: "n = scount c + 1" "s = wake_one q (stasks c)" by (auto simp: sem_post_def)
    note w = wait_inv_wake_one [OF W]
    have "int (card (awake (spc c) s)) = int (card (awake (spc c) (stasks c))) + 1" if "L q \<noteq> []"
      using that w(2,3) fin unfolding eq
      by (cases "L q") (simp_all add: card_insert_if)
    then show ?thesis
      using sem_give eq w(1,2) fin cnt
      by (intro sem_invI [where L = "L(q := tl (L q))"]; cases "L q = []") (auto simp: eq(2))
  qed
qed

section \<open>Mutexes\<close>

definition mutex_inv :: "nat \<Rightarrow> mutex_sys \<Rightarrow> bool" where
  "mutex_inv q c \<longleftrightarrow>
     (\<exists>L. wait_inv q (mpc c) (mtasks c) L \<and>
          (locked (mtx c) \<longrightarrow> owner (mtx c) \<noteq> None) \<and>
          (\<forall>t. mpc c t = Holding \<longleftrightarrow> locked (mtx c) \<and> owner (mtx c) = Some t) \<and>
          (\<forall>t. mpc c t = Holding \<longrightarrow> queue (mtasks c) t = None) \<and>
          ((\<exists>t. mpc c t = Decided) \<longrightarrow> locked (mtx c)) \<and>
          (L q \<noteq> [] \<longrightarrow> locked (mtx c) \<or> awake (mpc c) (mtasks c) \<noteq> {}))"

lemma mutex_invI:
  assumes "wait_inv q (mpc c) (mtasks c) L"
    and "locked (mtx c) \<longrightarrow> owner (mtx c) \<noteq> None"
    and "\<And>t. mpc c t = Holding \<longleftrightarrow> locked (mtx c) \<and> owner (mtx c) = Some t"
    and "\<And>t. mpc c t = Holding \<Longrightarrow> queue (mtasks c) t = None"
    and "\<And>t. mpc c t = Decided \<Longrightarrow> locked (mtx c)"
    and "L q \<noteq> [] \<Longrightarrow> \<not> locked (mtx c) \<Longrightarrow> awake (mpc c) (mtasks c) \<noteq> {}"
  shows "mutex_inv q c"
  using assms unfolding mutex_inv_def by blast

lemma mutex_step_inv:
  assumes "mutex_step q c c'" and "mutex_inv q c"
  shows "mutex_inv q c'"
proof -
  obtain L where W: "wait_inv q (mpc c) (mtasks c) L"
    and lk: "locked (mtx c) \<longrightarrow> owner (mtx c) \<noteq> None"
    and hold: "\<And>t. mpc c t = Holding \<longleftrightarrow> locked (mtx c) \<and> owner (mtx c) = Some t"
    and off: "\<And>t. mpc c t = Holding \<Longrightarrow> queue (mtasks c) t = None"
    and dec: "\<And>t. mpc c t = Decided \<Longrightarrow> locked (mtx c)"
    and aw: "L q \<noteq> [] \<Longrightarrow> \<not> locked (mtx c) \<Longrightarrow> awake (mpc c) (mtasks c) \<noteq> {}"
    using assms(2) unfolding mutex_inv_def by blast
  from assms(1) show ?thesis
  proof cases
    case (mutex_call t)
    then have "\<not> (locked (mtx c) \<and> owner (mtx c) = Some t)" using hold [of t] by simp
    with mutex_call show ?thesis
      using W lk hold off dec aw
      by (intro mutex_invI [where L = L])
        (auto simp: wait_inv_pc awake_def split: if_splits)
  next
    case (mutex_acquire t m)
    have free: "\<not> locked (mtx c)" "locked m" "owner m = Some t"
      using mutex_acquire by (auto simp: mutex_lock_pass_def split: if_splits)
    moreover have "queue (mtasks c) t = None" using wait_invD(3) [OF W] mutex_acquire by blast
    ultimately show ?thesis
      using mutex_acquire W lk hold off dec
      by (intro mutex_invI [where L = L]) (auto simp: wait_inv_pc split: if_splits)
  next
    case (mutex_refuse t)
    have "locked (mtx c)" "owner (mtx c) \<noteq> Some t"
      using mutex_refuse by (auto simp: mutex_lock_pass_def split: if_splits)
    moreover have "queue (mtasks c) t = None" using wait_invD(3) [OF W] mutex_refuse by blast
    ultimately show ?thesis
      using mutex_refuse W lk hold off
      by (intro mutex_invI [where L = L]) (auto simp: wait_inv_pc split: if_splits)
  next
    case (mutex_sleep t s)
    obtain s' where s': "sleep_on_enter q t (mtasks c) = Some s'"
      "wait_inv q ((mpc c)(t := Asleep)) s' (L(q := L q @ [t]))"
      by (rule wait_inv_sleep [OF W mutex_sleep(2)])
    have "queue s u = None" if "mpc c u = Holding" for u
    proof -
      have "u \<notin> set ((L(q := L q @ [t])) q')" for q'
        using off [OF that] queues_areD(3) [OF wait_invD(1) [OF W], of u] that mutex_sleep(2)
        by (auto split: if_splits)
      then show ?thesis
        using queues_areD(3) [OF wait_invD(1) [OF s'(2)], of u] s'(1) mutex_sleep(3)
        by (cases "queue s u") auto
    qed
    moreover have "\<not> (locked (mtx c) \<and> owner (mtx c) = Some t)"
      using hold [of t] mutex_sleep(2) by simp
    ultimately show ?thesis
      using mutex_sleep s' lk hold dec
      by (intro mutex_invI [where L = "L(q := L q @ [t])"]) (auto split: if_splits)
  next
    case (mutex_resume t s)
    note r = wait_inv_resume [OF W mutex_resume(2,3)]
    have "\<not> (locked (mtx c) \<and> owner (mtx c) = Some t)"
      using hold [of t] mutex_resume(2) by simp
    then show ?thesis
      using mutex_resume r lk hold off dec aw
      by (intro mutex_invI [where L = L]) (auto split: if_splits)
  next
    case (mutex_signal t s)
    note w = wait_inv_signal [OF W mutex_signal(2,3)]
    show ?thesis
    proof (intro mutex_invI [where L = "L(q := remove1 t (L q))"])
      show "wait_inv q (mpc c') (mtasks c') (L(q := remove1 t (L q)))" using w(1) mutex_signal(1) by simp
      show "locked (mtx c') \<longrightarrow> owner (mtx c') \<noteq> None" using lk mutex_signal(1) by simp
      show "mpc c' u = Holding \<longleftrightarrow> locked (mtx c') \<and> owner (mtx c') = Some u" for u using hold [of u] mutex_signal(1) by simp
      show "queue (mtasks c') u = None" if "mpc c' u = Holding" for u using off [of u] that w(3) mutex_signal(1) by simp
      show "locked (mtx c')" if "mpc c' u = Decided" for u using dec [of u] that mutex_signal(1) by simp
      show "awake (mpc c') (mtasks c') \<noteq> {}" using w(2) mutex_signal(1) by simp
    qed
  next
    case (mutex_try t m)
    have free: "\<not> locked (mtx c)" "locked m" "owner m = Some t"
      using mutex_try by (auto simp: mutex_trylock_def split: if_splits)
    then show ?thesis
      using mutex_try W lk hold off dec
      by (intro mutex_invI [where L = L]) (auto simp: wait_inv_pc split: if_splits)
  next
    case (mutex_release t m s)
    then have eq: "\<not> locked m" "s = wake_one q (mtasks c)" by (auto simp: mutex_unlock_def)
    note w = wait_inv_wake_one [OF W]
    have t: "queue (mtasks c) t = None" using off mutex_release(2) by blast
    then have "queue s t = None"
      using wake_one_list(3) [OF wait_invD(1) [OF W], of q] by (simp add: eq(2))
    then have "wait_inv q ((mpc c)(t := Away)) s (L(q := tl (L q)))"
      using w(1) mutex_release(2) unfolding eq(2) by (intro wait_inv_pc) auto
    moreover have "awake ((mpc c)(t := Away)) s = awake (mpc c) s"
      using mutex_release(2) by (auto simp: awake_def)
    moreover have "awake (mpc c) s \<noteq> {}" if "tl (L q) \<noteq> []"
      using that w(2) unfolding eq(2) by (cases "L q") auto
    moreover have "mpc c u = Holding \<longleftrightarrow> u = t" for u
      using hold [of u] hold [of t] mutex_release(2) by auto
    ultimately show ?thesis
      using mutex_release eq(1)
      by (intro mutex_invI [where L = "L(q := tl (L q))"]) (auto split: if_splits)
  qed
qed

section \<open>Properties\<close>

text \<open>Every task ready, no task on any queue.\<close>

definition no_waiters :: tasks where
  "no_waiters = \<lparr>head = \<lambda>_. None, wait_next = \<lambda>_. None, queue = \<lambda>_. None,
     state = \<lambda>_. TASK_READY, woken = \<lambda>_. False, wake_at = \<lambda>_. 0\<rparr>"

lemma no_waiters_queues: "queues_are no_waiters (\<lambda>_. [])"
  by (simp add: queues_are_def no_waiters_def)

definition sem_start :: "int \<Rightarrow> sem_sys" where
  "sem_start n = \<lparr>scount = n, stasks = no_waiters, spc = \<lambda>_. Away\<rparr>"

lemma sem_start_inv: "sem_inv q (sem_start n)"
  by (rule sem_invI [where L = "\<lambda>_. []"])
    (simp_all add: wait_inv_def no_waiters_queues awake_def sem_start_def)

definition mutex_start :: mutex_sys where
  "mutex_start = \<lparr>mtx = \<lparr>locked = False, owner = None\<rparr>, mtasks = no_waiters, mpc = \<lambda>_. Away\<rparr>"

lemma mutex_start_inv: "mutex_inv q mutex_start"
  by (rule mutex_invI [where L = "\<lambda>_. []"])
    (simp_all add: wait_inv_def no_waiters_queues awake_def mutex_start_def)

text \<open>C9: the linked queues are first come, first served.  From a state whose chains are the
  lists \<open>L\<close>, putting a task to sleep appends it to its list, \<open>wake_one\<close> takes the task that has
  waited longest and makes it ready, \<open>wake_all\<close> empties the list and makes every task of it
  ready, and taking a signalled task off its queue leaves the others in order; no walk runs
  off the end or fails to end, and no other queue changes.\<close>

theorem wait_queue_refines_fifo:
  assumes "queues_are s L"
  shows "(queue s t = None \<longrightarrow>
      (\<exists>s'. sleep_on_enter q t s = Some s' \<and> queues_are s' (L(q := L q @ [t])) \<and>
            state s' = (state s)(t := TASK_BLOCKED))) \<and>
    (queues_are (wake_one q s) (L(q := tl (L q))) \<and>
       state (wake_one q s) = wake_states (take 1 (L q)) (state s)) \<and>
    (\<exists>s'. wake_all q s = Some s' \<and> queues_are s' (L(q := [])) \<and>
          state s' = wake_states (L q) (state s)) \<and>
    (queue s t = Some q \<longrightarrow>
      (\<exists>s'. wake_signalled t s = Some s' \<and> queues_are s' (L(q := remove1 t (L q)))))"
proof (intro conjI impI)
  assume "queue s t = None"
  then obtain s1 where s1: "enqueue q t s = Some s1" "queues_are s1 (L(q := L q @ [t]))"
    "state s1 = state s" by (rule enqueue_list [OF assms])
  let ?s = "s1\<lparr>state := (state s1)(t := TASK_BLOCKED)\<rparr>"
  have "chain ?s p xs = chain s1 p xs" for p xs by (induction xs arbitrary: p) auto
  then have "queues_are ?s (L(q := L q @ [t]))" using s1(2) by (simp add: queues_are_def)
  then show "\<exists>s'. sleep_on_enter q t s = Some s' \<and> queues_are s' (L(q := L q @ [t])) \<and>
      state s' = (state s)(t := TASK_BLOCKED)"
    using s1 by (simp add: sleep_on_enter_def)
next
  show "\<exists>s'. wake_all q s = Some s' \<and> queues_are s' (L(q := [])) \<and>
      state s' = wake_states (L q) (state s)"
    by (rule wake_all_list [OF assms, of q]) blast
next
  assume "queue s t = Some q"
  then obtain s' where "dequeue q t s = Some s'" "queues_are s' (L(q := remove1 t (L q)))"
    by (rule dequeue_list [OF assms])
  with \<open>queue s t = Some q\<close>
  show "\<exists>s'. wake_signalled t s = Some s' \<and> queues_are s' (L(q := remove1 t (L q)))"
    by (simp add: wake_signalled_def)
qed (use wake_one_list [OF assms] in simp_all)

theorem wait_queue_refines_fifo_witness:
  "queues_are no_waiters (\<lambda>_. []) \<and>
   (\<exists>s'. sleep_on_enter 4 7 no_waiters = Some s' \<and> queues_are s' ((\<lambda>_. [])(4 := [7])))"
  using wait_queue_refines_fifo [OF no_waiters_queues, of 7 4] no_waiters_queues
  by (simp add: no_waiters_def) blast

text \<open>C15: a semaphore posted by tasks loses no wakeup.  In every state reachable from an idle
  semaphore, while some task is blocked on it, at least as many tasks as there are permits are
  on their way to take one.\<close>

theorem sem_no_lost_wakeup:
  assumes "(sem_step False q)\<^sup>*\<^sup>* (sem_start n) c" and "queue (stasks c) t = Some q"
  shows "scount c \<le> int (card (awake (spc c) (stasks c))) \<and> finite (awake (spc c) (stasks c))"
proof -
  have "sem_inv q c"
    using assms(1) by (induction rule: rtranclp_induct) (auto intro: sem_start_inv sem_step_inv)
  then obtain L where "wait_inv q (spc c) (stasks c) L" "finite (awake (spc c) (stasks c))"
    "L q \<noteq> [] \<longrightarrow> scount c \<le> int (card (awake (spc c) (stasks c)))"
    unfolding sem_inv_def by blast
  then show ?thesis
    using queues_areD(3) [OF wait_invD(1), of q _ _ L t q] assms(2) by (cases "L q") auto
qed

text \<open>Task 1 asleep on queue 0, alone.\<close>

definition one_waiter :: tasks where
  "one_waiter = no_waiters\<lparr>head := (head no_waiters)(0 := Some 1),
     wait_next := (wait_next no_waiters)(1 := None), queue := (queue no_waiters)(1 := Some 0),
     state := (state no_waiters)(1 := TASK_BLOCKED)\<rparr>"

lemma sleep_on_no_waiters: "sleep_on_enter 0 1 no_waiters = Some one_waiter"
  by (simp add: sleep_on_enter_def enqueue_def enqueue_from.simps [of "Head 0"] one_waiter_def
      no_waiters_def)

lemma wake_one_no_waiters: "wake_one q no_waiters = no_waiters"
  by (simp add: wake_one_def no_waiters_def)

lemma sem_decide:
  "(sem_step intr 0)\<^sup>*\<^sup>* (sem_start 0) ((sem_start 0)\<lparr>spc := (\<lambda>_. Away)(1 := Decided)\<rparr>)"
proof -
  let ?c1 = "(sem_start 0)\<lparr>spc := (\<lambda>_. Away)(1 := Trying)\<rparr>"
  have "sem_step intr 0 (sem_start 0) ?c1"
    using sem_call [of "sem_start 0" 1] by (simp add: sem_start_def no_waiters_def)
  moreover have "sem_step intr 0 ?c1 ((sem_start 0)\<lparr>spc := (\<lambda>_. Away)(1 := Decided)\<rparr>)"
    using sem_refuse [of ?c1 1 0] by (simp add: sem_start_def sem_trywait_def)
  ultimately show ?thesis by (meson converse_rtranclp_into_rtranclp rtranclp.rtrancl_refl)
qed

theorem sem_no_lost_wakeup_witness:
  "\<exists>c. (sem_step False 0)\<^sup>*\<^sup>* (sem_start 0) c \<and> queue (stasks c) 1 = Some 0 \<and>
       scount c \<le> int (card (awake (spc c) (stasks c)))"
proof -
  let ?c1 = "(sem_start 0)\<lparr>spc := (\<lambda>_. Away)(1 := Decided)\<rparr>"
  let ?c2 = "?c1\<lparr>stasks := one_waiter, spc := (spc ?c1)(1 := Asleep)\<rparr>"
  have "sem_step False 0 ?c1 ?c2"
    using sleep_on_no_waiters by (intro sem_sleep) (simp_all add: sem_start_def)
  then have "(sem_step False 0)\<^sup>*\<^sup>* (sem_start 0) ?c2"
    using sem_decide by (rule rtranclp.rtrancl_into_rtrancl [rotated])
  moreover have "queue (stasks ?c2) 1 = Some 0" by (simp add: one_waiter_def)
  ultimately show ?thesis using sem_no_lost_wakeup by blast
qed

text \<open>C32: a semaphore posted by an interrupt handler can lose a wakeup.  \<^verbatim>\<open>sem_wait\<close> unmasks
  interrupts between its failed test and \<open>sleep_on\<close>; a post in that window finds the queue empty,
  and the task then sleeps although a permit is there and nobody is left to wake it.\<close>

theorem sem_post_from_interrupt_lost:
  "\<exists>c. (sem_step True 0)\<^sup>*\<^sup>* (sem_start 0) c \<and> scount c = 1 \<and> spc c 1 = Asleep \<and>
       queue (stasks c) 1 = Some 0 \<and> state (stasks c) 1 = TASK_BLOCKED \<and>
       awake (spc c) (stasks c) = {}"
proof -
  let ?c1 = "(sem_start 0)\<lparr>spc := (\<lambda>_. Away)(1 := Decided)\<rparr>"
  let ?c2 = "?c1\<lparr>scount := 1, stasks := no_waiters\<rparr>"
  let ?c3 = "?c2\<lparr>stasks := one_waiter, spc := (spc ?c2)(1 := Asleep)\<rparr>"
  have "sem_step True 0 ?c1 ?c2"
    by (rule sem_give) (simp_all add: sem_post_def sem_start_def wake_one_no_waiters)
  moreover have "sem_step True 0 ?c2 ?c3"
    using sleep_on_no_waiters by (intro sem_sleep) simp_all
  ultimately have "(sem_step True 0)\<^sup>*\<^sup>* (sem_start 0) ?c3"
    using sem_decide by (meson rtranclp.rtrancl_into_rtrancl)
  moreover have "awake (spc ?c3) (stasks ?c3) = {}"
    by (auto simp: awake_def one_waiter_def)
  ultimately show ?thesis by (intro exI [of _ ?c3]) (simp add: one_waiter_def)
qed

text \<open>C10: mutual exclusion.  In every state reachable from an unlocked mutex at most one task
  holds it, it is locked with that task as its owner exactly while one does, and while a task
  is blocked on an unlocked mutex some other task is awake to take it.\<close>

theorem mutex_exclusion:
  assumes "(mutex_step q)\<^sup>*\<^sup>* mutex_start c"
  shows "(mpc c t = Holding \<longleftrightarrow> locked (mtx c) \<and> owner (mtx c) = Some t) \<and>
    (mpc c t = Holding \<and> mpc c u = Holding \<longrightarrow> t = u) \<and>
    (queue (mtasks c) t = Some q \<and> \<not> locked (mtx c) \<longrightarrow> awake (mpc c) (mtasks c) \<noteq> {})"
proof -
  have "mutex_inv q c"
    using assms by (induction rule: rtranclp_induct) (auto intro: mutex_start_inv mutex_step_inv)
  then obtain L where W: "wait_inv q (mpc c) (mtasks c) L"
    and hold: "\<And>t. mpc c t = Holding \<longleftrightarrow> locked (mtx c) \<and> owner (mtx c) = Some t"
    and aw: "L q \<noteq> [] \<longrightarrow> locked (mtx c) \<or> awake (mpc c) (mtasks c) \<noteq> {}"
    unfolding mutex_inv_def by blast
  have "L q \<noteq> []" if "queue (mtasks c) t = Some q"
    using that queues_areD(3) [OF wait_invD(1) [OF W], of t q] by auto
  then show ?thesis using hold [of t] hold [of u] aw by auto
qed

theorem mutex_exclusion_witness:
  "\<exists>c. (mutex_step 0)\<^sup>*\<^sup>* mutex_start c \<and> mpc c 1 = Holding \<and> owner (mtx c) = Some 1 \<and>
       mpc c 2 \<noteq> Holding"
proof -
  let ?c = "mutex_start\<lparr>mtx := \<lparr>locked = True, owner = Some 1\<rparr>, mpc := (mpc mutex_start)(1 := Holding)\<rparr>"
  have "mutex_step 0 mutex_start ?c"
    by (rule mutex_try)
      (simp_all add: mutex_start_def no_waiters_def mutex_trylock_def)
  then have "(mutex_step 0)\<^sup>*\<^sup>* mutex_start ?c" by (rule r_into_rtranclp)
  from this mutex_exclusion [OF this, of 1 2] show ?thesis by (intro exI [of _ ?c]) auto
qed

end
