(* ===== verification/Fifo.thy ===== *)
theory Fifo
  imports Kprelude
begin

text \<open>
  The contract of a bounded first-in first-out buffer, as the components that hold bytes for
  someone else rely on it: what is pushed comes out once, in order.  \<open>items\<close> is the abstraction,
  \<open>push\<close> may only be asked for what there is room for, and \<open>pull\<close> for what is held.
\<close>

datatype 'a fifo_op = Push "'a list" | Pull nat

locale fifo_buffer =
  fixes ok :: "'q \<Rightarrow> bool"
    and items :: "'q \<Rightarrow> 'a list"
    and room :: "'q \<Rightarrow> nat"
    and push :: "'a list \<Rightarrow> 'q \<Rightarrow> 'q"
    and pull :: "nat \<Rightarrow> 'q \<Rightarrow> 'a list \<times> 'q"
  assumes push_law: "ok q \<Longrightarrow> length xs \<le> room q \<Longrightarrow>
        ok (push xs q) \<and> items (push xs q) = items q @ xs"
    and pull_law: "ok q \<Longrightarrow> n \<le> length (items q) \<Longrightarrow> pull n q = (xs, q') \<Longrightarrow>
        ok q' \<and> xs = take n (items q) \<and> items q' = drop n (items q)"
begin

text \<open>A client's operations in sequence: a push that does not fit is refused, a pull takes what
  there is.  The result is what was accepted, what was delivered, and the buffer.\<close>

fun run :: "'a fifo_op list \<Rightarrow> 'q \<Rightarrow> 'a list \<times> 'a list \<times> 'q" where
  "run [] q = ([], [], q)"
| "run (Push xs # ops) q =
     (if length xs \<le> room q
      then case run ops (push xs q) of (sent, got, q') \<Rightarrow> (xs @ sent, got, q')
      else run ops q)"
| "run (Pull n # ops) q =
     (case pull (min n (length (items q))) q of
        (xs, q1) \<Rightarrow> case run ops q1 of (sent, got, q') \<Rightarrow> (sent, xs @ got, q'))"

lemma run_in_order:
  assumes "ok q" and "run ops q = (sent, got, q')"
  shows "ok q' \<and> got @ items q' = items q @ sent"
  using assms
proof (induction ops q arbitrary: sent got q' rule: run.induct)
  case (1 q)
  then show ?case by simp
next
  case (2 xs ops q)
  then show ?case
    using push_law [OF 2(3), of xs] by (auto split: if_splits prod.splits)
next
  case (3 n ops q)
  obtain xs q1 where p: "pull (min n (length (items q))) q = (xs, q1)" by fastforce
  obtain s g q2 where r: "run ops q1 = (s, g, q2)" by (metis prod_cases3)
  have law: "ok q1 \<and> xs = take (min n (length (items q))) (items q) \<and>
      items q1 = drop (min n (length (items q))) (items q)"
    using pull_law [OF 3(2) _ p] by simp
  then have "ok q2 \<and> g @ items q2 = items q1 @ s" using 3(1) [OF p [symmetric]] r by blast
  moreover have "sent = s" "got = xs @ g" "q' = q2" using 3(3) p r by auto
  ultimately show ?case using law by (metis append.assoc append_take_drop_id)
qed

end

end
