(* ===== verification/Pipe.thy ===== *)
theory Pipe
  imports Pmm Waitq Fifo
begin

text \<open>
  \<^verbatim>\<open>kernel/pipe.c\<close>: pipes, named FIFOs and socket pairs, all made of one ring of
  \<^verbatim>\<open>PIPE_SIZE\<close> bytes with counted ends.  A ring's page comes from the page allocator and the
  bytes in it are \<open>p_data\<close>; a pointer to a ring or to a socket end is its index in the table.

  The kernel does not preempt a task inside a system call, so a call runs undisturbed until it
  returns or sleeps.  \<open>ring_read\<close> is one turn of the read loop and ends with the call's result
  or with the task asleep on \<open>p_rq\<close>; \<open>ring_write\<close> runs turns of the write loop until the
  result is known or the task is asleep on \<open>p_wq\<close> with part of the data written.  Whether a
  signal is pending, and what \<^verbatim>\<open>fd_install\<close> answers, are arguments.
\<close>

section \<open>Definitions\<close>

definition PIPE_MAX :: nat where "PIPE_MAX = 128"
definition PIPE_SIZE :: u32 where "PIPE_SIZE = 4096"
definition PIPE_BUF :: nat where "PIPE_BUF = 4096"
definition RW_NONBLOCK :: u32 where [kdefs]: "RW_NONBLOCK = 1"
definition RW_PEEK :: u32 where [kdefs]: "RW_PEEK = 2"
definition RW_NOSIGNAL :: u32 where [kdefs]: "RW_NOSIGNAL = 4"
definition SIGPIPE :: int where "SIGPIPE = 13"

record pipe =
  p_used :: bool
  p_buf :: u32
  p_data :: "u8 list"
  p_head :: u32
  p_count :: u32
  p_readers :: int
  p_writers :: int
  p_rq :: "nat list"
  p_wq :: "nat list"
  p_fifo_fs :: u32
  p_fifo_ino :: u32
  p_fifo_dev :: u32
  p_r_opens :: u32
  p_w_opens :: u32

definition wake_everyone :: "pipe \<Rightarrow> env \<Rightarrow> pipe \<times> env" where
  "wake_everyone p e =
     (p\<lparr>p_rq := [], p_wq := []\<rparr>, poll_wake (wake_list (p_wq p) (wake_list (p_rq p) e)))"

text \<open>The two copying loops: \<open>n\<close> bytes out from \<open>at\<close>, and a list of bytes in.\<close>

fun ring_out :: "u8 list \<Rightarrow> u32 \<Rightarrow> nat \<Rightarrow> u8 list \<times> u32" where
  "ring_out d at 0 = ([], at)"
| "ring_out d at (Suc n) =
     (case ring_out d ((at + 1) mod PIPE_SIZE) n of (out, at') \<Rightarrow> (d ! unat at # out, at'))"

fun ring_in :: "u8 list \<Rightarrow> pipe \<Rightarrow> pipe" where
  "ring_in [] p = p"
| "ring_in (b # bs) p =
     ring_in bs (p\<lparr>p_data := (p_data p)[unat ((p_head p + p_count p) mod PIPE_SIZE) := b],
                   p_count := p_count p + 1\<rparr>)"

definition ring_take :: "nat \<Rightarrow> pipe \<Rightarrow> u8 list \<times> pipe" where
  "ring_take n p =
     (case ring_out (p_data p) (p_head p) n of
        (out, at) \<Rightarrow> (out, p\<lparr>p_head := at, p_count := p_count p - of_nat n\<rparr>))"

datatype 'a outcome = Ret 'a | Block

definition ring_read ::
    "u32 \<Rightarrow> u32 \<Rightarrow> bool \<Rightarrow> nat \<Rightarrow> pipe \<Rightarrow> env \<Rightarrow> (errno + u8 list) outcome \<times> pipe \<times> env" where
  "ring_read len how sig c p e =
     (if len = 0 then (Ret (Inr []), p, e)
      else if 0 < p_count p then
        let n = min (unat len) (unat (p_count p))
        in if has how RW_PEEK then (Ret (Inr (fst (ring_out (p_data p) (p_head p) n))), p, e)
           else
             let (out, p1) = ring_take n p;
                 (p2, e2) = wake_everyone p1 e
             in (Ret (Inr out), p2, e2)
      else if p_writers p = 0 then (Ret (Inr []), p, e)
      else if has how RW_NONBLOCK then (Ret (Inl EAGAIN), p, e)
      else if sig then (Ret (Inl EINTR), p, e)
      else (Block, p\<lparr>p_rq := p_rq p @ [c]\<rparr>, e))"

text \<open>One turn of \<^verbatim>\<open>while (done < len)\<close>: the call's result, more to write, or asleep.\<close>

datatype wturn = WRet "errno + nat" | WMore nat | WBlock

definition ring_write_turn ::
    "u8 list \<Rightarrow> u32 \<Rightarrow> bool \<Rightarrow> nat \<Rightarrow> nat \<Rightarrow> pipe \<Rightarrow> env \<Rightarrow> wturn \<times> pipe \<times> env" where
  "ring_write_turn bs how sig c done p e =
     (let len = length bs
      in if \<not> done < len then (WRet (Inr done), p, e)
         else if p_readers p = 0 then
           (WRet (if 0 < done then Inr done else Inl EPIPE), p,
            if has how RW_NOSIGNAL then e else signal_send c SIGPIPE e)
         else
           let room = unat (PIPE_SIZE - p_count p);
               want = len - done
           in if (if len \<le> PIPE_BUF then room < want else room = 0) then
                if has how RW_NONBLOCK then
                  (WRet (if 0 < done then Inr done else Inl EAGAIN), p, e)
                else if sig then (WRet (if 0 < done then Inr done else Inl EINTR), p, e)
                else (WBlock, p\<lparr>p_wq := p_wq p @ [c]\<rparr>, e)
              else
                let want = (if room < want then room else want);
                    p1 = ring_in (take want (drop done bs)) p;
                    (p2, e2) = wake_everyone p1 e
                in (WMore (done + want), p2, e2))"

lemma ring_write_turn_more:
  "ring_write_turn bs how sig c done p e = (WMore d, p', e') \<Longrightarrow> done < d \<and> d \<le> length bs"
  by (auto simp: ring_write_turn_def Let_def PIPE_BUF_def split: if_splits prod.splits)

datatype wout = WDone "errno + nat" | WAsleep nat

function ring_write ::
    "u8 list \<Rightarrow> u32 \<Rightarrow> bool \<Rightarrow> nat \<Rightarrow> nat \<Rightarrow> pipe \<Rightarrow> env \<Rightarrow> wout \<times> pipe \<times> env" where
  "ring_write bs how sig c done p e =
     (case ring_write_turn bs how sig c done p e of
        (WRet r, p', e') \<Rightarrow> (WDone r, p', e')
      | (WBlock, p', e') \<Rightarrow> (WAsleep done, p', e')
      | (WMore d, p', e') \<Rightarrow> ring_write bs how sig c d p' e')"
  by pat_completeness auto
termination
proof (relation "measure (\<lambda>(bs, how, sig, c, done, p, e). length bs - done)")
qed (auto dest!: ring_write_turn_more [OF sym])

text \<open>An open end: its flags and its ring.\<close>

record pfile =
  f_flags :: u32
  f_priv :: nat

record uend =
  u_used :: bool
  u_rx :: nat
  u_tx :: nat
  shut_rd :: bool
  shut_wr :: bool

record pstate =
  pipes :: "pipe list"
  uends :: "uend list"
  fifo_wait :: "nat list"
  pool :: pmm
  penv :: env

definition nonblock_how :: "u32 \<Rightarrow> u32" where
  "nonblock_how flags = (if has flags O_NONBLOCK then RW_NONBLOCK else 0)"

definition put_pipe :: "nat \<Rightarrow> 'a \<times> pipe \<times> env \<Rightarrow> pstate \<Rightarrow> 'a \<times> pstate" where
  "put_pipe i r s = (case r of (x, p, e) \<Rightarrow> (x, s\<lparr>pipes := (pipes s)[i := p], penv := e\<rparr>))"

definition pipe_read :: "pfile \<Rightarrow> u32 \<Rightarrow> bool \<Rightarrow> nat \<Rightarrow> pstate \<Rightarrow> (errno + u8 list) outcome \<times> pstate" where
  "pipe_read f len sig c s =
     put_pipe (f_priv f)
       (ring_read len (nonblock_how (f_flags f)) sig c (pipes s ! f_priv f) (penv s)) s"

definition pipe_write :: "pfile \<Rightarrow> u8 list \<Rightarrow> bool \<Rightarrow> nat \<Rightarrow> nat \<Rightarrow> pstate \<Rightarrow> wout \<times> pstate" where
  "pipe_write f bs sig c done s =
     put_pipe (f_priv f)
       (ring_write bs (nonblock_how (f_flags f)) sig c done (pipes s ! f_priv f) (penv s)) s"

definition zero_pipe :: pipe where
  "zero_pipe = \<lparr>p_used = False, p_buf = 0, p_data = [], p_head = 0, p_count = 0,
     p_readers = 0, p_writers = 0, p_rq = [], p_wq = [], p_fifo_fs = 0, p_fifo_ino = 0,
     p_fifo_dev = 0, p_r_opens = 0, p_w_opens = 0\<rparr>"

text \<open>The page \<open>pmm_alloc\<close> returns is zeroed (\<open>Pmm.pmm_alloc_correct\<close>).\<close>

definition ring_alloc :: "pstate \<Rightarrow> nat option \<times> pstate" where
  "ring_alloc s =
     (case first_idx (\<lambda>p. \<not> p_used p) (pipes s) of
        None \<Rightarrow> (None, s)
      | Some i \<Rightarrow>
          case pmm_alloc (pool s) of
            (pa, pool') \<Rightarrow>
              if pa = 0 then (None, s\<lparr>pipes := (pipes s)[i := zero_pipe], pool := pool'\<rparr>)
              else (Some i, s\<lparr>pipes := (pipes s)[i := zero_pipe\<lparr>p_buf := pa,
                        p_data := replicate 4096 0, p_used := True, p_readers := 1,
                        p_writers := 1\<rparr>], pool := pool'\<rparr>))"

definition ring_free :: "nat \<Rightarrow> pstate \<Rightarrow> pstate" where
  "ring_free i s =
     s\<lparr>pool := pmm_free (p_buf (pipes s ! i)) (pool s),
       pipes := (pipes s)[i := (pipes s ! i)\<lparr>p_used := False\<rparr>]\<rparr>"

definition ring_put :: "nat \<Rightarrow> bool \<Rightarrow> pstate \<Rightarrow> pstate" where
  "ring_put i reader s =
     (let p = pipes s ! i;
          p1 = (if reader then p\<lparr>p_readers := p_readers p - 1\<rparr> else p\<lparr>p_writers := p_writers p - 1\<rparr>);
          (p2, e2) = wake_everyone p1 (penv s);
          s1 = s\<lparr>pipes := (pipes s)[i := p2], penv := e2\<rparr>
      in if p_readers p2 = 0 \<and> p_writers p2 = 0 then ring_free i s1 else s1)"

definition pipe_close :: "pfile \<Rightarrow> pstate \<Rightarrow> pstate" where
  "pipe_close f s = ring_put (f_priv f) (f_flags f AND O_ACCMODE \<noteq> O_WRONLY) s"

record kstat =
  st_mode :: u32
  st_size :: u32
  st_ino :: u32
  st_dev :: u32

definition S_IFIFO :: u32 where "S_IFIFO = 0x1000"
definition ST_DEV_PIPEFS :: u32 where "ST_DEV_PIPEFS = 12"

definition pipe_fstat :: "pfile \<Rightarrow> pstate \<Rightarrow> kstat" where
  "pipe_fstat f s =
     (let p = pipes s ! f_priv f
      in \<lparr>st_mode = S_IFIFO, st_size = p_count p,
          st_ino = (if p_fifo_ino p \<noteq> 0 then p_fifo_ino p
                    else 0x40000000 OR of_nat (f_priv f + 1)),
          st_dev = (if p_fifo_ino p = 0 then ST_DEV_PIPEFS else p_fifo_dev p)\<rparr>)"

definition FIONREAD :: u32 where "FIONREAD = 0x541B"
definition FIONBIO :: u32 where "FIONBIO = 0x5421"

text \<open>\<^verbatim>\<open>ioctl\<close>: the word stored through the argument, if any, and the file with its flags.\<close>

definition pipe_ioctl ::
    "pfile \<Rightarrow> u32 \<Rightarrow> u32 \<Rightarrow> u32 \<Rightarrow> pstate \<Rightarrow> errno + (u32 option \<times> pfile)" where
  "pipe_ioctl f request arg val s =
     (if request = FIONREAD then
        Inr (if arg \<noteq> 0 then Some (p_count (pipes s ! f_priv f)) else None, f)
      else if request = FIONBIO then
        Inr (None, f\<lparr>f_flags := if val \<noteq> 0 then f_flags f OR O_NONBLOCK
                                 else f_flags f AND NOT O_NONBLOCK\<rparr>)
      else Inl ENOTTY)"

definition pipe_poll :: "pfile \<Rightarrow> pstate \<Rightarrow> u32" where
  "pipe_poll f s =
     (let p = pipes s ! f_priv f
      in if f_flags f AND O_ACCMODE = O_WRONLY then
           if p_readers p = 0 then POLLERR else if p_count p < PIPE_SIZE then POLLOUT else 0
         else if 0 < p_count p then POLLIN
         else if p_writers p = 0 then POLLHUP else 0)"

text \<open>Named FIFOs.\<close>

definition fifo_find :: "u32 \<Rightarrow> u32 \<Rightarrow> u32 \<Rightarrow> pstate \<Rightarrow> nat option" where
  "fifo_find fs ino dev s =
     first_idx (\<lambda>p. p_used p \<and> p_fifo_ino p = ino \<and> p_fifo_dev p = dev \<and> p_fifo_fs p = fs) (pipes s)"

definition drop_writer :: "nat \<Rightarrow> pstate \<Rightarrow> pstate" where
  "drop_writer i s =
     s\<lparr>pipes := (pipes s)[i := (pipes s ! i)\<lparr>p_writers := p_writers (pipes s ! i) - 1\<rparr>]\<rparr>"

definition fifo_close :: "pfile \<Rightarrow> pstate \<Rightarrow> pstate" where
  "fifo_close f s =
     (let acc = f_flags f AND O_ACCMODE;
          s1 = (if acc = O_RDWR then drop_writer (f_priv f) s else s)
      in ring_put (f_priv f) (acc \<noteq> O_WRONLY) s1)"

definition fifo_poll :: "pfile \<Rightarrow> pstate \<Rightarrow> u32" where
  "fifo_poll f s =
     (let p = pipes s ! f_priv f
      in if f_flags f AND O_ACCMODE = O_RDWR then
           (if p_count p \<noteq> 0 then POLLIN else 0) OR (if p_count p < PIPE_SIZE then POLLOUT else 0)
         else pipe_poll f s)"

text \<open>\<^verbatim>\<open>fifo_open\<close> up to its wait: refused, ready to be given a descriptor, or waiting for the
  other end to be opened once more than \<open>seen\<close>.\<close>

datatype fopen = FFail errno | FReady nat | FWait nat u32

definition fifo_ring :: "u32 \<Rightarrow> u32 \<Rightarrow> u32 \<Rightarrow> pstate \<Rightarrow> nat option \<times> pstate" where
  "fifo_ring fs ino dev s =
     (case fifo_find fs ino dev s of
        Some i \<Rightarrow> (Some i, s)
      | None \<Rightarrow>
          (case ring_alloc s of
             (None, s') \<Rightarrow> (None, s')
           | (Some i, s') \<Rightarrow>
               (Some i, s'\<lparr>pipes := (pipes s')[i := (pipes s' ! i)\<lparr>p_readers := 0, p_writers := 0,
                  p_fifo_fs := fs, p_fifo_ino := ino, p_fifo_dev := dev\<rparr>]\<rparr>)))"

definition fifo_open_join :: "u32 \<Rightarrow> u32 \<Rightarrow> u32 \<Rightarrow> u32 \<Rightarrow> pstate \<Rightarrow> fopen \<times> pstate" where
  "fifo_open_join fs ino dev flags s =
     (let acc = flags AND O_ACCMODE;
          (found, s1) = fifo_ring fs ino dev s
      in case found of
           None \<Rightarrow> (FFail ENFILE, s1)
         | Some i \<Rightarrow>
             let p = pipes s1 ! i;
                 reads = (if acc = O_RDONLY \<or> acc = O_RDWR then 1 else 0);
                 writes = (if acc = O_WRONLY \<or> acc = O_RDWR then 1 else 0)
             in if acc = O_WRONLY \<and> p_readers p = 0 \<and> has flags O_NONBLOCK then
                  (FFail ENXIO, if p_writers p = 0 then ring_free i s1 else s1)
                else
                  let p1 = p\<lparr>p_readers := p_readers p + reads, p_writers := p_writers p + writes,
                             p_r_opens := p_r_opens p + of_int reads,
                             p_w_opens := p_w_opens p + of_int writes\<rparr>;
                      (p2, e2) = wake_everyone p1 (penv s1);
                      s2 = s1\<lparr>pipes := (pipes s1)[i := p2],
                              penv := wake_list (fifo_wait s1) e2, fifo_wait := []\<rparr>
                  in if acc \<noteq> O_RDWR \<and> \<not> (acc = O_RDONLY \<and> has flags O_NONBLOCK)
                     then (FWait i (if reads \<noteq> 0 then p_w_opens p2 else p_r_opens p2), s2)
                     else (FReady i, s2))"

text \<open>One look at the loop condition of the wait.\<close>

definition fifo_open_wait :: "nat \<Rightarrow> u32 \<Rightarrow> bool \<Rightarrow> bool \<Rightarrow> nat \<Rightarrow> pstate \<Rightarrow> fopen \<times> pstate" where
  "fifo_open_wait i seen reads sig c s =
     (let p = pipes s ! i
      in if (if reads then p_writers p else p_readers p) = 0 \<and>
            (if reads then p_w_opens p else p_r_opens p) = seen then
           if sig then (FFail EINTR, ring_put i reads s)
           else (FWait i seen, s\<lparr>fifo_wait := fifo_wait s @ [c]\<rparr>)
         else (FReady i, s))"

definition fifo_open_finish :: "nat \<Rightarrow> u32 \<Rightarrow> errno + nat \<Rightarrow> pstate \<Rightarrow> (errno + nat) \<times> pstate" where
  "fifo_open_finish i flags fd s =
     (case fd of
        Inr n \<Rightarrow> (Inr n, s)
      | Inl err \<Rightarrow>
          (Inl err, ring_put i (flags AND O_ACCMODE \<noteq> O_WRONLY)
                      (if flags AND O_ACCMODE = O_RDWR then drop_writer i s else s)))"

text \<open>\<^verbatim>\<open>pipe_create\<close>, with the answers of the two \<^verbatim>\<open>fd_install\<close> calls.  \<^verbatim>\<open>fd_close(r)\<close> runs
  \<open>pipe_close\<close> on the reading end.\<close>

definition pipe_create ::
    "u32 \<Rightarrow> errno + nat \<Rightarrow> errno + nat \<Rightarrow> pstate \<Rightarrow> (errno + (nat \<times> nat \<times> nat)) \<times> pstate" where
  "pipe_create flags r w s =
     (if has flags (NOT (O_NONBLOCK OR O_CLOEXEC)) then (Inl EINVAL, s)
      else
        case ring_alloc s of
          (None, s1) \<Rightarrow> (Inl ENFILE, s1)
        | (Some i, s1) \<Rightarrow>
            case r of
              Inl err \<Rightarrow> (Inl err, ring_free i s1)
            | Inr rfd \<Rightarrow>
                case w of
                  Inl err \<Rightarrow>
                    (Inl err,
                     pipe_close \<lparr>f_flags = (O_RDONLY OR flags) AND NOT O_CLOEXEC, f_priv = i\<rparr>
                       (s1\<lparr>pipes := (pipes s1)[i := (pipes s1 ! i)\<lparr>p_writers := 0\<rparr>]\<rparr>))
                | Inr wfd \<Rightarrow> (Inr (i, rfd, wfd), s1))"

text \<open>Socket pairs: each end reads one ring and writes the other.\<close>

definition MSG_PEEK :: u32 where [kdefs]: "MSG_PEEK = 0x2"
definition MSG_DONTWAIT :: u32 where [kdefs]: "MSG_DONTWAIT = 0x40"
definition MSG_WAITALL :: u32 where [kdefs]: "MSG_WAITALL = 0x100"
definition MSG_NOSIGNAL :: u32 where [kdefs]: "MSG_NOSIGNAL = 0x4000"

definition set_uend :: "nat \<Rightarrow> uend \<Rightarrow> pstate \<Rightarrow> pstate" where
  "set_uend k u s = s\<lparr>uends := (uends s)[k := u]\<rparr>"

definition usock_close :: "nat \<Rightarrow> pstate \<Rightarrow> pstate" where
  "usock_close k s =
     (let u = uends s ! k;
          s1 = (if shut_rd u then s else ring_put (u_rx u) True s);
          s2 = (if shut_wr u then s1 else ring_put (u_tx u) False s1)
      in set_uend k (u\<lparr>u_used := False\<rparr>) s2)"

definition usock_ioctl ::
    "u32 \<Rightarrow> nat \<Rightarrow> u32 \<Rightarrow> u32 \<Rightarrow> u32 \<Rightarrow> pstate \<Rightarrow> errno + (u32 option \<times> u32)" where
  "usock_ioctl flags k request arg val s =
     (let u = uends s ! k
      in if request = FIONREAD then
           Inr (if arg \<noteq> 0 then Some (if shut_rd u then 0 else p_count (pipes s ! u_rx u)) else None, flags)
         else if request = FIONBIO then
           Inr (None, if val \<noteq> 0 then flags OR O_NONBLOCK else flags AND NOT O_NONBLOCK)
         else Inl ENOTTY)"

definition usock_poll :: "nat \<Rightarrow> pstate \<Rightarrow> u32" where
  "usock_poll k s =
     (let u = uends s ! k; rx = pipes s ! u_rx u; tx = pipes s ! u_tx u
      in (if shut_rd u \<or> 0 < p_count rx then POLLIN
          else if p_writers rx = 0 then POLLIN OR POLLHUP else 0)
         OR (if shut_wr u \<or> p_readers tx = 0 then POLLERR
             else if p_count tx < PIPE_SIZE then POLLOUT else 0))"

definition usock_send ::
    "u32 \<Rightarrow> nat \<Rightarrow> u8 list \<Rightarrow> u32 \<Rightarrow> bool \<Rightarrow> nat \<Rightarrow> nat \<Rightarrow> pstate \<Rightarrow> wout \<times> pstate" where
  "usock_send f_fl k bs flags sig c done s =
     (let u = uends s ! k
      in if shut_wr u then
           (WDone (Inl EPIPE),
            if has flags MSG_NOSIGNAL then s else s\<lparr>penv := signal_send c SIGPIPE (penv s)\<rparr>)
         else
           let how = (if has f_fl O_NONBLOCK \<or> has flags MSG_DONTWAIT then RW_NONBLOCK else 0)
                     OR (if has flags MSG_NOSIGNAL then RW_NOSIGNAL else 0)
           in put_pipe (u_tx u) (ring_write bs how sig c done (pipes s ! u_tx u) (penv s)) s)"

text \<open>The \<^verbatim>\<open>MSG_WAITALL\<close> loop from \<open>acc\<close>, the bytes received so far, until the call returns or
  sleeps; a sleeping call resumes with what it has.\<close>

datatype rout = RDone "errno + u8 list" | RAsleep "u8 list"

function recv_all ::
    "nat \<Rightarrow> u32 \<Rightarrow> bool \<Rightarrow> nat \<Rightarrow> u8 list \<Rightarrow> pipe \<Rightarrow> env \<Rightarrow> rout \<times> pipe \<times> env" where
  "recv_all len how sig c acc p e =
     (if length acc < len then
        case ring_read (of_nat (len - length acc)) how sig c p e of
          (Block, p', e') \<Rightarrow> (RAsleep acc, p', e')
        | (Ret (Inl err), p', e') \<Rightarrow>
            (RDone (if acc \<noteq> [] then Inr acc else Inl err), p', e')
        | (Ret (Inr out), p', e') \<Rightarrow>
            if out = [] then (RDone (Inr acc), p', e')
            else recv_all len how sig c (acc @ out) p' e'
      else (RDone (Inr acc), p, e))"
  by pat_completeness auto
termination
  by (relation "measure (\<lambda>(len, how, sig, c, acc, p, e). len - length acc)")
    (auto simp flip: length_greater_0_conv)

definition usock_recv ::
    "u32 \<Rightarrow> nat \<Rightarrow> nat \<Rightarrow> u32 \<Rightarrow> bool \<Rightarrow> nat \<Rightarrow> u8 list \<Rightarrow> pstate \<Rightarrow> rout \<times> pstate" where
  "usock_recv f_fl k len flags sig c acc s =
     (let u = uends s ! k
      in if shut_rd u then (RDone (Inr []), s)
         else
           let how = (if has f_fl O_NONBLOCK \<or> has flags MSG_DONTWAIT then RW_NONBLOCK else 0)
                     OR (if has flags MSG_PEEK then RW_PEEK else 0)
           in if has flags MSG_WAITALL then
                put_pipe (u_rx u) (recv_all len how sig c acc (pipes s ! u_rx u) (penv s)) s
              else
                put_pipe (u_rx u)
                  (case ring_read (of_nat len) how sig c (pipes s ! u_rx u) (penv s) of
                     (Block, p', e') \<Rightarrow> (RAsleep [], p', e')
                   | (Ret r, p', e') \<Rightarrow> (RDone r, p', e')) s)"

definition usock_shutdown :: "nat \<Rightarrow> int \<Rightarrow> pstate \<Rightarrow> (errno + unit) \<times> pstate" where
  "usock_shutdown k how s =
     (if how \<noteq> 0 \<and> how \<noteq> 1 \<and> how \<noteq> 2 then (Inl EINVAL, s)
      else
        let u = uends s ! k;
            rd = (how = 0 \<or> how = 2) \<and> \<not> shut_rd u;
            s1 = (if rd then ring_put (u_rx u) True (set_uend k (u\<lparr>shut_rd := True\<rparr>) s) else s);
            u1 = uends s1 ! k;
            wr = (how = 1 \<or> how = 2) \<and> \<not> shut_wr u1;
            s2 = (if wr then ring_put (u_tx u1) False (set_uend k (u1\<lparr>shut_wr := True\<rparr>) s1) else s1)
        in (Inr (), s2))"

definition uend_alloc :: "pstate \<Rightarrow> nat option \<times> pstate" where
  "uend_alloc s =
     (case first_idx (\<lambda>u. \<not> u_used u) (uends s) of
        None \<Rightarrow> (None, s)
      | Some k \<Rightarrow>
          (Some k, set_uend k \<lparr>u_used = True, u_rx = 0, u_tx = 0, shut_rd = False, shut_wr = False\<rparr> s))"

definition undo_ring :: "nat option \<Rightarrow> pstate \<Rightarrow> pstate" where
  "undo_ring r s = (case r of None \<Rightarrow> s | Some i \<Rightarrow> ring_put i False (ring_put i True s))"

definition undo_uend :: "nat option \<Rightarrow> pstate \<Rightarrow> pstate" where
  "undo_uend r s = (case r of None \<Rightarrow> s | Some k \<Rightarrow> set_uend k ((uends s ! k)\<lparr>u_used := False\<rparr>) s)"

definition SOCK_STREAM :: u32 where "SOCK_STREAM = 1"

definition usock_pair ::
    "u32 \<Rightarrow> errno + nat \<Rightarrow> errno + nat \<Rightarrow> pstate \<Rightarrow> (errno + (nat \<times> nat \<times> nat \<times> nat)) \<times> pstate" where
  "usock_pair type fa fb s0 =
     (if type AND NOT (O_NONBLOCK OR O_CLOEXEC) \<noteq> SOCK_STREAM then (Inl EPROTONOSUPPORT, s0)
      else
        let (ab, s1) = ring_alloc s0;
            (ba, s2) = ring_alloc s1;
            (a, s3) = uend_alloc s2;
            (b, s4) = uend_alloc s3
        in case (ab, ba, a, b) of
             (Some iab, Some iba, Some ka, Some kb) \<Rightarrow>
               let s5 = set_uend ka ((uends s4 ! ka)\<lparr>u_rx := iba, u_tx := iab\<rparr>) s4;
                   s6 = set_uend kb ((uends s5 ! kb)\<lparr>u_rx := iab, u_tx := iba\<rparr>) s5
               in (case fa of
                     Inl err \<Rightarrow> (Inl err, usock_close kb (usock_close ka s6))
                   | Inr f1 \<Rightarrow>
                       (case fb of
                          Inl err \<Rightarrow> (Inl err, usock_close kb (usock_close ka s6))
                        | Inr f2 \<Rightarrow> (Inr (ka, kb, f1, f2), s6)))
           | _ \<Rightarrow> (Inl ENFILE, undo_uend b (undo_uend a (undo_ring ba (undo_ring ab s4)))))"

declare ring_write.simps [simp del]
declare recv_all.simps [simp del]

lemma window_inj:
  fixes h i j m :: nat
  assumes "(h + i) mod m = (h + j) mod m" and "i < m" and "j < m"
  shows "i = j"
proof (cases "i \<le> j")
  case True
  then have "m dvd h + j - (h + i)" using assms(1) by (intro mod_eq_dvd_iff_nat [THEN iffD1]) simp_all
  then show ?thesis using assms(3) True by (auto dest: dvd_imp_le)
next
  case False
  then have "m dvd h + i - (h + j)" using assms(1) by (intro mod_eq_dvd_iff_nat [THEN iffD1]) simp_all
  then show ?thesis using assms(2) False by (auto dest: dvd_imp_le)
qed

section \<open>The ring holds a list\<close>

definition ring_ok :: "pipe \<Rightarrow> bool" where
  "ring_ok p \<longleftrightarrow> length (p_data p) = 4096 \<and> p_head p < 4096 \<and> p_count p \<le> 4096"

definition ring_items :: "pipe \<Rightarrow> u8 list" where
  "ring_items p = map (\<lambda>i. p_data p ! ((unat (p_head p) + i) mod 4096)) [0..<unat (p_count p)]"

definition ring_room :: "pipe \<Rightarrow> nat" where
  "ring_room p = 4096 - unat (p_count p)"

lemma length_ring_items [simp]: "length (ring_items p) = unat (p_count p)"
  by (simp add: ring_items_def)

lemma ring_okD:
  assumes "ring_ok p"
  shows "length (p_data p) = 4096" and "unat (p_head p) < 4096" and "unat (p_count p) \<le> 4096"
  using assms by (simp_all add: ring_ok_def word_less_nat_alt word_le_nat_alt)

lemma ring_okI:
  "length (p_data p) = 4096 \<Longrightarrow> unat (p_head p) < 4096 \<Longrightarrow> unat (p_count p) \<le> 4096 \<Longrightarrow> ring_ok p"
  by (simp add: ring_ok_def word_less_nat_alt word_le_nat_alt)

lemma ring_room_word: "ring_ok p \<Longrightarrow> unat (PIPE_SIZE - p_count p) = ring_room p"
  by (simp add: PIPE_SIZE_def ring_room_def unat_sub ring_ok_def)

lemma next_index: "unat (at :: u32) < 4096 \<Longrightarrow> unat ((at + 1) mod PIPE_SIZE) = (unat at + 1) mod 4096"
  by (simp add: PIPE_SIZE_def unat_mod unat_word_ariths)

lemma ring_out_items:
  "unat at < 4096 \<Longrightarrow>
   ring_out d at n = (map (\<lambda>i. d ! ((unat at + i) mod 4096)) [0..<n], of_nat ((unat at + n) mod 4096))"
proof (induction d at n rule: ring_out.induct)
  case (1 d at)
  then show ?case by simp
next
  case (2 d at n)
  have lt: "unat ((at + 1) mod PIPE_SIZE) < 4096" using 2(2) by (simp add: next_index)
  have "map (\<lambda>i. d ! ((unat at + i) mod 4096)) [0..<Suc n]
      = d ! unat at # map (\<lambda>i. d ! ((unat at + 1 + i) mod 4096)) [0..<n]"
    using 2(2) by (simp add: upt_conv_Cons map_Suc_upt [symmetric] del: upt_Suc)
  moreover have "((unat at + 1) mod 4096 + i) mod 4096 = (unat at + 1 + i) mod 4096" for i
    by (simp add: mod_add_left_eq)
  ultimately show ?case
    using 2(1) [OF lt] 2(2) by (simp add: next_index add.assoc)
qed

lemma ring_take_items:
  assumes "ring_ok p" and "n \<le> unat (p_count p)"
  shows "fst (ring_take n p) = take n (ring_items p)" and "ring_ok (snd (ring_take n p))"
    and "ring_items (snd (ring_take n p)) = drop n (ring_items p)"
    and "fst (ring_out (p_data p) (p_head p) n) = take n (ring_items p)"
proof -
  note r = ring_okD [OF assms(1)]
  note out = ring_out_items [OF r(2), of "p_data p" n]
  have cnt: "unat (p_count p - of_nat n) = unat (p_count p) - n"
  proof -
    have "n < 4294967296" using assms(2) unat_u32_less [of "p_count p"] by linarith
    then show ?thesis using assms(2) by (simp add: unat_sub word_le_nat_alt)
  qed
  show "fst (ring_take n p) = take n (ring_items p)"
    "fst (ring_out (p_data p) (p_head p) n) = take n (ring_items p)"
    using assms(2) by (simp_all add: ring_take_def out ring_items_def take_map)
  show "ring_ok (snd (ring_take n p))"
    using r cnt by (intro ring_okI) (simp_all add: ring_take_def out)
  have "((unat (p_head p) + n) mod 4096 + i) mod 4096 = (unat (p_head p) + (n + i)) mod 4096" for i
    by (simp add: mod_add_left_eq add.assoc)
  moreover have "drop n [0..<unat (p_count p)] = map (\<lambda>i. n + i) [0..<unat (p_count p) - n]"
    using assms(2) by (simp add: map_add_upt add.commute)
  ultimately show "ring_items (snd (ring_take n p)) = drop n (ring_items p)"
    by (simp add: ring_take_def out ring_items_def cnt drop_map)
qed

lemma ring_put_byte:
  fixes p b
  defines "p' \<equiv> p\<lparr>p_data := (p_data p)[unat ((p_head p + p_count p) mod PIPE_SIZE) := b],
                   p_count := p_count p + 1\<rparr>"
  assumes ok: "ring_ok p" and room: "unat (p_count p) < 4096"
  shows "ring_ok p'" and "ring_items p' = ring_items p @ [b]" and "unat (p_count p') = Suc (unat (p_count p))"
proof -
  note r = ring_okD [OF ok]
  have cnt: "unat (p_count p + 1) = Suc (unat (p_count p))"
    using room by (simp add: unat_word_ariths)
  then show "unat (p_count p') = Suc (unat (p_count p))" by (simp add: p'_def)
  have at: "unat ((p_head p + p_count p) mod PIPE_SIZE) = (unat (p_head p) + unat (p_count p)) mod 4096"
    using r room by (simp add: PIPE_SIZE_def unat_mod unat_word_ariths)
  show "ring_ok p'" using r room cnt by (intro ring_okI) (simp_all add: p'_def)
  have "(unat (p_head p) + unat (p_count p)) mod 4096 \<noteq> (unat (p_head p) + i) mod 4096"
    if "i < unat (p_count p)" for i
    using window_inj [of "unat (p_head p)" i 4096 "unat (p_count p)"] that room by auto
  then show "ring_items p' = ring_items p @ [b]"
    using r by (simp add: ring_items_def p'_def cnt at)
qed

lemma ring_in_items:
  "ring_ok p \<Longrightarrow> length bs \<le> ring_room p \<Longrightarrow>
   ring_ok (ring_in bs p) \<and> ring_items (ring_in bs p) = ring_items p @ bs"
proof (induction bs p rule: ring_in.induct)
  case (2 b bs p)
  have lt: "unat (p_count p) < 4096" using 2(3) by (auto simp: ring_room_def)
  note step = ring_put_byte [OF 2(2) lt, of b]
  show ?case
    using 2(1) step 2(3) by (simp add: ring_room_def)
qed simp

interpretation ring: fifo_buffer ring_ok ring_items ring_room ring_in ring_take
proof
  show "ring_ok p \<Longrightarrow> length xs \<le> ring_room p \<Longrightarrow>
      ring_ok (ring_in xs p) \<and> ring_items (ring_in xs p) = ring_items p @ xs" for p xs
    by (rule ring_in_items)
  show "ring_ok p \<Longrightarrow> n \<le> length (ring_items p) \<Longrightarrow> ring_take n p = (xs, p') \<Longrightarrow>
      ring_ok p' \<and> xs = take n (ring_items p) \<and> ring_items p' = drop n (ring_items p)" for p n xs p'
    using ring_take_items [of p n] by simp
qed

section \<open>Reading and writing\<close>

lemma wake_everyone_fields [simp]:
  "ring_ok (fst (wake_everyone p e)) = ring_ok p"
  "ring_items (fst (wake_everyone p e)) = ring_items p"
  "p_used (fst (wake_everyone p e)) = p_used p" "p_buf (fst (wake_everyone p e)) = p_buf p"
  "p_readers (fst (wake_everyone p e)) = p_readers p"
  "p_writers (fst (wake_everyone p e)) = p_writers p"
  "p_count (fst (wake_everyone p e)) = p_count p"
  by (simp_all add: wake_everyone_def ring_ok_def ring_items_def)

lemma rq_wq_irrelevant [simp]:
  "ring_ok (p\<lparr>p_rq := a\<rparr>) = ring_ok p" "ring_items (p\<lparr>p_rq := a\<rparr>) = ring_items p"
  "ring_ok (p\<lparr>p_wq := a\<rparr>) = ring_ok p" "ring_items (p\<lparr>p_wq := a\<rparr>) = ring_items p"
  by (simp_all add: ring_ok_def ring_items_def)

lemma ring_items_empty: "ring_items p = [] \<longleftrightarrow> p_count p = 0"
  by (metis length_0_conv length_ring_items unat_eq_zero)

text \<open>What one turn of \<open>ring_read\<close> promises: data as far as it goes; an empty answer only at
  the end of file; an error or sleep only on an empty ring with a writer left.\<close>

definition read_post :: "u32 \<Rightarrow> u32 \<Rightarrow> bool \<Rightarrow> nat \<Rightarrow> pipe \<Rightarrow> (errno + u8 list) outcome \<Rightarrow> pipe \<Rightarrow> bool" where
  "read_post len how sig c p r p' \<longleftrightarrow>
     (case r of
        Ret (Inr out) \<Rightarrow>
          out = take (unat len) (ring_items p) \<and>
          ring_items p' = (if has how RW_PEEK then ring_items p else drop (unat len) (ring_items p)) \<and>
          (out = [] \<longrightarrow> len = 0 \<or> p_writers p = 0)
      | Ret (Inl err) \<Rightarrow>
          ring_items p = [] \<and> p_writers p \<noteq> 0 \<and> p' = p \<and> (has how RW_NONBLOCK \<or> sig) \<and>
          err = (if has how RW_NONBLOCK then EAGAIN else EINTR)
      | Block \<Rightarrow>
          ring_items p = [] \<and> p_writers p \<noteq> 0 \<and> \<not> has how RW_NONBLOCK \<and> \<not> sig \<and>
          p' = p\<lparr>p_rq := p_rq p @ [c]\<rparr>)"

lemma ring_read_spec:
  assumes ok: "ring_ok p" and rd: "ring_read len how sig c p e = (r, p', e')"
  shows "ring_ok p' \<and> read_post len how sig c p r p'"
proof -
  let ?n = "min (unat len) (unat (p_count p))"
  have tk: "take ?n (ring_items p) = take (unat len) (ring_items p)"
    "drop ?n (ring_items p) = drop (unat len) (ring_items p)"
    by (simp_all add: min_def)
  note t = ring_take_items [OF ok, of ?n]
  consider (none) "len = 0" | (data) "len \<noteq> 0" "0 < p_count p" | (empty) "len \<noteq> 0" "p_count p = 0"
    by (cases "len = 0"; cases "p_count p = 0") (auto simp: word_gt_0)
  then show ?thesis
  proof cases
    case none
    then show ?thesis using ok rd by (auto simp: ring_read_def read_post_def)
  next
    case data
    then have ne: "take (unat len) (ring_items p) \<noteq> []"
      using ring_items_empty [of p] by (auto simp: unat_eq_zero)
    show ?thesis
    proof (cases "has how RW_PEEK")
      case True
      then show ?thesis
        using data rd ok t(4) tk ne by (auto simp: ring_read_def read_post_def Let_def)
    next
      case False
      obtain out p1 where p1: "ring_take ?n p = (out, p1)" by fastforce
      then have "r = Ret (Inr out)" "p' = fst (wake_everyone p1 e)"
        using False data rd by (auto simp: ring_read_def Let_def split: prod.splits)
      then show ?thesis
        using False t p1 tk ne by (simp add: read_post_def)
    qed
  next
    case empty
    then show ?thesis
      using rd ok ring_items_empty [of p] by (auto simp: ring_read_def read_post_def split: if_splits)
  qed
qed

lemma ring_in_fields [simp]:
  "p_readers (ring_in bs p) = p_readers p" "p_writers (ring_in bs p) = p_writers p"
  "p_used (ring_in bs p) = p_used p" "p_buf (ring_in bs p) = p_buf p"
  by (induction bs p rule: ring_in.induct) auto

lemma ring_write_turn_spec:
  assumes ok: "ring_ok p" and wr: "ring_write_turn bs how sig c done p e = (r, p', e')"
  shows "ring_ok p'" and "p_readers p' = p_readers p"
    and "ring_items p' = ring_items p @
          (case r of WMore d \<Rightarrow> take (d - done) (drop done bs) | _ \<Rightarrow> [])"
proof -
  have "ring_ok p' \<and> p_readers p' = p_readers p \<and> ring_items p' = ring_items p @
          (case r of WMore d \<Rightarrow> take (d - done) (drop done bs) | _ \<Rightarrow> [])"
  proof (cases "\<exists>d. r = WMore d")
    case True
    then obtain d where r: "r = WMore d" by blast
    let ?w = "min (ring_room p) (length bs - done)"
    have d: "d = done + ?w" and p': "p' = fst (wake_everyone (ring_in (take ?w (drop done bs)) p) e)"
      using wr ring_room_word [OF ok] unfolding r ring_write_turn_def Let_def
      by (auto simp: min_def split: if_splits prod.splits)
    have "length (take ?w (drop done bs)) \<le> ring_room p" by simp
    then show ?thesis
      using ring.push_law [OF ok] by (simp add: p' d r)
  next
    case False
    then show ?thesis
      using wr ok by (auto simp: ring_write_turn_def Let_def split: if_splits prod.splits)
  qed
  then show "ring_ok p'" "p_readers p' = p_readers p" "ring_items p' = ring_items p @
      (case r of WMore d \<Rightarrow> take (d - done) (drop done bs) | _ \<Rightarrow> [])" by auto
qed

text \<open>How far a write has got when it returns or sleeps.\<close>

fun written :: "nat \<Rightarrow> wout \<Rightarrow> nat" where
  "written done (WDone (Inr d)) = d"
| "written done (WDone (Inl err)) = done"
| "written done (WAsleep d) = d"

lemma ring_write_unfold:
  "ring_write_turn bs how sig c done p e = (WRet x, p', e') \<Longrightarrow>
     ring_write bs how sig c done p e = (WDone x, p', e')"
  "ring_write_turn bs how sig c done p e = (WBlock, p', e') \<Longrightarrow>
     ring_write bs how sig c done p e = (WAsleep done, p', e')"
  "ring_write_turn bs how sig c done p e = (WMore d, p', e') \<Longrightarrow>
     ring_write bs how sig c done p e = ring_write bs how sig c d p' e'"
  by (subst ring_write.simps, simp)+

lemma ring_write_spec:
  "ring_ok p \<Longrightarrow> done \<le> length bs \<Longrightarrow> ring_write bs how sig c done p e = (r, p', e') \<Longrightarrow>
   ring_ok p' \<and> done \<le> written done r \<and> written done r \<le> length bs \<and>
   (\<forall>err. r = WDone (Inl err) \<longrightarrow> done = 0) \<and>
   ring_items p' = ring_items p @ take (written done r - done) (drop done bs)"
proof (induction bs how sig c "done" p e rule: ring_write.induct)
  case (1 bs how sig c "done" p e)
  obtain r1 p1 e1 where turn: "ring_write_turn bs how sig c done p e = (r1, p1, e1)"
    using prod_cases3 by blast
  note spec = ring_write_turn_spec [OF 1(2) turn]
  show ?case
  proof (cases r1)
    case (WRet x)
    then have res: "r = WDone x" "p' = p1" using 1(4) turn by (simp_all add: ring_write_unfold)
    have "x = Inr done \<or> done = 0 \<and> (\<exists>err. x = Inl err)"
      using turn 1(3) WRet by (auto simp: ring_write_turn_def Let_def split: if_splits prod.splits)
    then show ?thesis using res spec 1(3) WRet by auto
  next
    case (WMore d)
    note d = ring_write_turn_more [OF turn [unfolded WMore]]
    have "ring_write bs how sig c d p1 e1 = (r, p', e')"
      using 1(4) turn WMore by (simp add: ring_write_unfold)
    then have IH: "ring_ok p'" "d \<le> written d r" "written d r \<le> length bs"
      "r = WDone (Inl err) \<longrightarrow> d = 0"
      "ring_items p' = ring_items p1 @ take (written d r - d) (drop d bs)" for err
      using 1(1) [OF turn [symmetric, unfolded WMore] refl refl] spec(1) d by blast+
    have w: "written done r = written d r"
      using IH(4) d by (cases "(d, r)" rule: written.cases) auto
    have "take (written d r - done) (drop done bs)
        = take (d - done) (drop done bs) @ take (written d r - d) (drop d bs)"
      using IH(2) d take_add [of "d - done" "written d r - d" "drop done bs"] by simp
    then show ?thesis
      using IH w d spec(3) WMore by auto
  next
    case WBlock
    then show ?thesis using 1(3,4) turn spec by (auto simp: ring_write_unfold)
  qed
qed

section \<open>Rings and their pages\<close>

text \<open>A used slot has a sound ring, an end open, and a page of the pool that only it holds.\<close>

definition ring_live :: "pipe \<Rightarrow> bool" where
  "ring_live p \<longleftrightarrow> ring_ok p \<and> 0 \<le> p_readers p \<and> 0 \<le> p_writers p \<and> 0 < p_readers p + p_writers p"

definition slot_used :: "pstate \<Rightarrow> nat \<Rightarrow> bool" where
  "slot_used s i \<longleftrightarrow> i < length (pipes s) \<and> p_used (pipes s ! i)"

definition slot_page :: "pstate \<Rightarrow> nat \<Rightarrow> u32" where
  "slot_page s i = p_buf (pipes s ! i)"

definition pipes_wf :: "pstate \<Rightarrow> bool" where
  "pipes_wf s \<longleftrightarrow> pmm_wf (pool s) \<and>
     (\<forall>i. slot_used s i \<longrightarrow> ring_live (pipes s ! i) \<and> page_refs (pool s) (slot_page s i) = 1) \<and>
     (\<forall>i j. slot_used s i \<and> slot_used s j \<and> slot_page s i = slot_page s j \<longrightarrow> i = j)"

lemma pipes_wfD:
  assumes "pipes_wf s"
  shows "pmm_wf (pool s)" and "slot_used s i \<Longrightarrow> ring_live (pipes s ! i)"
    and "slot_used s i \<Longrightarrow> page_refs (pool s) (slot_page s i) = 1"
    and "slot_used s i \<Longrightarrow> slot_used s j \<Longrightarrow> slot_page s i = slot_page s j \<Longrightarrow> i = j"
  using assms unfolding pipes_wf_def by blast+

definition new_ring :: "u32 \<Rightarrow> pipe" where
  "new_ring pa = zero_pipe\<lparr>p_buf := pa, p_data := replicate 4096 0, p_used := True,
     p_readers := 1, p_writers := 1\<rparr>"

lemma new_ring_live: "ring_live (new_ring pa)" "ring_items (new_ring pa) = []"
  by (simp_all add: ring_live_def new_ring_def zero_pipe_def ring_ok_def ring_items_def)

lemma ends_irrelevant [simp]:
  "ring_ok (p\<lparr>p_readers := n\<rparr>) = ring_ok p" "ring_ok (p\<lparr>p_writers := n\<rparr>) = ring_ok p"
  "ring_items (p\<lparr>p_readers := n\<rparr>) = ring_items p" "ring_items (p\<lparr>p_writers := n\<rparr>) = ring_items p"
  by (simp_all add: ring_ok_def ring_items_def)

text \<open>Replacing a slot's ring by one with the same page.\<close>

lemma pipes_wf_update:
  assumes wf: "pipes_wf s" and i: "slot_used s i" and p: "ring_live p" "p_used p" "p_buf p = slot_page s i"
    and s': "pipes s' = (pipes s)[i := p]" "pool s' = pool s"
  shows "pipes_wf s'" and "slot_used s' = slot_used s" and "slot_page s' = slot_page s"
proof -
  have lt: "i < length (pipes s)" using i by (simp add: slot_used_def)
  show u: "slot_used s' = slot_used s" and pg: "slot_page s' = slot_page s"
    using i p lt by (auto simp: slot_used_def slot_page_def s' nth_list_update fun_eq_iff)
  have "ring_live (pipes s' ! j)" if "slot_used s j" for j
    using that pipes_wfD(2) [OF wf] p lt by (simp add: s' nth_list_update)
  then show "pipes_wf s'"
    using wf unfolding pipes_wf_def by (simp add: u pg s')
qed

text \<open>What \<open>ring_alloc\<close> does to the slots and the pages.\<close>

definition alloc_result :: "nat option \<Rightarrow> pstate \<Rightarrow> pstate \<Rightarrow> bool" where
  "alloc_result r s s' \<longleftrightarrow>
     uends s' = uends s \<and> penv s' = penv s \<and> length (pipes s') = length (pipes s) \<and>
     (case r of
        None \<Rightarrow> slot_used s' = slot_used s \<and> page_refs (pool s') = page_refs (pool s)
      | Some i \<Rightarrow> i < length (pipes s) \<and> \<not> slot_used s i \<and> slot_used s' = (slot_used s)(i := True) \<and>
          (\<exists>pa. pipes s' = (pipes s)[i := new_ring pa] \<and> page_refs (pool s) pa = 0 \<and>
                page_refs (pool s') = (page_refs (pool s))(pa := 1)))"

lemma ring_alloc_spec:
  assumes wf: "pipes_wf s" and al: "ring_alloc s = (r, s')"
  shows "pipes_wf s' \<and> alloc_result r s s'"
proof (cases "first_idx (\<lambda>p. \<not> p_used p) (pipes s)")
  case None
  then have "ring_alloc s = (None, s)" unfolding ring_alloc_def None by simp
  then show ?thesis using al wf by (simp add: alloc_result_def)
next
  case (Some i)
  then have i: "i < length (pipes s)" "\<not> p_used (pipes s ! i)"
    using first_idx_SomeD by fastforce+
  then have ni: "\<not> slot_used s i" by (simp add: slot_used_def)
  obtain pa pool' where pa: "pmm_alloc (pool s) = (pa, pool')" by fastforce
  note law = pool.alloc_law [OF pipes_wfD(1) [OF wf] pa]
  show ?thesis
  proof (cases "pa = 0")
    case True
    then have s': "r = None" "s' = s\<lparr>pipes := (pipes s)[i := zero_pipe]\<rparr>"
      using al Some pa law by (auto simp: ring_alloc_def)
    have u: "slot_used s' = slot_used s"
      using i by (auto simp: slot_used_def s' nth_list_update fun_eq_iff zero_pipe_def)
    have pg: "pipes s' ! j = pipes s ! j" "slot_page s' j = slot_page s j" if "slot_used s j" for j
      using that ni by (cases "j = i"; simp add: s' slot_page_def)+
    have "pipes_wf s'"
      unfolding pipes_wf_def u
    proof (intro conjI allI impI)
      show "pmm_wf (pool s')" using pipes_wfD(1) [OF wf] by (simp add: s'(2))
      fix j
      assume "slot_used s j"
      then show "ring_live (pipes s' ! j)" "page_refs (pool s') (slot_page s' j) = 1"
        using pipes_wfD(2,3) [OF wf] pg by (auto simp: s'(2))
    next
      fix j k
      assume "slot_used s j \<and> slot_used s k \<and> slot_page s' j = slot_page s' k"
      then show "j = k" using pipes_wfD(4) [OF wf] pg(2) by metis
    qed
    then show ?thesis using u s' by (simp add: alloc_result_def)
  next
    case False
    then have s': "r = Some i" "s' = s\<lparr>pipes := (pipes s)[i := new_ring pa], pool := pool'\<rparr>"
      using al Some pa by (auto simp: ring_alloc_def new_ring_def)
    have u: "slot_used s' = (slot_used s)(i := True)"
      using i by (auto simp: slot_used_def s' nth_list_update fun_eq_iff new_ring_def)
    have pg: "pipes s' ! j = pipes s ! j" "slot_page s' j = slot_page s j" if "j \<noteq> i" for j
      using that by (auto simp: s' slot_page_def)
    have pi: "pipes s' ! i = new_ring pa" "slot_page s' i = pa"
      using i by (simp_all add: s' slot_page_def new_ring_def)
    have fresh: "slot_page s j \<noteq> pa" if "slot_used s j" for j
      using pipes_wfD(3) [OF wf that] law False by auto
    have "pipes_wf s'"
      unfolding pipes_wf_def u
    proof (intro conjI allI impI)
      show "pmm_wf (pool s')" using law False by (simp add: s')
      fix j
      assume j: "((slot_used s)(i := True)) j"
      show "ring_live (pipes s' ! j)"
        using j pi pg pipes_wfD(2) [OF wf, of j] new_ring_live by (cases "j = i") auto
      show "page_refs (pool s') (slot_page s' j) = 1"
        using j pi pg pipes_wfD(3) [OF wf, of j] law False fresh by (cases "j = i") (auto simp: s'(2))
    next
      fix j k
      assume "((slot_used s)(i := True)) j \<and> ((slot_used s)(i := True)) k \<and> slot_page s' j = slot_page s' k"
      then show "j = k"
        using pi pg fresh pipes_wfD(4) [OF wf, of j k] by (cases "j = i"; cases "k = i") auto
    qed
    then show ?thesis
      using u i ni law False by (auto simp: s' alloc_result_def)
  qed
qed

lemma ring_free_spec:
  assumes wf: "pmm_wf (pool s)" and i: "i < length (pipes s)"
    and page: "page_refs (pool s) (slot_page s i) = 1"
    and rest: "\<And>j. slot_used s j \<Longrightarrow> j \<noteq> i \<Longrightarrow>
        ring_live (pipes s ! j) \<and> page_refs (pool s) (slot_page s j) = 1 \<and> slot_page s j \<noteq> slot_page s i"
    and inj: "\<And>j k. slot_used s j \<Longrightarrow> slot_used s k \<Longrightarrow> slot_page s j = slot_page s k \<Longrightarrow> j = k"
  shows "pipes_wf (ring_free i s)" and "slot_used (ring_free i s) = (slot_used s)(i := False)"
    and "page_refs (pool (ring_free i s)) = (page_refs (pool s))(slot_page s i := 0)"
    and "length (pipes (ring_free i s)) = length (pipes s)"
proof -
  let ?s = "ring_free i s"
  note rel = pool.release_law [OF wf, of "slot_page s i"]
  show u: "slot_used ?s = (slot_used s)(i := False)"
    using i by (auto simp: slot_used_def ring_free_def fun_eq_iff nth_list_update)
  show pr: "page_refs (pool ?s) = (page_refs (pool s))(slot_page s i := 0)"
    using rel page by (simp add: ring_free_def slot_page_def)
  show "length (pipes ?s) = length (pipes s)" by (simp add: ring_free_def)
  have pg: "pipes ?s ! j = pipes s ! j" "slot_page ?s j = slot_page s j" if "j \<noteq> i" for j
    using that by (auto simp: ring_free_def slot_page_def)
  show "pipes_wf ?s"
    unfolding pipes_wf_def u
  proof (intro conjI allI impI)
    show "pmm_wf (pool ?s)" using rel page by (simp add: ring_free_def slot_page_def)
    fix j
    assume "((slot_used s)(i := False)) j"
    then show "ring_live (pipes ?s ! j)" "page_refs (pool ?s) (slot_page ?s j) = 1"
      using rest [of j] pg [of j] by (auto simp: pr split: if_splits)
  next
    fix j k
    assume "((slot_used s)(i := False)) j \<and> ((slot_used s)(i := False)) k \<and> slot_page ?s j = slot_page ?s k"
    then show "j = k" using inj [of j k] pg [of j] pg [of k] by (auto split: if_splits)
  qed
qed

text \<open>Dropping an end: the other slots are untouched, and the page goes back with the last end.\<close>

lemma ring_put_spec:
  assumes wf: "pipes_wf s" and i: "slot_used s i"
    and cnt: "if reader then 0 < p_readers (pipes s ! i) else 0 < p_writers (pipes s ! i)"
  defines "lastone \<equiv> p_readers (pipes s ! i) + p_writers (pipes s ! i) = 1"
  shows "pipes_wf (ring_put i reader s)"
    and "slot_used (ring_put i reader s) = (slot_used s)(i := \<not> lastone)"
    and "page_refs (pool (ring_put i reader s)) =
           (if lastone then (page_refs (pool s))(slot_page s i := 0) else page_refs (pool s))"
    and "\<not> lastone \<Longrightarrow> p_readers (pipes (ring_put i reader s) ! i) =
           (if reader then p_readers (pipes s ! i) - 1 else p_readers (pipes s ! i))"
    and "\<not> lastone \<Longrightarrow> p_writers (pipes (ring_put i reader s) ! i) =
           (if reader then p_writers (pipes s ! i) else p_writers (pipes s ! i) - 1)"
    and "length (pipes (ring_put i reader s)) = length (pipes s)"
    and "j \<noteq> i \<Longrightarrow> pipes (ring_put i reader s) ! j = pipes s ! j"
    and "\<not> lastone \<Longrightarrow> slot_page (ring_put i reader s) = slot_page s"
proof -
  let ?p = "pipes s ! i"
  let ?p1 = "if reader then ?p\<lparr>p_readers := p_readers ?p - 1\<rparr> else ?p\<lparr>p_writers := p_writers ?p - 1\<rparr>"
  let ?p2 = "fst (wake_everyone ?p1 (penv s))"
  define s1 where "s1 = s\<lparr>pipes := (pipes s)[i := ?p2], penv := snd (wake_everyone ?p1 (penv s))\<rparr>"
  have lt: "i < length (pipes s)" and used: "p_used ?p" using i by (auto simp: slot_used_def)
  have live: "ring_live ?p" using pipes_wfD(2) [OF wf i] .
  have sum: "p_readers ?p2 + p_writers ?p2 = p_readers ?p + p_writers ?p - 1"
    and nonneg: "0 \<le> p_readers ?p2" "0 \<le> p_writers ?p2"
    using live cnt by (auto simp: ring_live_def)
  have lastone: "p_readers ?p2 = 0 \<and> p_writers ?p2 = 0 \<longleftrightarrow> lastone"
    using sum nonneg unfolding lastone_def by auto
  have put: "ring_put i reader s = (if lastone then ring_free i s1 else s1)"
    unfolding ring_put_def Let_def lastone [symmetric] case_prod_unfold s1_def by (rule refl)
  have s1: "slot_used s1 = slot_used s" "slot_page s1 = slot_page s" "pool s1 = pool s"
    "length (pipes s1) = length (pipes s)" "pipes s1 ! i = ?p2" "j \<noteq> i \<Longrightarrow> pipes s1 ! j = pipes s ! j" for j
    using lt used by (auto simp: s1_def slot_used_def slot_page_def fun_eq_iff nth_list_update)
  have "pipes_wf (ring_put i reader s) \<and> slot_used (ring_put i reader s) = (slot_used s)(i := \<not> lastone) \<and>
      page_refs (pool (ring_put i reader s)) =
        (if lastone then (page_refs (pool s))(slot_page s i := 0) else page_refs (pool s)) \<and>
      (\<not> lastone \<longrightarrow> slot_page (ring_put i reader s) = slot_page s)"
  proof (cases lastone)
    case True
    have pre: "pmm_wf (pool s1)" "i < length (pipes s1)" "page_refs (pool s1) (slot_page s1 i) = 1"
      "\<And>j. slot_used s1 j \<Longrightarrow> j \<noteq> i \<Longrightarrow> ring_live (pipes s1 ! j) \<and>
         page_refs (pool s1) (slot_page s1 j) = 1 \<and> slot_page s1 j \<noteq> slot_page s1 i"
      "\<And>j k. slot_used s1 j \<Longrightarrow> slot_used s1 k \<Longrightarrow> slot_page s1 j = slot_page s1 k \<Longrightarrow> j = k"
      using pipes_wfD [OF wf] i lt by (auto simp: s1)
    show ?thesis
      using True ring_free_spec [OF pre] unfolding put by (simp add: s1)
  next
    case False
    have "ring_live ?p2"
      using live nonneg sum False unfolding ring_live_def lastone_def by auto
    then have "pipes_wf s1"
      using used by (intro pipes_wf_update(1) [OF wf i, of ?p2]) (auto simp: slot_page_def s1_def)
    then show ?thesis using False i s1 unfolding put by (simp add: fun_upd_idem)
  qed
  then show "pipes_wf (ring_put i reader s)"
    "slot_used (ring_put i reader s) = (slot_used s)(i := \<not> lastone)"
    "page_refs (pool (ring_put i reader s)) =
           (if lastone then (page_refs (pool s))(slot_page s i := 0) else page_refs (pool s))"
    "\<not> lastone \<Longrightarrow> slot_page (ring_put i reader s) = slot_page s" by blast+
  show "\<not> lastone \<Longrightarrow> p_readers (pipes (ring_put i reader s) ! i) =
           (if reader then p_readers (pipes s ! i) - 1 else p_readers (pipes s ! i))"
    "\<not> lastone \<Longrightarrow> p_writers (pipes (ring_put i reader s) ! i) =
           (if reader then p_writers (pipes s ! i) else p_writers (pipes s ! i) - 1)"
    by (auto simp: put s1)
  show "length (pipes (ring_put i reader s)) = length (pipes s)"
    "j \<noteq> i \<Longrightarrow> pipes (ring_put i reader s) ! j = pipes s ! j"
    by (auto simp: put ring_free_def s1)
qed

text \<open>Closing the only reader and the only writer, in either order.\<close>

lemma put_both:
  fixes reader :: bool
  assumes wf: "pipes_wf s" and i: "slot_used s i"
    and ends: "p_readers (pipes s ! i) = 1" "p_writers (pipes s ! i) = 1"
  defines "s' \<equiv> ring_put i (\<not> reader) (ring_put i reader s)"
  shows "pipes_wf s'" and "slot_used s' = (slot_used s)(i := False)"
    and "page_refs (pool s') = (page_refs (pool s))(slot_page s i := 0)"
    and "length (pipes s') = length (pipes s)" and "j \<noteq> i \<Longrightarrow> pipes s' ! j = pipes s ! j"
proof -
  have "if reader then 0 < p_readers (pipes s ! i) else 0 < p_writers (pipes s ! i)"
    using ends by simp
  note a = ring_put_spec [OF wf i this]
  let ?s1 = "ring_put i reader s"
  have i1: "slot_used ?s1 i" using a(2) ends by simp
  have ends1: "p_readers (pipes ?s1 ! i) = (if reader then 0 else 1)"
    "p_writers (pipes ?s1 ! i) = (if reader then 1 else 0)"
    using a(4,5) ends by auto
  then have "if \<not> reader then 0 < p_readers (pipes ?s1 ! i) else 0 < p_writers (pipes ?s1 ! i)"
    by (cases reader) auto
  note b = ring_put_spec [OF a(1) i1 this]
  have lastone: "p_readers (pipes ?s1 ! i) + p_writers (pipes ?s1 ! i) = 1" using ends1 by simp
  show "pipes_wf s'" unfolding s'_def by (rule b(1))
  show "slot_used s' = (slot_used s)(i := False)"
    unfolding s'_def b(2) a(2) using lastone by simp
  show "page_refs (pool s') = (page_refs (pool s))(slot_page s i := 0)"
    unfolding s'_def b(3) using lastone a(3,8) ends by simp
  show "length (pipes s') = length (pipes s)" "j \<noteq> i \<Longrightarrow> pipes s' ! j = pipes s ! j"
    unfolding s'_def using a(6,7) b(6,7) by simp_all
qed

text \<open>A ring fresh from \<open>ring_alloc\<close>.\<close>

lemma alloc_resultD:
  assumes "alloc_result (Some i) s s'"
  shows "slot_used s' i" and "\<not> slot_used s i" and "slot_used s' = (slot_used s)(i := True)"
    and "p_readers (pipes s' ! i) = 1" and "p_writers (pipes s' ! i) = 1"
    and "ring_items (pipes s' ! i) = []"
    and "page_refs (pool s') = (page_refs (pool s))(slot_page s' i := 1)"
    and "page_refs (pool s) (slot_page s' i) = 0"
    and "j \<noteq> i \<Longrightarrow> pipes s' ! j = pipes s ! j" and "i < length (pipes s)"
proof -
  obtain pa where pa: "pipes s' = (pipes s)[i := new_ring pa]" "page_refs (pool s) pa = 0"
    "page_refs (pool s') = (page_refs (pool s))(pa := 1)" and lt: "i < length (pipes s)"
    and u: "slot_used s' = (slot_used s)(i := True)" "\<not> slot_used s i"
    using assms by (auto simp: alloc_result_def)
  have at: "pipes s' ! i = new_ring pa" using pa(1) lt by simp
  then have page: "slot_page s' i = pa" by (simp add: slot_page_def new_ring_def)
  show "slot_used s' i" "\<not> slot_used s i" "slot_used s' = (slot_used s)(i := True)"
    "i < length (pipes s)" using u lt by auto
  show "p_readers (pipes s' ! i) = 1" "p_writers (pipes s' ! i) = 1"
    unfolding at by (simp_all add: new_ring_def)
  show "ring_items (pipes s' ! i) = []" unfolding at by (rule new_ring_live)
  show "page_refs (pool s') = (page_refs (pool s))(slot_page s' i := 1)"
    "page_refs (pool s) (slot_page s' i) = 0" using pa(2,3) page by auto
  show "j \<noteq> i \<Longrightarrow> pipes s' ! j = pipes s ! j" using pa(1) by simp
qed

lemma pipes_wf_free:
  assumes wf: "pipes_wf s" and i: "slot_used s i"
  shows "pipes_wf (ring_free i s)" and "slot_used (ring_free i s) = (slot_used s)(i := False)"
    and "page_refs (pool (ring_free i s)) = (page_refs (pool s))(slot_page s i := 0)"
proof -
  have "i < length (pipes s)" using i by (simp add: slot_used_def)
  then have pre: "pmm_wf (pool s)" "i < length (pipes s)" "page_refs (pool s) (slot_page s i) = 1"
    "\<And>j. slot_used s j \<Longrightarrow> j \<noteq> i \<Longrightarrow> ring_live (pipes s ! j) \<and>
       page_refs (pool s) (slot_page s j) = 1 \<and> slot_page s j \<noteq> slot_page s i"
    "\<And>j k. slot_used s j \<Longrightarrow> slot_used s k \<Longrightarrow> slot_page s j = slot_page s k \<Longrightarrow> j = k"
    using pipes_wfD [OF wf] i by auto
  show "pipes_wf (ring_free i s)" "slot_used (ring_free i s) = (slot_used s)(i := False)"
    "page_refs (pool (ring_free i s)) = (page_refs (pool s))(slot_page s i := 0)"
    by (rule ring_free_spec [OF pre]; assumption)+
qed

definition pipe_created :: "nat \<Rightarrow> pstate \<Rightarrow> pstate \<Rightarrow> bool" where
  "pipe_created i s s' \<longleftrightarrow> slot_used s' = (slot_used s)(i := True) \<and> \<not> slot_used s i \<and>
     page_refs (pool s') = (page_refs (pool s))(slot_page s' i := 1) \<and>
     page_refs (pool s) (slot_page s' i) = 0 \<and>
     p_readers (pipes s' ! i) = 1 \<and> p_writers (pipes s' ! i) = 1 \<and> ring_items (pipes s' ! i) = []"

lemma reader_flags:
  assumes "\<not> has flags (NOT (O_NONBLOCK OR O_CLOEXEC))"
  shows "((O_RDONLY OR flags) AND NOT O_CLOEXEC) AND O_ACCMODE \<noteq> O_WRONLY"
proof -
  let ?f = "((O_RDONLY OR flags) AND NOT O_CLOEXEC) AND O_ACCMODE"
  have z: "flags AND NOT (O_NONBLOCK OR O_CLOEXEC) = 0" using assms by (simp add: has_def)
  have bits: "\<not> bit (O_NONBLOCK OR O_CLOEXEC) 0" by (simp add: kdefs bit_simps)
  show ?thesis
  proof
    assume "?f = O_WRONLY"
    then have "bit ?f 0" by (simp add: O_WRONLY_def)
    then have "bit flags 0" by (simp add: bit_simps O_RDONLY_def)
    then have "bit (flags AND NOT (O_NONBLOCK OR O_CLOEXEC)) 0" using bits by (simp add: bit_simps)
    then show False using z by simp
  qed
qed

lemma pipe_create_spec:
  assumes wf: "pipes_wf s" and cr: "pipe_create flags r w s = (res, s')"
  shows "pipes_wf s' \<and>
    (case res of
       Inl err \<Rightarrow> slot_used s' = slot_used s \<and> page_refs (pool s') = page_refs (pool s)
     | Inr (i, rfd, wfd) \<Rightarrow> pipe_created i s s' \<and> r = Inr rfd \<and> w = Inr wfd)"
proof (cases "has flags (NOT (O_NONBLOCK OR O_CLOEXEC))")
  case True
  then have "res = Inl EINVAL" "s' = s" using cr by (simp_all add: pipe_create_def)
  then show ?thesis using wf by simp
next
  case False
  obtain a s1 where al: "ring_alloc s = (a, s1)" by fastforce
  note A = ring_alloc_spec [OF wf al]
  show ?thesis
  proof (cases a)
    case None
    then have "res = Inl ENFILE" "s' = s1" using cr al False by (simp_all add: pipe_create_def)
    then show ?thesis using A None by (simp add: alloc_result_def)
  next
    case (Some i)
    note R = alloc_resultD [OF A [THEN conjunct2, unfolded Some]]
    have restore: "(slot_used s1)(i := False) = slot_used s"
      "(page_refs (pool s1))(slot_page s1 i := 0) = page_refs (pool s)"
      using R(2,3,7,8) by (auto simp: fun_eq_iff)
    consider (rfail) err where "r = Inl err" | (wfail) rfd err where "r = Inr rfd" "w = Inl err"
      | (both) rfd wfd where "r = Inr rfd" "w = Inr wfd" by (metis sumE)
    then show ?thesis
    proof cases
      case rfail
      then have "res = Inl err" "s' = ring_free i s1"
        using cr al False Some by (simp_all add: pipe_create_def)
      then show ?thesis using pipes_wf_free [OF _ R(1)] A restore by simp
    next
      case wfail
      let ?p = "(pipes s1 ! i)\<lparr>p_writers := 0\<rparr>"
      let ?s2 = "s1\<lparr>pipes := (pipes s1)[i := ?p]\<rparr>"
      have live: "ring_live ?p"
        using pipes_wfD(2) [OF A [THEN conjunct1] R(1)] R(4) by (simp add: ring_live_def)
      have used: "p_used ?p" using R(1) by (simp add: slot_used_def)
      note U = pipes_wf_update [OF A [THEN conjunct1] R(1) live used _, of ?s2]
      have lt: "i < length (pipes s1)" using R(1) by (simp add: slot_used_def)
      have eq: "res = Inl err" "s' = ring_put i True ?s2"
        using cr al False Some wfail reader_flags [OF False] by (simp_all add: pipe_create_def pipe_close_def)
      have s2: "pipes_wf ?s2" "slot_used ?s2 = slot_used s1" "slot_page ?s2 = slot_page s1"
        using U by (auto simp: slot_page_def)
      have P: "pipes_wf (ring_put i True ?s2)"
        "slot_used (ring_put i True ?s2) = (slot_used ?s2)(i := False)"
        "page_refs (pool (ring_put i True ?s2)) = (page_refs (pool ?s2))(slot_page ?s2 i := 0)"
        using ring_put_spec(1-3) [OF s2(1), of i True] s2(2) R(1,4) lt by auto
      then show ?thesis using restore by (simp add: eq s2(2,3))
    next
      case both
      then have "res = Inr (i, rfd, wfd)" "s' = s1"
        using cr al False Some by (simp_all add: pipe_create_def)
      then show ?thesis using A R both by (simp add: pipe_created_def)
    qed
  qed
qed

section \<open>Properties\<close>

text \<open>The calls of any number of tasks on one ring, one turn at a time, with what they have put
  in and taken out so far.\<close>

fun taken_out :: "u32 \<Rightarrow> (errno + u8 list) outcome \<Rightarrow> u8 list" where
  "taken_out how (Ret (Inr out)) = (if has how RW_PEEK then [] else out)"
| "taken_out how r = []"

inductive ring_step :: "pipe \<times> env \<times> u8 list \<times> u8 list \<Rightarrow> pipe \<times> env \<times> u8 list \<times> u8 list \<Rightarrow> bool" where
  reads: "ring_read len how sig c p e = (r, p', e') \<Longrightarrow>
     ring_step (p, e, sent, got) (p', e', sent, got @ taken_out how r)"
| writes: "done \<le> length bs \<Longrightarrow> ring_write bs how sig c done p e = (r, p', e') \<Longrightarrow>
     ring_step (p, e, sent, got)
       (p', e', sent @ take (written done r - done) (drop done bs), got)"

lemma taken_out_items:
  assumes "ring_ok p" and "ring_read len how sig c p e = (r, p', e')"
  shows "ring_items p = taken_out how r @ ring_items p'"
  using ring_read_spec [OF assms] by (cases "(how, r)" rule: taken_out.cases) (auto simp: read_post_def)

definition in_order :: "pipe \<times> env \<times> u8 list \<times> u8 list \<Rightarrow> bool" where
  "in_order t \<longleftrightarrow> (case t of (p, e, sent, got) \<Rightarrow> got @ ring_items p = sent \<and> ring_ok p)"

lemma ring_step_in_order: "ring_step t t' \<Longrightarrow> in_order t \<Longrightarrow> in_order t'"
proof (induction rule: ring_step.induct)
  case (reads len how sig c p e r p' e' sent got)
  then have ok: "ring_ok p" by (simp add: in_order_def)
  show ?case
    using reads ring_read_spec [OF ok reads(1)] taken_out_items [OF ok reads(1)]
    by (simp add: in_order_def)
next
  case (writes "done" bs how sig c p e r p' e' sent got)
  then have ok: "ring_ok p" by (simp add: in_order_def)
  show ?case
    using writes(3) ring_write_spec [OF ok writes(1,2)] by (auto simp: in_order_def)
qed

text \<open>C13: a ring delivers what was written to it, once and in order.  However the reads and
  writes of any tasks interleave, the bytes read so far followed by the bytes still in the ring
  are exactly the bytes the writes have accepted so far.\<close>

theorem ring_delivers_in_order:
  assumes "ring_step\<^sup>*\<^sup>* (new_ring pa, e0, [], []) (p, e, sent, got)"
  shows "got @ ring_items p = sent \<and> ring_ok p"
proof -
  have "in_order (new_ring pa, e0, [], [])"
    using new_ring_live [of pa] by (simp add: in_order_def ring_live_def)
  with assms have "in_order (p, e, sent, got)"
    by (induction rule: rtranclp_induct) (auto intro: ring_step_in_order)
  then show ?thesis by (simp add: in_order_def)
qed

text \<open>An idle environment.\<close>

definition quiet :: env where
  "quiet = \<lparr>made_ready = [], poll_wait = [], signals = []\<rparr>"

theorem ring_delivers_in_order_witness:
  "\<exists>p e. ring_step\<^sup>*\<^sup>* (new_ring 0x2000, quiet, [], []) (p, e, [1, 2, 3], []) \<and> ring_items p = [1, 2, 3]"
proof -
  obtain r p e where w: "ring_write [1, 2, 3] 0 False 7 0 (new_ring 0x2000) quiet = (r, p, e)"
    using prod_cases3 by blast
  have "written 0 r = 3"
    using w by (auto simp: ring_write.simps ring_write_turn_def Let_def new_ring_def zero_pipe_def
        PIPE_BUF_def PIPE_SIZE_def wake_everyone_def split: prod.splits)
  then have "ring_step\<^sup>*\<^sup>* (new_ring 0x2000, quiet, [], []) (p, e, [1, 2, 3], [])"
    using ring_step.writes [OF _ w, of "[]" "[]"] by (auto intro: r_into_rtranclp)
  from this ring_delivers_in_order [OF this] show ?thesis by auto
qed

text \<open>C17: small writes are atomic.  A write of at most \<^verbatim>\<open>PIPE_BUF\<close> bytes either puts all its bytes
  into the ring, one after the other, and returns their number, or puts in none and fails or
  sleeps; it puts them in exactly when someone can read and there is room for all of them.\<close>

theorem small_writes_are_atomic:
  assumes "ring_ok p" and "0 < length bs" and "length bs \<le> PIPE_BUF"
    and "ring_write bs how sig c 0 p e = (r, p', e')"
  shows "if p_readers p \<noteq> 0 \<and> length bs \<le> ring_room p
     then r = WDone (Inr (length bs)) \<and> ring_items p' = ring_items p @ bs
     else ring_items p' = ring_items p \<and>
          r \<in> {WDone (Inl EPIPE), WDone (Inl EAGAIN), WDone (Inl EINTR), WAsleep 0}"
proof (cases "p_readers p \<noteq> 0 \<and> length bs \<le> ring_room p")
  case True
  obtain p1 e1 where turn: "ring_write_turn bs how sig c 0 p e = (WMore (length bs), p1, e1)"
    using True assms(2,3) ring_room_word [OF assms(1)]
    by (cases "wake_everyone (ring_in bs p) e") (auto simp: ring_write_turn_def Let_def)
  note spec = ring_write_turn_spec [OF assms(1) turn]
  have "ring_write_turn bs how sig c (length bs) p1 e1 = (WRet (Inr (length bs)), p1, e1)"
    by (simp add: ring_write_turn_def)
  then have "r = WDone (Inr (length bs))" "p' = p1"
    using assms(4) turn by (simp_all add: ring_write_unfold)
  then show ?thesis using True spec by simp
next
  case False
  obtain r1 p1 e1 where turn: "ring_write_turn bs how sig c 0 p e = (r1, p1, e1)"
    using prod_cases3 by blast
  have "r1 \<in> {WRet (Inl EPIPE), WRet (Inl EAGAIN), WRet (Inl EINTR), WBlock}"
    using False assms(2,3) turn ring_room_word [OF assms(1)]
    by (auto simp: ring_write_turn_def Let_def split: if_splits)
  then show ?thesis
    using False assms(4) turn ring_write_turn_spec(3) [OF assms(1) turn]
    by (auto simp: ring_write_unfold)
qed

theorem small_writes_are_atomic_witness:
  "\<exists>r p' e'. ring_write [9, 8] 0 False 7 0 (new_ring 0x2000) quiet = (r, p', e') \<and>
     r = WDone (Inr 2) \<and> ring_items p' = [9, 8]"
proof -
  obtain r p' e' where w: "ring_write [9, 8] 0 False 7 0 (new_ring 0x2000) quiet = (r, p', e')"
    using prod_cases3 by blast
  have ok: "ring_ok (new_ring 0x2000)" using new_ring_live by (simp add: ring_live_def)
  have "p_readers (new_ring 0x2000) \<noteq> 0 \<and> length [9, 8 :: u8] \<le> ring_room (new_ring 0x2000)"
    by (simp add: new_ring_def zero_pipe_def ring_room_def)
  then show ?thesis
    using small_writes_are_atomic [OF ok _ _ w] new_ring_live(2) [of "0x2000"] w
    by (simp add: PIPE_BUF_def)
qed

text \<open>C18: reading.  A read returns the oldest bytes, as many as are there up to the length asked
  for, and takes them unless it only peeks; it returns nothing for a non-empty request only when
  no writer is left; it fails or sleeps only on an empty ring that a writer still has open.\<close>

theorem ring_read_correct:
  assumes "ring_ok p" and "ring_read len how sig c p e = (r, p', e')"
  shows "ring_ok p' \<and> read_post len how sig c p r p'"
  using assms by (rule ring_read_spec)

theorem ring_read_correct_witness:
  "\<exists>r p' e'. ring_read 10 0 False 7 (new_ring 0x2000) quiet = (r, p', e') \<and> r = Block \<and>
     read_post 10 0 False 7 (new_ring 0x2000) r p'"
proof -
  obtain r p' e' where rd: "ring_read 10 0 False 7 (new_ring 0x2000) quiet = (r, p', e')"
    using prod_cases3 by blast
  have "r = Block" using rd by (auto simp: ring_read_def new_ring_def zero_pipe_def kdefs)
  then show ?thesis
    using ring_read_correct [OF _ rd] new_ring_live [of "0x2000"] rd by (simp add: ring_live_def)
qed

text \<open>C24: \<open>pipe_create\<close> leaks nothing.  If it fails, whichever step failed, the slots in use and
  the holders of every page are what they were; if it succeeds there is one new empty ring with
  one reader and one writer, its page is held once, and closing the two ends in either order
  gives the page and the slot back.\<close>

theorem pipe_create_no_leak:
  assumes "pipes_wf s" and "pipe_create flags r w s = (res, s')"
  shows "pipes_wf s' \<and>
    (case res of
       Inl err \<Rightarrow> slot_used s' = slot_used s \<and> page_refs (pool s') = page_refs (pool s)
     | Inr (i, rfd, wfd) \<Rightarrow> pipe_created i s s' \<and>
         (\<forall>reader. let s2 = ring_put i (\<not> reader) (ring_put i reader s')
            in pipes_wf s2 \<and> slot_used s2 = slot_used s \<and> page_refs (pool s2) = page_refs (pool s)))"
proof (cases res)
  case (Inl err)
  then show ?thesis using pipe_create_spec [OF assms] by simp
next
  case (Inr x)
  obtain i rfd wfd where x: "x = (i, rfd, wfd)" by (metis prod_cases3)
  have wf: "pipes_wf s'" and made: "pipe_created i s s'"
    using pipe_create_spec [OF assms] Inr x by auto
  have used: "slot_used s' i" using made by (simp add: pipe_created_def)
  have restored: "(slot_used s')(i := False) = slot_used s"
    "(page_refs (pool s'))(slot_page s' i := 0) = page_refs (pool s)"
    using made by (auto simp: pipe_created_def fun_eq_iff)
  have "pipes_wf (ring_put i (\<not> reader) (ring_put i reader s')) \<and>
      slot_used (ring_put i (\<not> reader) (ring_put i reader s')) = slot_used s \<and>
      page_refs (pool (ring_put i (\<not> reader) (ring_put i reader s'))) = page_refs (pool s)" for reader
    using put_both(1-3) [OF wf used, of reader] made restored by (simp add: pipe_created_def)
  then show ?thesis using wf made Inr x by (simp add: Let_def)
qed

text \<open>The tables at boot, over an eight page pool.\<close>

definition demo_pipes :: pstate where
  "demo_pipes = \<lparr>pipes = replicate PIPE_MAX zero_pipe,
     uends = replicate PIPE_MAX \<lparr>u_used = False, u_rx = 0, u_tx = 0, shut_rd = False, shut_wr = False\<rparr>,
     fifo_wait = [], pool = demo_pool, penv = quiet\<rparr>"

lemma demo_pipes_wf: "pipes_wf demo_pipes"
  by (auto simp: pipes_wf_def demo_pipes_def slot_used_def zero_pipe_def demo_pool_facts)

theorem pipe_create_no_leak_witness:
  "pipes_wf demo_pipes \<and>
   (\<exists>err s'. pipe_create 0 (Inr 3) (Inl EMFILE) demo_pipes = (Inl err, s') \<and>
      page_refs (pool s') = page_refs demo_pool)"
proof -
  obtain res s' where cr: "pipe_create 0 (Inr 3) (Inl EMFILE) demo_pipes = (res, s')" by fastforce
  then obtain err where "res = Inl err"
    by (auto simp: pipe_create_def split: if_splits option.splits prod.splits)
  then show ?thesis
    using pipe_create_no_leak [OF demo_pipes_wf cr] cr demo_pipes_wf by (simp add: demo_pipes_def)
qed

lemma ring_read_peek:
  assumes "ring_ok p" and "ring_items p \<noteq> []" and "has how RW_PEEK" and "0 < n" and "n < 4294967296"
  shows "ring_read (of_nat n) how sig c p e = (Ret (Inr (take n (ring_items p))), p, e)"
proof -
  obtain r p' e' where rd: "ring_read (of_nat n) how sig c p e = (r, p', e')" using prod_cases3 by blast
  have "(of_nat n :: u32) \<noteq> 0" using assms(4,5) of_nat_eq_u32 [of n 0] by simp
  moreover have "0 < p_count p" using assms(2) by (simp add: ring_items_empty word_gt_0)
  ultimately have "p' = p \<and> e' = e \<and> (\<exists>out. r = Ret (Inr out))"
    using rd assms(3) by (auto simp: ring_read_def Let_def)
  then show ?thesis
    using ring_read_spec [OF assms(1) rd] rd assms(5) by (auto simp: read_post_def)
qed

lemma recv_all_peek:
  assumes p: "ring_ok p" "ring_items p = xs" "xs \<noteq> []" "has how RW_PEEK" and len: "len < 4294967296"
    and acc: "length acc \<le> len" "length acc = len \<or> length xs dvd length acc"
      "\<forall>k < length acc. acc ! k = xs ! (k mod length xs)"
  shows "\<exists>out. recv_all len how sig c acc p e = (RDone (Inr out), p, e) \<and> length out = len \<and>
      (\<forall>k < len. out ! k = xs ! (k mod length xs))"
  using acc
proof (induction "len - length acc" arbitrary: acc rule: less_induct)
  case less
  show ?case
  proof (cases "length acc = len")
    case True
    then show ?thesis using less(4) by (simp add: recv_all.simps [of len])
  next
    case False
    then have lt: "length acc < len" "length xs dvd length acc" using less(2,3) by auto
    let ?out = "take (len - length acc) xs"
    have "ring_read (of_nat (len - length acc)) how sig c p e = (Ret (Inr ?out), p, e)"
      using ring_read_peek [OF p(1) _ p(4), of "len - length acc"] p(2,3) lt len by simp
    moreover have ne: "?out \<noteq> []" using p(3) lt by simp
    ultimately have step: "recv_all len how sig c acc p e = recv_all len how sig c (acc @ ?out) p e"
      using lt by (subst recv_all.simps) simp
    have shorter: "len - length (acc @ ?out) < len - length acc"
      using ne lt by (cases xs) auto
    have "\<forall>k < length (acc @ ?out). (acc @ ?out) ! k = xs ! (k mod length xs)"
    proof (intro allI impI)
      fix k
      assume k: "k < length (acc @ ?out)"
      show "(acc @ ?out) ! k = xs ! (k mod length xs)"
      proof (cases "k < length acc")
        case True
        then show ?thesis using less(4) by (simp add: nth_append)
      next
        case False
        then obtain j where j: "k = length acc + j" "j < length ?out"
          using k by (auto simp: nth_append le_iff_add not_less)
        then have "k mod length xs = j" using lt(2) by (auto elim!: dvdE)
        then show ?thesis using j by (simp add: nth_append)
      qed
    qed
    moreover have "length (acc @ ?out) = len \<or> length xs dvd length (acc @ ?out)"
      using lt by (cases "len - length acc \<le> length xs") (auto simp: min_def)
    ultimately show ?thesis
      unfolding step using lt(1) by (intro less(1) [OF shorter]) auto
  qed
qed

text \<open>C35: a socket pair's \<^verbatim>\<open>MSG_PEEK | MSG_WAITALL\<close> repeats data.  When the ring holds fewer
  bytes than asked for, each turn of the \<^verbatim>\<open>MSG_WAITALL\<close> loop peeks at the same bytes again: the
  call returns the full length at once, filled with repetitions of what the ring holds.\<close>

theorem recv_peek_waitall_repeats:
  assumes "\<not> shut_rd (uends s ! k)" and "u_rx (uends s ! k) = i" and "ring_ok (pipes s ! i)"
    and "ring_items (pipes s ! i) = xs" and "xs \<noteq> []" and "len < 2 ^ 32"
  shows "\<exists>out s'. usock_recv f_fl k len (MSG_PEEK OR MSG_WAITALL) sig c [] s = (RDone (Inr out), s') \<and>
    length out = len \<and> (\<forall>j. j \<in> {..<len} \<longrightarrow> out ! j = xs ! (j mod length xs))"
proof -
  let ?how = "(if has f_fl O_NONBLOCK \<or> has (MSG_PEEK OR MSG_WAITALL) MSG_DONTWAIT then RW_NONBLOCK else 0)
      OR (if has (MSG_PEEK OR MSG_WAITALL) MSG_PEEK then RW_PEEK else 0)"
  have how: "has ?how RW_PEEK" by (auto simp: kdefs)
  have wa: "has (MSG_PEEK OR MSG_WAITALL) MSG_WAITALL" by (simp add: kdefs)
  obtain out where "recv_all len ?how sig c [] (pipes s ! i) (penv s) = (RDone (Inr out), pipes s ! i, penv s)"
    "length out = len" "\<forall>j < len. out ! j = xs ! (j mod length xs)"
    using recv_all_peek [OF assms(3-5) how, of len "[]" sig c "penv s"] assms(6) by auto
  then show ?thesis
    using assms(1,2) wa by (simp add: usock_recv_def Let_def put_pipe_def)
qed

theorem recv_peek_waitall_repeats_witness:
  "\<exists>s s'. ring_items (pipes s ! 0) = [1, 2] \<and>
     usock_recv 0 0 4 (MSG_PEEK OR MSG_WAITALL) False 7 [] s = (RDone (Inr [1, 2, 1, 2]), s')"
proof -
  let ?p = "ring_in [1, 2] (new_ring 0x2000)"
  let ?s = "demo_pipes\<lparr>pipes := (pipes demo_pipes)[0 := ?p]\<rparr>"
  have "ring_ok (new_ring 0x2000)" using new_ring_live by (simp add: ring_live_def)
  then have ring: "ring_ok ?p" "ring_items ?p = [1, 2]"
    using ring_in_items [of "new_ring 0x2000" "[1, 2]"] new_ring_live(2) [of "0x2000"]
    by (simp_all add: ring_room_def new_ring_def zero_pipe_def)
  have at: "pipes ?s ! 0 = ?p" by (simp add: demo_pipes_def PIPE_MAX_def)
  have ue: "\<not> shut_rd (uends ?s ! 0)" "u_rx (uends ?s ! 0) = 0"
    by (simp_all add: demo_pipes_def PIPE_MAX_def)
  obtain out s' where out: "usock_recv 0 0 4 (MSG_PEEK OR MSG_WAITALL) False 7 [] ?s = (RDone (Inr out), s')"
    "length out = 4" "\<forall>j. j \<in> {..<4} \<longrightarrow> out ! j = [1, 2] ! (j mod length [1, 2 :: u8])"
    using recv_peek_waitall_repeats [OF ue, unfolded at, OF ring, of 4 0 False 7] by auto
  have "out = [1, 2, 1, 2]"
  proof (rule nth_equalityI)
    fix j
    assume "j < length out"
    then have "j = 0 \<or> j = 1 \<or> j = 2 \<or> j = 3" using out(2) by arith
    then show "out ! j = [1, 2, 1, 2] ! j"
      using out(3) [rule_format, of j] by (auto simp flip: numeral_2_eq_2)
  qed (simp add: out(2))
  then show ?thesis using out(1) at ring(2) by (intro exI [of _ ?s] exI [of _ s']) simp
qed

end
