(* ===== verification/Reclock.thy ===== *)
theory Reclock
  imports Waitq
begin

text \<open>
  \<^verbatim>\<open>kernel/reclock.c\<close>: POSIX record locks and open-file-description locks.  A lock is a byte
  range of a file held by an owner, a process or an open file description; all locks of the
  system are in one table of \<^verbatim>\<open>RECLOCK_MAX\<close> slots.  The table is a list, a pointer to a slot its
  index, a \<^verbatim>\<open>struct file *\<close> a number with 0 for the null pointer.

  The abstraction is \<open>holds ls k o t x\<close>: owner \<open>o\<close> holds a lock of type \<open>t\<close> on byte \<open>x\<close> of file
  \<open>k\<close>.  The carving, splitting and merging that \<^verbatim>\<open>set_range\<close> does with slots is shown to change
  exactly the bytes it was asked to change.
\<close>

section \<open>Definitions\<close>

definition RECLOCK_MAX :: nat where "RECLOCK_MAX = 128"
definition WAITER_MAX :: nat where "WAITER_MAX = 64"
definition TO_EOF :: u32 where "TO_EOF = 0xffffffff"
definition F_RDLCK :: int where "F_RDLCK = 0"
definition F_WRLCK :: int where "F_WRLCK = 1"
definition F_UNLCK :: int where "F_UNLCK = 2"

record reclock =
  l_used :: bool
  l_key :: u32
  l_pid :: int
  l_ofd :: nat
  l_type :: int
  l_start :: u32
  l_end :: u32

record lkstate =
  locks :: "reclock list"
  lock_wait :: "nat list"
  waiters :: "(int \<times> int) list"
  lenv :: env

definition same_owner :: "reclock \<Rightarrow> int \<Rightarrow> nat \<Rightarrow> bool" where
  "same_owner l pid ofd \<longleftrightarrow> (if ofd \<noteq> 0 then l_ofd l = ofd else l_ofd l = 0 \<and> l_pid l = pid)"

definition overlaps :: "reclock \<Rightarrow> u32 \<Rightarrow> u32 \<Rightarrow> bool" where
  "overlaps l s e \<longleftrightarrow> l_start l \<le> e \<and> s \<le> l_end l"

definition conflict ::
    "reclock list \<Rightarrow> u32 \<Rightarrow> int \<Rightarrow> nat \<Rightarrow> int \<Rightarrow> u32 \<Rightarrow> u32 \<Rightarrow> reclock option" where
  "conflict ls key pid ofd type s e =
     find (\<lambda>l. l_used l \<and> l_key l = key \<and> \<not> same_owner l pid ofd \<and> overlaps l s e \<and>
               (type = F_WRLCK \<or> l_type l = F_WRLCK)) ls"

definition slot :: "reclock list \<Rightarrow> nat option" where
  "slot ls = first_idx (\<lambda>l. \<not> l_used l) ls"

definition free_slots :: "reclock list \<Rightarrow> nat" where
  "free_slots ls = length (filter (\<lambda>l. \<not> l_used l) ls)"

text \<open>A lock of the owner's that \<open>[s, e]\<close> is strictly inside of: carving leaves two.\<close>

definition must_split :: "u32 \<Rightarrow> int \<Rightarrow> nat \<Rightarrow> u32 \<Rightarrow> u32 \<Rightarrow> reclock \<Rightarrow> bool" where
  "must_split key pid ofd s e l \<longleftrightarrow>
     l_used l \<and> l_key l = key \<and> same_owner l pid ofd \<and> l_start l < s \<and> e < l_end l"

text \<open>One turn of the carving loop.  \<^verbatim>\<open>slot()\<close> is never null there (\<open>carve_holds\<close>).\<close>

definition carve_step :: "u32 \<Rightarrow> int \<Rightarrow> nat \<Rightarrow> u32 \<Rightarrow> u32 \<Rightarrow> nat \<Rightarrow> reclock list \<Rightarrow> reclock list" where
  "carve_step key pid ofd s e i ls =
     (let l = ls ! i
      in if \<not> l_used l \<or> l_key l \<noteq> key \<or> \<not> same_owner l pid ofd \<or> \<not> overlaps l s e then ls
         else if l_start l < s \<and> e < l_end l then
           (case slot ls of
              None \<Rightarrow> ls
            | Some r \<Rightarrow> ls[r := l\<lparr>l_start := e + 1\<rparr>, i := l\<lparr>l_end := s - 1\<rparr>])
         else if l_start l < s then ls[i := l\<lparr>l_end := s - 1\<rparr>]
         else if e < l_end l then ls[i := l\<lparr>l_start := e + 1\<rparr>]
         else ls[i := l\<lparr>l_used := False\<rparr>])"

definition carve :: "u32 \<Rightarrow> int \<Rightarrow> nat \<Rightarrow> u32 \<Rightarrow> u32 \<Rightarrow> reclock list \<Rightarrow> reclock list" where
  "carve key pid ofd s e ls = fold (carve_step key pid ofd s e) [0..<length ls] ls"

definition merge_step ::
    "u32 \<Rightarrow> int \<Rightarrow> nat \<Rightarrow> int \<Rightarrow> nat \<Rightarrow> u32 \<times> u32 \<times> reclock list \<Rightarrow> u32 \<times> u32 \<times> reclock list" where
  "merge_step key pid ofd type i t =
     (case t of (s, e, ls) \<Rightarrow>
        let l = ls ! i
        in if \<not> l_used l \<or> l_key l \<noteq> key \<or> \<not> same_owner l pid ofd \<or> l_type l \<noteq> type then (s, e, ls)
           else if 0 < s \<and> l_end l = s - 1 then (l_start l, e, ls[i := l\<lparr>l_used := False\<rparr>])
           else if e \<noteq> TO_EOF \<and> l_start l = e + 1 then (s, l_end l, ls[i := l\<lparr>l_used := False\<rparr>])
           else (s, e, ls))"

definition merge_loop ::
    "u32 \<Rightarrow> int \<Rightarrow> nat \<Rightarrow> int \<Rightarrow> u32 \<Rightarrow> u32 \<Rightarrow> reclock list \<Rightarrow> u32 \<times> u32 \<times> reclock list" where
  "merge_loop key pid ofd type s e ls = fold (merge_step key pid ofd type) [0..<length ls] (s, e, ls)"

definition new_lock :: "u32 \<Rightarrow> int \<Rightarrow> nat \<Rightarrow> int \<Rightarrow> u32 \<Rightarrow> u32 \<Rightarrow> reclock" where
  "new_lock key pid ofd type s e =
     \<lparr>l_used = True, l_key = key, l_pid = (if ofd \<noteq> 0 then 0 else pid), l_ofd = ofd,
      l_type = type, l_start = s, l_end = e\<rparr>"

definition insert_lock :: "reclock \<Rightarrow> reclock list \<Rightarrow> reclock list" where
  "insert_lock n ls = (case slot ls of None \<Rightarrow> ls | Some i \<Rightarrow> ls[i := n])"

definition wake_locks :: "lkstate \<Rightarrow> lkstate" where
  "wake_locks st = st\<lparr>lock_wait := [], lenv := wake_list (lock_wait st) (lenv st)\<rparr>"

definition set_range ::
    "u32 \<Rightarrow> int \<Rightarrow> nat \<Rightarrow> int \<Rightarrow> u32 \<Rightarrow> u32 \<Rightarrow> lkstate \<Rightarrow> (errno + unit) \<times> lkstate" where
  "set_range key pid ofd type s e st =
     (let ls = locks st;
          splits = length (filter (must_split key pid ofd s e) ls)
      in if free_slots ls < splits + (if type \<noteq> F_UNLCK then 1 else 0) then (Inl ENOLCK, st)
         else
           let ls1 = carve key pid ofd s e ls;
               ls2 = (if type \<noteq> F_UNLCK
                      then case merge_loop key pid ofd type s e ls1 of
                             (s', e', ls') \<Rightarrow> insert_lock (new_lock key pid ofd type s' e') ls'
                      else ls1)
           in (Inr (), wake_locks (st\<lparr>locks := ls2\<rparr>)))"

text \<open>The waits-for table: \<^verbatim>\<open>blocker_of\<close> is the inner search of \<^verbatim>\<open>would_deadlock\<close>.\<close>

definition blocker_of :: "(int \<times> int) list \<Rightarrow> int \<Rightarrow> int" where
  "blocker_of ws p = (case find (\<lambda>w. fst w = p) ws of None \<Rightarrow> 0 | Some w \<Rightarrow> snd w)"

fun deadlock_walk :: "(int \<times> int) list \<Rightarrow> int \<Rightarrow> nat \<Rightarrow> int \<Rightarrow> bool" where
  "deadlock_walk ws pid 0 blocker = False"
| "deadlock_walk ws pid (Suc n) blocker =
     (if blocker = 0 then False
      else if blocker = pid then True
      else deadlock_walk ws pid n (blocker_of ws blocker))"

definition would_deadlock :: "(int \<times> int) list \<Rightarrow> int \<Rightarrow> int \<Rightarrow> bool" where
  "would_deadlock ws pid blocker = deadlock_walk ws pid WAITER_MAX blocker"

definition set_waiting :: "int \<Rightarrow> int \<Rightarrow> (int \<times> int) list \<Rightarrow> (int \<times> int) list" where
  "set_waiting pid blocker ws =
     (case first_idx (\<lambda>w. fst w = pid) ws of
        Some i \<Rightarrow> ws[i := (if blocker = 0 then 0 else pid, blocker)]
      | None \<Rightarrow>
          (case first_idx (\<lambda>w. fst w = 0) ws of
             Some i \<Rightarrow> if blocker \<noteq> 0 then ws[i := (pid, blocker)] else ws
           | None \<Rightarrow> ws))"

text \<open>\<^verbatim>\<open>struct lk\<close>: both shapes of \<^verbatim>\<open>struct flock\<close> read into one.\<close>

record lk =
  k_type :: int
  k_whence :: int
  k_pid :: int
  k_start_hi :: "32 word"
  k_start :: u32
  k_len_hi :: "32 word"
  k_len :: u32

definition fetch_lk_wide :: "int \<Rightarrow> int \<Rightarrow> 64 word \<Rightarrow> 64 word \<Rightarrow> int \<Rightarrow> lk" where
  "fetch_lk_wide type whence start len pid =
     \<lparr>k_type = type, k_whence = whence, k_pid = pid,
      k_start_hi = ucast (drop_bit 32 start), k_start = ucast start,
      k_len_hi = ucast (drop_bit 32 len), k_len = ucast len\<rparr>"

definition fetch_lk_narrow :: "int \<Rightarrow> int \<Rightarrow> 32 word \<Rightarrow> 32 word \<Rightarrow> int \<Rightarrow> lk" where
  "fetch_lk_narrow type whence start len pid =
     \<lparr>k_type = type, k_whence = whence, k_pid = pid,
      k_start_hi = (if sint start < 0 then -1 else 0), k_start = start,
      k_len_hi = (if sint len < 0 then -1 else 0), k_len = len\<rparr>"

text \<open>\<^verbatim>\<open>range_of\<close>: \<open>pos\<close> is the file's position and \<open>fsize\<close> what \<^verbatim>\<open>vfs_file_stat\<close> answers.  The sum
  of the high halves of the start, signed in the code, wraps.\<close>

definition lk_base :: "u32 \<Rightarrow> u32 option \<Rightarrow> int \<Rightarrow> u32 option" where
  "lk_base pos fsize whence =
     (if whence = 0 then Some 0 else if whence = 1 then Some pos else if whence = 2 then fsize else None)"

definition range_of :: "u32 \<Rightarrow> u32 option \<Rightarrow> lk \<Rightarrow> errno + (u32 \<times> u32)" where
  "range_of pos fsize k =
     (case lk_base pos fsize (k_whence k) of
        None \<Rightarrow> Inl EINVAL
      | Some base0 \<Rightarrow>
          let start = base0 + k_start k;
              start_hi = k_start_hi k + (if start < base0 then 1 else 0)
          in if sint start_hi < 0 then Inl EINVAL
             else if 0 < sint start_hi then Inl EOVERFLOW
             else if k_len_hi k = 0 \<and> k_len k = 0 then Inr (start, TO_EOF)
             else if 0 \<le> sint (k_len_hi k) then
               let end = start + k_len k - 1
               in Inr (start, if 0 < sint (k_len_hi k) \<or> end < start then TO_EOF else end)
             else
               let back = - k_len k
               in if k_len_hi k \<noteq> -1 \<or> start < back then Inl EINVAL
                  else Inr (start - back, start - 1))"

text \<open>\<^verbatim>\<open>reclock_fcntl\<close> after its argument has been fetched and its range found.  One turn of the
  wait loop either ends the call or leaves the task asleep on \<^verbatim>\<open>lock_wait\<close>.\<close>

datatype lkturn = LRet "errno + unit" | LSleep

definition setlk_turn ::
    "u32 \<Rightarrow> int \<Rightarrow> nat \<Rightarrow> int \<Rightarrow> u32 \<Rightarrow> u32 \<Rightarrow> bool \<Rightarrow> bool \<Rightarrow> nat \<Rightarrow> lkstate \<Rightarrow> lkturn \<times> lkstate" where
  "setlk_turn key pid ofd type s e blocking sig c st =
     (case (if type = F_UNLCK then None else conflict (locks st) key pid ofd type s e) of
        None \<Rightarrow>
          (case set_range key pid ofd type s e (st\<lparr>waiters := set_waiting pid 0 (waiters st)\<rparr>) of
             (r, st') \<Rightarrow> (LRet r, st'))
      | Some l \<Rightarrow>
          if \<not> blocking then (LRet (Inl EAGAIN), st)
          else if ofd = 0 \<and> l_ofd l = 0 \<and> would_deadlock (waiters st) pid (l_pid l) then
            (LRet (Inl EDEADLK), st)
          else if sig then
            (LRet (Inl EINTR), st\<lparr>waiters := set_waiting pid 0 (waiters st)\<rparr>)
          else
            (LSleep, st\<lparr>waiters := set_waiting pid (if l_ofd l \<noteq> 0 then 0 else l_pid l) (waiters st),
                        lock_wait := lock_wait st @ [c]\<rparr>))"

definition getlk :: "reclock list \<Rightarrow> u32 \<Rightarrow> int \<Rightarrow> nat \<Rightarrow> int \<Rightarrow> u32 \<Rightarrow> u32 \<Rightarrow> errno + (int \<times> u32 \<times> u32 \<times> int)" where
  "getlk ls key pid ofd type s e =
     (if type = F_UNLCK then Inl EINVAL
      else
        case conflict ls key pid ofd type s e of
          None \<Rightarrow> Inr (F_UNLCK, s, if e = TO_EOF then 0 else e - s + 1, 0)
        | Some l \<Rightarrow>
            Inr (l_type l, l_start l, if l_end l = TO_EOF then 0 else l_end l - l_start l + 1,
                 if l_ofd l \<noteq> 0 then -1 else l_pid l))"

text \<open>Which call a command is: the shape of its argument, whether it asks, whether it waits and
  whether the owner is the description.\<close>

record lkcmd =
  c_wide :: bool
  c_getting :: bool
  c_blocking :: bool
  c_ofd :: bool

definition lk_command :: "int \<Rightarrow> bool \<Rightarrow> lkcmd option" where
  "lk_command cmd wide =
     (if cmd = 12 \<or> cmd = 5 then Some \<lparr>c_wide = False, c_getting = True, c_blocking = False, c_ofd = False\<rparr>
      else if cmd = 14 \<or> cmd = 7 then Some \<lparr>c_wide = False, c_getting = False, c_blocking = True, c_ofd = False\<rparr>
      else if cmd = 13 \<or> cmd = 6 then Some \<lparr>c_wide = False, c_getting = False, c_blocking = False, c_ofd = False\<rparr>
      else if cmd = 36 then Some \<lparr>c_wide = wide, c_getting = True, c_blocking = False, c_ofd = True\<rparr>
      else if cmd = 38 then Some \<lparr>c_wide = wide, c_getting = False, c_blocking = True, c_ofd = True\<rparr>
      else if cmd = 37 then Some \<lparr>c_wide = wide, c_getting = False, c_blocking = False, c_ofd = True\<rparr>
      else None)"

text \<open>The checks between fetching the argument and taking the lock; \<open>acc\<close> is the descriptor's
  access mode.\<close>

definition lk_checks :: "bool \<Rightarrow> bool \<Rightarrow> u32 \<Rightarrow> u32 \<Rightarrow> u32 option \<Rightarrow> lk \<Rightarrow> errno + (u32 \<times> u32)" where
  "lk_checks ofd getting acc pos fsize k =
     (if k_type k \<noteq> F_RDLCK \<and> k_type k \<noteq> F_WRLCK \<and> k_type k \<noteq> F_UNLCK then Inl EINVAL
      else if ofd \<and> k_pid k \<noteq> 0 then Inl EINVAL
      else
        case range_of pos fsize k of
          Inl err \<Rightarrow> Inl err
        | Inr r \<Rightarrow>
            if \<not> getting \<and> (k_type k = F_RDLCK \<and> acc = O_WRONLY \<or> k_type k = F_WRLCK \<and> acc = O_RDONLY)
            then Inl EBADF else Inr r)"

definition drop_locks :: "bool \<Rightarrow> u32 \<Rightarrow> int \<Rightarrow> nat \<Rightarrow> lkstate \<Rightarrow> lkstate" where
  "drop_locks by_key key pid ofd st =
     (let match = (\<lambda>l. l_used l \<and> (\<not> by_key \<or> l_key l = key) \<and> same_owner l pid ofd);
          st' = st\<lparr>locks := map (\<lambda>l. if match l then l\<lparr>l_used := False\<rparr> else l) (locks st)\<rparr>
      in if list_ex match (locks st) then wake_locks st' else st')"

definition reclock_closed :: "u32 \<Rightarrow> int \<Rightarrow> lkstate \<Rightarrow> lkstate" where
  "reclock_closed key pid st =
     (if list_ex (\<lambda>l. l_used l \<and> l_ofd l = 0 \<and> l_pid l = pid) (locks st)
      then drop_locks True key pid 0 st else st)"

definition reclock_file_gone :: "nat \<Rightarrow> lkstate \<Rightarrow> lkstate" where
  "reclock_file_gone f st =
     (if list_ex (\<lambda>l. l_used l \<and> l_ofd l = f) (locks st) then drop_locks False 0 0 f st else st)"

definition reclock_exit :: "int \<Rightarrow> lkstate \<Rightarrow> lkstate" where
  "reclock_exit pid st =
     (let st1 = drop_locks False 0 pid 0 st in st1\<lparr>waiters := set_waiting pid 0 (waiters st1)\<rparr>)"

section \<open>Who holds which byte\<close>

datatype lowner = Process int | Description nat

definition owner_of :: "reclock \<Rightarrow> lowner" where
  "owner_of l = (if l_ofd l \<noteq> 0 then Description (l_ofd l) else Process (l_pid l))"

definition own :: "int \<Rightarrow> nat \<Rightarrow> lowner" where
  "own pid ofd = (if ofd \<noteq> 0 then Description ofd else Process pid)"

lemma same_owner_own: "same_owner l pid ofd \<longleftrightarrow> owner_of l = own pid ofd"
  by (auto simp: same_owner_def owner_of_def own_def)

definition covers :: "reclock \<Rightarrow> u32 \<Rightarrow> lowner \<Rightarrow> int \<Rightarrow> u32 \<Rightarrow> bool" where
  "covers l k ow t x \<longleftrightarrow>
     l_used l \<and> l_key l = k \<and> owner_of l = ow \<and> l_type l = t \<and> l_start l \<le> x \<and> x \<le> l_end l"

definition holds :: "reclock list \<Rightarrow> u32 \<Rightarrow> lowner \<Rightarrow> int \<Rightarrow> u32 \<Rightarrow> bool" where
  "holds ls k ow t x \<longleftrightarrow> (\<exists>l \<in> set ls. covers l k ow t x)"

definition others :: "reclock list \<Rightarrow> nat \<Rightarrow> u32 \<Rightarrow> lowner \<Rightarrow> int \<Rightarrow> u32 \<Rightarrow> bool" where
  "others ls i k ow t x \<longleftrightarrow> (\<exists>j < length ls. j \<noteq> i \<and> covers (ls ! j) k ow t x)"

lemma holds_nth: "i < length ls \<Longrightarrow> holds ls k ow t x \<longleftrightarrow> covers (ls ! i) k ow t x \<or> others ls i k ow t x"
  unfolding holds_def others_def by (metis in_set_conv_nth)

lemma others_update [simp]: "others (ls[i := v]) i k ow t x = others ls i k ow t x"
  by (auto simp: others_def)

lemma holds_update:
  "i < length ls \<Longrightarrow> holds (ls[i := v]) k ow t x \<longleftrightarrow> covers v k ow t x \<or> others ls i k ow t x"
  using holds_nth [of i "ls[i := v]"] by simp

lemma not_used_covers [simp]: "\<not> l_used l \<Longrightarrow> \<not> covers l k ow t x"
  by (simp add: covers_def)

lemma holds_fill:
  "i < length ls \<Longrightarrow> \<not> l_used (ls ! i) \<Longrightarrow>
   holds (ls[i := v]) k ow t x \<longleftrightarrow> covers v k ow t x \<or> holds ls k ow t x"
  using holds_nth [of i ls] holds_update [of i ls] by simp

definition ranges_ok :: "reclock list \<Rightarrow> bool" where
  "ranges_ok ls \<longleftrightarrow> (\<forall>l \<in> set ls. l_used l \<longrightarrow> l_start l \<le> l_end l)"

text \<open>\<^verbatim>\<open>range_of\<close> can also give the empty range from a byte to the one before it; a lock of that range
  takes a slot and holds nothing.\<close>

definition near :: "u32 \<Rightarrow> u32 \<Rightarrow> bool" where
  "near s e \<longleftrightarrow> unat s \<le> unat e + 1"

definition spans_ok :: "reclock list \<Rightarrow> bool" where
  "spans_ok ls \<longleftrightarrow> (\<forall>l \<in> set ls. l_used l \<longrightarrow> near (l_start l) (l_end l))"

lemma near_le: "s \<le> e \<Longrightarrow> near s e"
  by (simp add: near_def word_le_nat_alt)

lemma ranges_spans: "ranges_ok ls \<Longrightarrow> spans_ok ls"
  by (simp add: ranges_ok_def spans_ok_def near_le)

lemma near_mono: "near s e \<Longrightarrow> s' \<le> s \<Longrightarrow> e \<le> e' \<Longrightarrow> near s' e'"
  by (simp add: near_def word_le_nat_alt)

lemma unat_dec: "s \<noteq> 0 \<Longrightarrow> unat (s - 1 :: u32) = unat s - 1"
  by (rule unat_minus_one)

lemma near_below: "near s e \<Longrightarrow> a < s \<Longrightarrow> \<not> e < s - 1"
  using unat_dec [of s] by (cases "s = 0") (auto simp: near_def word_less_nat_alt)

lemma near_above: "near s e \<Longrightarrow> e < m \<Longrightarrow> \<not> e + 1 < s"
  using inc_less_u32 [of e m] by (auto simp: near_def word_less_nat_alt)

definition free_set :: "reclock list \<Rightarrow> nat set" where
  "free_set ls = {j. j < length ls \<and> \<not> l_used (ls ! j)}"

lemma free_slots_card: "free_slots ls = card (free_set ls)"
  by (simp add: free_slots_def free_set_def length_filter_conv_card)

lemma free_set_finite [simp]: "finite (free_set ls)"
  by (simp add: free_set_def)

lemma slot_free:
  assumes "0 < card (free_set ls)"
  obtains r where "slot ls = Some r" and "r < length ls" and "\<not> l_used (ls ! r)"
proof -
  have "free_set ls \<noteq> {}" using assms by auto
  then have "slot ls \<noteq> None" by (auto simp: slot_def free_set_def)
  then obtain r where r: "slot ls = Some r" by auto
  then show ?thesis using that first_idx_SomeD [of "\<lambda>l. \<not> l_used l" ls r] by (simp add: slot_def)
qed

text \<open>Neighbouring addresses, where nothing wraps.\<close>

lemma above_iff: "(e :: u32) < m \<Longrightarrow> e + 1 \<le> x \<longleftrightarrow> e < x"
  using inc_less_u32 [of e m] by (auto simp: word_le_nat_alt word_less_nat_alt)

lemma below_iff: "(a :: u32) < s \<Longrightarrow> x \<le> s - 1 \<longleftrightarrow> x < s"
proof -
  assume "a < s"
  then have "s \<noteq> 0" by auto
  then have "unat (s - 1) = unat s - 1" "unat s \<noteq> 0" by (auto simp: unat_minus_one unat_eq_zero)
  then show ?thesis by (auto simp: word_le_nat_alt word_less_nat_alt)
qed

section \<open>Carving\<close>

definition region :: "u32 \<Rightarrow> int \<Rightarrow> nat \<Rightarrow> u32 \<Rightarrow> u32 \<Rightarrow> u32 \<Rightarrow> lowner \<Rightarrow> u32 \<Rightarrow> bool" where
  "region key pid ofd s e k ow x \<longleftrightarrow> k = key \<and> ow = own pid ofd \<and> s \<le> x \<and> x \<le> e"

definition clean :: "u32 \<Rightarrow> int \<Rightarrow> nat \<Rightarrow> u32 \<Rightarrow> u32 \<Rightarrow> reclock \<Rightarrow> bool" where
  "clean key pid ofd s e l \<longleftrightarrow>
     \<not> (l_used l \<and> l_key l = key \<and> same_owner l pid ofd \<and> overlaps l s e)"

lemma clean_region: "clean key pid ofd s e l \<Longrightarrow> region key pid ofd s e k ow x \<Longrightarrow> \<not> covers l k ow t x"
  by (auto simp: clean_def region_def covers_def same_owner_own overlaps_def)

text \<open>One slot carved: it, and the slot a split fills, hold what it held outside the range.
  Either the slot is rewritten, or it is and a free one is filled as well.\<close>

definition shrunk :: "u32 \<Rightarrow> int \<Rightarrow> nat \<Rightarrow> u32 \<Rightarrow> u32 \<Rightarrow> reclock \<Rightarrow> bool" where
  "shrunk key pid ofd s e v \<longleftrightarrow>
     clean key pid ofd s e v \<and> \<not> must_split key pid ofd s e v \<and> (l_used v \<longrightarrow> l_start v \<le> l_end v)"

definition carved :: "u32 \<Rightarrow> int \<Rightarrow> nat \<Rightarrow> u32 \<Rightarrow> u32 \<Rightarrow> nat \<Rightarrow> reclock list \<Rightarrow> reclock list \<Rightarrow> bool" where
  "carved key pid ofd s e i ls ls' \<longleftrightarrow>
     length ls' = length ls \<and> (ranges_ok ls \<longrightarrow> ranges_ok ls') \<and> (spans_ok ls \<longrightarrow> spans_ok ls') \<and>
     (\<forall>k ow t x. \<not> region key pid ofd s e k ow x \<longrightarrow> holds ls' k ow t x = holds ls k ow t x) \<and>
     clean key pid ofd s e (ls' ! i) \<and>
     (\<forall>j. j \<noteq> i \<longrightarrow> (clean key pid ofd s e (ls ! j) \<longrightarrow> clean key pid ofd s e (ls' ! j)) \<and>
            must_split key pid ofd s e (ls' ! j) = must_split key pid ofd s e (ls ! j)) \<and>
     card (free_set ls) \<le> card (free_set ls') + (if must_split key pid ofd s e (ls ! i) then 1 else 0)"

lemma ranges_ok_update: "ranges_ok ls \<Longrightarrow> (l_used v \<longrightarrow> l_start v \<le> l_end v) \<Longrightarrow> ranges_ok (ls[i := v])"
  using set_update_subset_insert [of ls i v] unfolding ranges_ok_def by blast

lemma spans_ok_update: "spans_ok ls \<Longrightarrow> (l_used v \<longrightarrow> near (l_start v) (l_end v)) \<Longrightarrow> spans_ok (ls[i := v])"
  using set_update_subset_insert [of ls i v] unfolding spans_ok_def by blast

lemma carved_one:
  assumes i: "i < length ls" "l_used (ls ! i)" and v: "shrunk key pid ofd s e v"
    and cov: "\<And>k ow t x. \<not> region key pid ofd s e k ow x \<Longrightarrow> covers v k ow t x = covers (ls ! i) k ow t x"
  shows "carved key pid ofd s e i ls (ls[i := v])"
proof -
  have "free_set ls \<subseteq> free_set (ls[i := v])"
    using i by (auto simp: free_set_def nth_list_update)
  then have "card (free_set ls) \<le> card (free_set (ls[i := v]))" by (simp add: card_mono)
  then show ?thesis
    using i v cov holds_nth [OF i(1)] holds_update [OF i(1)]
    by (auto simp: carved_def shrunk_def ranges_ok_update spans_ok_update near_le)
qed

lemma carved_two:
  assumes i: "i < length ls" "l_used (ls ! i)" and v: "shrunk key pid ofd s e v" and w: "shrunk key pid ofd s e w"
    and r: "r < length ls" "\<not> l_used (ls ! r)" and split: "must_split key pid ofd s e (ls ! i)"
    and cov: "\<And>k ow t x. \<not> region key pid ofd s e k ow x \<Longrightarrow>
        covers v k ow t x \<or> covers w k ow t x \<longleftrightarrow> covers (ls ! i) k ow t x"
  shows "carved key pid ofd s e i ls (ls[r := w, i := v])"
proof -
  let ?ls = "ls[r := w, i := v]"
  have ri: "r \<noteq> i" using i r by auto
  have "others (ls[r := w]) i k ow t x \<longleftrightarrow> covers w k ow t x \<or> others ls i k ow t x" for k ow t x
  proof
    assume "others (ls[r := w]) i k ow t x"
    then obtain j where "j < length ls" "j \<noteq> i" "covers (ls[r := w] ! j) k ow t x"
      by (auto simp: others_def)
    then show "covers w k ow t x \<or> others ls i k ow t x"
      by (cases "j = r") (auto simp: others_def)
  next
    assume "covers w k ow t x \<or> others ls i k ow t x"
    then show "others (ls[r := w]) i k ow t x"
    proof
      assume "covers w k ow t x"
      then show ?thesis using r ri unfolding others_def by (intro exI [of _ r]) simp
    next
      assume "others ls i k ow t x"
      then obtain j where j: "j < length ls" "j \<noteq> i" "covers (ls ! j) k ow t x" by (auto simp: others_def)
      then have "j \<noteq> r" using r(2) by auto
      then show ?thesis using j unfolding others_def by (intro exI [of _ j]) simp
    qed
  qed
  then have hold: "holds ?ls k ow t x \<longleftrightarrow> covers v k ow t x \<or> covers w k ow t x \<or> others ls i k ow t x" for k ow t x
    using holds_update [of i "ls[r := w]"] i by simp
  have "free_set ls \<subseteq> insert r (free_set ?ls)"
    using i r ri by (auto simp: free_set_def nth_list_update)
  then have "card (free_set ls) \<le> card (insert r (free_set ?ls))" by (intro card_mono) auto
  also have "\<dots> \<le> card (free_set ?ls) + 1" by (simp add: card_insert_le_m1 card_insert_if)
  finally have "card (free_set ls) \<le> card (free_set ?ls) + 1" .
  moreover have "\<not> must_split key pid ofd s e (ls ! r)" using r by (simp add: must_split_def)
  moreover have "holds ?ls k ow t x = holds ls k ow t x" if "\<not> region key pid ofd s e k ow x" for k ow t x
    using cov [OF that, of t] hold [of k ow t x] holds_nth [OF i(1), of k ow t x] by blast
  ultimately show ?thesis
    using i v w r split ri
    by (auto simp: carved_def shrunk_def ranges_ok_update spans_ok_update near_le nth_list_update)
qed

lemma carve_step_carved:
  assumes i: "i < length ls" and se: "near s e"
    and room: "must_split key pid ofd s e (ls ! i) \<Longrightarrow> 0 < card (free_set ls)"
  shows "carved key pid ofd s e i ls (carve_step key pid ofd s e i ls)"
proof (cases "clean key pid ofd s e (ls ! i)")
  case True
  then have "carve_step key pid ofd s e i ls = ls"
    by (auto simp: carve_step_def clean_def Let_def)
  then show ?thesis using True by (simp add: carved_def)
next
  case False
  let ?l = "ls ! i"
  let ?lo = "?l\<lparr>l_end := s - 1\<rparr>" and ?hi = "?l\<lparr>l_start := e + 1\<rparr>"
  have l: "l_used ?l" "l_key ?l = key" "same_owner ?l pid ofd" "l_start ?l \<le> e" "s \<le> l_end ?l"
    using False by (auto simp: clean_def overlaps_def)
  have own: "owner_of ?l = own pid ofd" using l(3) by (simp add: same_owner_own)
  have lo: "shrunk key pid ofd s e ?lo" if "l_start ?l < s"
  proof -
    have "\<not> s \<le> s - 1" "l_start ?l \<le> s - 1" "\<not> e < s - 1"
      using below_iff [OF that, of s] below_iff [OF that, of "l_start ?l"] near_below [OF se that] that
      by simp_all
    then show ?thesis by (simp add: shrunk_def clean_def overlaps_def must_split_def)
  qed
  have hi: "shrunk key pid ofd s e ?hi" if "e < l_end ?l"
  proof -
    have "\<not> e + 1 \<le> e" "e + 1 \<le> l_end ?l" "\<not> e + 1 < s"
      using above_iff [OF that, of e] above_iff [OF that, of "l_end ?l"] near_above [OF se that] that
      by simp_all
    then show ?thesis by (simp add: shrunk_def clean_def overlaps_def must_split_def)
  qed
  have covlo: "covers ?lo k ow t x \<longleftrightarrow> covers ?l k ow t x \<and> x < s" if "l_start ?l < s" for k ow t x
    using below_iff [OF that, of x] l(5) by (auto simp: covers_def owner_of_def)
  have covhi: "covers ?hi k ow t x \<longleftrightarrow> covers ?l k ow t x \<and> e < x" if "e < l_end ?l" for k ow t x
    using above_iff [OF that, of x] l(4) by (auto simp: covers_def owner_of_def)
  have out: "covers ?l k ow t x \<Longrightarrow> \<not> region key pid ofd s e k ow x \<Longrightarrow> x < s \<or> e < x" for k ow t x
    using l own by (auto simp: covers_def region_def not_le)
  consider (split) "l_start ?l < s" "e < l_end ?l" | (left) "l_start ?l < s" "\<not> e < l_end ?l"
    | (right) "\<not> l_start ?l < s" "e < l_end ?l" | (gone) "\<not> l_start ?l < s" "\<not> e < l_end ?l" by blast
  then show ?thesis
  proof cases
    case split
    then have ms: "must_split key pid ofd s e ?l" using l by (simp add: must_split_def)
    obtain r where r: "slot ls = Some r" "r < length ls" "\<not> l_used (ls ! r)"
      by (rule slot_free [OF room [OF ms]])
    then have "carve_step key pid ofd s e i ls = ls[r := ?hi, i := ?lo]"
      using split l by (auto simp: carve_step_def overlaps_def Let_def)
    moreover have "covers ?lo k ow t x \<or> covers ?hi k ow t x \<longleftrightarrow> covers ?l k ow t x"
      if "\<not> region key pid ofd s e k ow x" for k ow t x
      using covlo [OF split(1)] covhi [OF split(2)] out [OF _ that] by blast
    ultimately show ?thesis
      using carved_two [OF i l(1) lo [OF split(1)] hi [OF split(2)] r(2,3) ms] by simp
  next
    case left
    then have "carve_step key pid ofd s e i ls = ls[i := ?lo]"
      using l by (auto simp: carve_step_def overlaps_def Let_def)
    moreover have "x \<le> e" if "covers ?l k ow t x" for k ow t x
      using that left by (auto simp: covers_def)
    then have "covers ?lo k ow t x = covers ?l k ow t x"
      if "\<not> region key pid ofd s e k ow x" for k ow t x
      using covlo [OF left(1), of k ow t x] out [OF _ that, of t] by (meson not_less)
    ultimately show ?thesis
      using carved_one [OF i l(1) lo [OF left(1)]] by simp
  next
    case right
    then have "carve_step key pid ofd s e i ls = ls[i := ?hi]"
      using l by (auto simp: carve_step_def overlaps_def Let_def)
    moreover have "s \<le> x" if "covers ?l k ow t x" for k ow t x
      using that right by (auto simp: covers_def)
    then have "covers ?hi k ow t x = covers ?l k ow t x"
      if "\<not> region key pid ofd s e k ow x" for k ow t x
      using covhi [OF right(2), of k ow t x] out [OF _ that, of t] by (meson not_less)
    ultimately show ?thesis
      using carved_one [OF i l(1) hi [OF right(2)]] by simp
  next
    case gone
    then have "carve_step key pid ofd s e i ls = ls[i := ?l\<lparr>l_used := False\<rparr>]"
      using l by (auto simp: carve_step_def overlaps_def Let_def)
    moreover have "s \<le> x \<and> x \<le> e" if "covers ?l k ow t x" for k ow t x
      using that gone by (auto simp: covers_def)
    then have "\<not> covers ?l k ow t x" if "\<not> region key pid ofd s e k ow x" for k ow t x
      using out [OF _ that, of t] by (meson not_less)
    moreover have "shrunk key pid ofd s e (?l\<lparr>l_used := False\<rparr>)"
      by (simp add: shrunk_def clean_def must_split_def)
    ultimately show ?thesis
      using carved_one [OF i l(1), of key pid ofd s e "?l\<lparr>l_used := False\<rparr>"] by simp
  qed
qed

definition splits_from :: "u32 \<Rightarrow> int \<Rightarrow> nat \<Rightarrow> u32 \<Rightarrow> u32 \<Rightarrow> nat \<Rightarrow> reclock list \<Rightarrow> nat set" where
  "splits_from key pid ofd s e n ls = {j. n \<le> j \<and> j < length ls \<and> must_split key pid ofd s e (ls ! j)}"

lemma carve_loop:
  assumes se: "near s e" and n: "n \<le> length ls"
    and room: "card (splits_from key pid ofd s e 0 ls) + c \<le> card (free_set ls)"
  defines "ls' \<equiv> fold (carve_step key pid ofd s e) [0..<n] ls"
  shows "length ls' = length ls \<and> (ranges_ok ls \<longrightarrow> ranges_ok ls') \<and> (spans_ok ls \<longrightarrow> spans_ok ls') \<and>
    (\<forall>k ow t x. \<not> region key pid ofd s e k ow x \<longrightarrow> holds ls' k ow t x = holds ls k ow t x) \<and>
    (\<forall>j < n. clean key pid ofd s e (ls' ! j)) \<and>
    card (splits_from key pid ofd s e n ls') + c \<le> card (free_set ls')"
  using n unfolding ls'_def
proof (induction n)
  case 0
  then show ?case using room by simp
next
  case (Suc n)
  let ?m = "fold (carve_step key pid ofd s e) [0..<n] ls"
  let ?m' = "carve_step key pid ofd s e n ?m"
  let ?S = "splits_from key pid ofd s e"
  have IH: "length ?m = length ls" "ranges_ok ls \<longrightarrow> ranges_ok ?m" "spans_ok ls \<longrightarrow> spans_ok ?m"
    "\<And>k ow t x. \<not> region key pid ofd s e k ow x \<Longrightarrow> holds ?m k ow t x = holds ls k ow t x"
    "\<And>j. j < n \<Longrightarrow> clean key pid ofd s e (?m ! j)" "card (?S n ?m) + c \<le> card (free_set ?m)"
    using Suc by auto
  have lt: "n < length ?m" using Suc.prems IH(1) by simp
  have fin: "finite (?S n ?m)" by (simp add: splits_from_def)
  have "0 < card (?S n ?m)" if "must_split key pid ofd s e (?m ! n)"
    using that lt fin by (auto simp: card_gt_0_iff splits_from_def)
  then have "0 < card (free_set ?m)" if "must_split key pid ofd s e (?m ! n)" using that IH(6) by fastforce
  then have C: "carved key pid ofd s e n ?m ?m'" using carve_step_carved [OF lt se] by blast
  note C = C [unfolded carved_def]
  have "?S (Suc n) ?m' = ?S n ?m - {n}"
    using C by (auto simp: splits_from_def Suc_le_eq)
  then have "card (?S (Suc n) ?m') = card (?S n ?m) - (if must_split key pid ofd s e (?m ! n) then 1 else 0)"
    using lt fin by (auto simp: splits_from_def card_Diff_singleton_if)
  moreover have "0 < card (?S n ?m)" if "must_split key pid ofd s e (?m ! n)"
    using that lt fin by (auto simp: card_gt_0_iff splits_from_def)
  ultimately have "card (?S (Suc n) ?m') + c \<le> card (free_set ?m')"
    using C IH(6) by (auto split: if_splits)
  moreover have "clean key pid ofd s e (?m' ! j)" if "j < Suc n" for j
    using that C IH(5) [of j] by (cases "j = n") auto
  ultimately show ?case using C IH(1-4) by simp
qed

lemma carve_holds:
  assumes "near s e" and "length (filter (must_split key pid ofd s e) ls) + c \<le> free_slots ls"
  shows "holds (carve key pid ofd s e ls) k ow t x \<longleftrightarrow>
      holds ls k ow t x \<and> \<not> region key pid ofd s e k ow x"
    and "length (carve key pid ofd s e ls) = length ls"
    and "ranges_ok ls \<Longrightarrow> ranges_ok (carve key pid ofd s e ls)" and "spans_ok ls \<Longrightarrow> spans_ok (carve key pid ofd s e ls)"
    and "c \<le> card (free_set (carve key pid ofd s e ls))"
proof -
  have "card (splits_from key pid ofd s e 0 ls) + c \<le> card (free_set ls)"
    using assms(2) by (simp add: free_slots_card splits_from_def length_filter_conv_card)
  note L = carve_loop [OF assms(1) order_refl this, folded carve_def]
  show "length (carve key pid ofd s e ls) = length ls" "c \<le> card (free_set (carve key pid ofd s e ls))"
    "ranges_ok ls \<Longrightarrow> ranges_ok (carve key pid ofd s e ls)" "spans_ok ls \<Longrightarrow> spans_ok (carve key pid ofd s e ls)"
    using L by auto
  show "holds (carve key pid ofd s e ls) k ow t x \<longleftrightarrow>
      holds ls k ow t x \<and> \<not> region key pid ofd s e k ow x"
  proof (cases "region key pid ofd s e k ow x")
    case True
    have "clean key pid ofd s e l" if "l \<in> set (carve key pid ofd s e ls)" for l
      using L that by (metis in_set_conv_nth)
    then show ?thesis using True clean_region [OF _ True] by (auto simp: holds_def)
  qed (use L in blast)
qed

section \<open>Merging\<close>

definition within :: "u32 \<Rightarrow> u32 \<Rightarrow> u32 \<Rightarrow> bool" where
  "within s e x \<longleftrightarrow> s \<le> x \<and> x \<le> e"

text \<open>The range grows by exactly what the slots given up held, and nothing else is given up.\<close>

definition merged :: "u32 \<Rightarrow> int \<Rightarrow> nat \<Rightarrow> int \<Rightarrow> u32 \<times> u32 \<times> reclock list \<Rightarrow> u32 \<times> u32 \<times> reclock list \<Rightarrow> bool" where
  "merged key pid ofd type a b \<longleftrightarrow>
     (case a of (s, e, ls) \<Rightarrow> case b of (s', e', ls') \<Rightarrow>
        length ls' = length ls \<and> (ranges_ok ls \<longrightarrow> ranges_ok ls') \<and> (spans_ok ls \<longrightarrow> spans_ok ls') \<and>
        card (free_set ls) \<le> card (free_set ls') \<and> s' \<le> s \<and> e \<le> e' \<and>
        (\<forall>k ow t x. if k = key \<and> ow = own pid ofd \<and> t = type
            then holds ls' k ow t x \<or> within s' e' x \<longleftrightarrow> holds ls k ow t x \<or> within s e x
            else holds ls' k ow t x = holds ls k ow t x))"

lemma merged_refl: "merged key pid ofd type a a"
  by (auto simp: merged_def split: prod.split)

lemma merged_trans:
  assumes "merged key pid ofd type a b" and "merged key pid ofd type b c"
  shows "merged key pid ofd type a c"
proof -
  obtain s1 e1 l1 s2 e2 l2 s3 e3 l3 where abc: "a = (s1, e1, l1)" "b = (s2, e2, l2)" "c = (s3, e3, l3)"
    by (metis prod_cases3)
  show ?thesis
    using assms unfolding abc merged_def by (simp split: if_splits) (meson order_trans)
qed

lemma merge_step_merged:
  assumes i: "i < length ls" and r: "spans_ok ls" and se: "near s e"
  shows "merged key pid ofd type (s, e, ls) (merge_step key pid ofd type i (s, e, ls))"
proof -
  let ?l = "ls ! i" and ?u = "(ls ! i)\<lparr>l_used := False\<rparr>"
  have len: "l_used ?l \<Longrightarrow> unat (l_start ?l) \<le> unat (l_end ?l) + 1" using r i by (auto simp: spans_ok_def near_def)
  have ur: "ranges_ok (ls[i := ?u])" if "ranges_ok ls" using that by (simp add: ranges_ok_update)
  have us: "spans_ok (ls[i := ?u])" using r by (simp add: spans_ok_update)
  have "free_set ls \<subseteq> free_set (ls[i := ?u])"
    using i by (auto simp: free_set_def nth_list_update)
  then have free: "card (free_set ls) \<le> card (free_set (ls[i := ?u]))" by (simp add: card_mono)
  have gone: "holds (ls[i := ?u]) k ow t x = others ls i k ow t x" for k ow t x
    using holds_update [OF i] by simp
  let ?m = "l_used ?l \<and> l_key ?l = key \<and> same_owner ?l pid ofd \<and> l_type ?l = type"
  consider (skip) "\<not> ?m \<or> \<not> (0 < s \<and> l_end ?l = s - 1) \<and> \<not> (e \<noteq> TO_EOF \<and> l_start ?l = e + 1)"
    | (left) ?m "0 < s" "l_end ?l = s - 1"
    | (right) ?m "\<not> (0 < s \<and> l_end ?l = s - 1)" "e \<noteq> TO_EOF" "l_start ?l = e + 1" by blast
  then show ?thesis
  proof cases
    case skip
    then have "merge_step key pid ofd type i (s, e, ls) = (s, e, ls)" by (auto simp: merge_step_def Let_def)
    then show ?thesis by (simp add: merged_refl)
  next
    case left
    have ms: "merge_step key pid ofd type i (s, e, ls) = (l_start ?l, e, ls[i := ?u])"
      using left by (simp add: merge_step_def Let_def)
    have u: "unat (l_end ?l) = unat s - 1" "0 < unat s"
      using left(2,3) unat_dec [of s] by (auto simp: word_gt_0 unat_gt_0)
    then have st: "l_start ?l \<le> s" using len left(1) by (simp add: word_le_nat_alt)
    then have "within (l_start ?l) e x \<longleftrightarrow> (l_start ?l \<le> x \<and> x \<le> l_end ?l) \<or> within s e x" for x
      using se u unfolding within_def near_def by (auto simp: word_le_nat_alt)
    moreover have "covers ?l k ow t x \<longleftrightarrow> k = key \<and> ow = own pid ofd \<and> t = type \<and> l_start ?l \<le> x \<and> x \<le> l_end ?l" for k ow t x
      using left by (auto simp: covers_def same_owner_own)
    ultimately show ?thesis
      using st free holds_nth [OF i] gone us ur unfolding ms by (auto simp: merged_def)
  next
    case right
    have ms: "merge_step key pid ofd type i (s, e, ls) = (s, l_end ?l, ls[i := ?u])"
      using right unfolding merge_step_def Let_def prod.case by (simp only: if_False if_True) simp
    have "unat e \<noteq> 4294967295" using right(3) by (simp add: TO_EOF_def word_unat_eq_iff)
    then have "unat e < 4294967295" using unat_u32_less [of e] by linarith
    then have "e < 0xffffffff" by (simp add: word_less_nat_alt)
    then have u: "unat (l_start ?l) = unat e + 1" using right(4) inc_less_u32 [of e] by simp
    then have en: "e \<le> l_end ?l" using len right(1) by (simp add: word_le_nat_alt)
    then have "within s (l_end ?l) x \<longleftrightarrow> (l_start ?l \<le> x \<and> x \<le> l_end ?l) \<or> within s e x" for x
      using se u unfolding within_def near_def by (auto simp: word_le_nat_alt)
    moreover have "covers ?l k ow t x \<longleftrightarrow> k = key \<and> ow = own pid ofd \<and> t = type \<and> l_start ?l \<le> x \<and> x \<le> l_end ?l" for k ow t x
      using right by (auto simp: covers_def same_owner_own)
    ultimately show ?thesis
      using en free holds_nth [OF i] gone us ur unfolding ms by (auto simp: merged_def)
  qed
qed

lemma merge_loop_merged:
  assumes r: "spans_ok ls" and se: "near s e"
  shows "merged key pid ofd type (s, e, ls) (merge_loop key pid ofd type s e ls)"
proof -
  have "merged key pid ofd type (s, e, ls) (fold (merge_step key pid ofd type) [0..<n] (s, e, ls))"
    if "n \<le> length ls" for n
    using that
  proof (induction n)
    case 0
    then show ?case by (simp add: merged_refl)
  next
    case (Suc n)
    obtain s1 e1 ls1 where m: "fold (merge_step key pid ofd type) [0..<n] (s, e, ls) = (s1, e1, ls1)"
      using prod_cases3 by blast
    have IH: "merged key pid ofd type (s, e, ls) (s1, e1, ls1)" using Suc m by simp
    then have "length ls1 = length ls" "spans_ok ls1" "near s1 e1"
      using r se by (auto simp: merged_def intro: near_mono)
    then have "merged key pid ofd type (s1, e1, ls1) (merge_step key pid ofd type n (s1, e1, ls1))"
      using Suc.prems by (intro merge_step_merged) auto
    then show ?case using merged_trans [OF IH] m by simp
  qed
  then show ?thesis by (simp add: merge_loop_def)
qed

section \<open>Setting a range\<close>

lemma set_range_fail:
  "set_range key pid ofd type s e st = (Inl err, st') \<Longrightarrow> err = ENOLCK \<and> st' = st"
  by (auto simp: set_range_def Let_def split: if_splits)

lemma insert_lock_holds:
  assumes "0 < card (free_set ls)"
  shows "holds (insert_lock n ls) k ow t x \<longleftrightarrow> covers n k ow t x \<or> holds ls k ow t x"
    and "ranges_ok ls \<Longrightarrow> l_start n \<le> l_end n \<Longrightarrow> ranges_ok (insert_lock n ls)"
    and "spans_ok ls \<Longrightarrow> near (l_start n) (l_end n) \<Longrightarrow> spans_ok (insert_lock n ls)"
    and "length (insert_lock n ls) = length ls"
proof -
  obtain r where r: "slot ls = Some r" "r < length ls" "\<not> l_used (ls ! r)"
    by (rule slot_free [OF assms])
  then show "holds (insert_lock n ls) k ow t x \<longleftrightarrow> covers n k ow t x \<or> holds ls k ow t x"
    "ranges_ok ls \<Longrightarrow> l_start n \<le> l_end n \<Longrightarrow> ranges_ok (insert_lock n ls)"
    "spans_ok ls \<Longrightarrow> near (l_start n) (l_end n) \<Longrightarrow> spans_ok (insert_lock n ls)"
    "length (insert_lock n ls) = length ls"
    by (simp_all add: insert_lock_def holds_fill ranges_ok_update spans_ok_update)
qed

lemma covers_new: "covers (new_lock key pid ofd type s e) k ow t x \<longleftrightarrow>
    k = key \<and> ow = own pid ofd \<and> t = type \<and> within s e x"
  by (auto simp: covers_def new_lock_def owner_of_def own_def within_def)

lemma set_range_holds:
  assumes ok: "spans_ok (locks st)" and se: "near s e"
    and sr: "set_range key pid ofd type s e st = (Inr (), st')"
  shows "holds (locks st') k ow t x \<longleftrightarrow>
      (if region key pid ofd s e k ow x then t = type \<and> type \<noteq> F_UNLCK else holds (locks st) k ow t x)"
    and "spans_ok (locks st')" and "ranges_ok (locks st) \<Longrightarrow> s \<le> e \<Longrightarrow> ranges_ok (locks st')"
    and "length (locks st') = length (locks st)" and "waiters st' = waiters st"
proof -
  let ?c = "if type \<noteq> F_UNLCK then 1 else 0 :: nat"
  let ?ls1 = "carve key pid ofd s e (locks st)"
  have room: "length (filter (must_split key pid ofd s e) (locks st)) + ?c \<le> free_slots (locks st)"
    using sr by (auto simp: set_range_def Let_def split: if_splits)
  note C = carve_holds [OF se room]
  have "(holds (locks st') k ow t x \<longleftrightarrow>
      (if region key pid ofd s e k ow x then t = type \<and> type \<noteq> F_UNLCK else holds (locks st) k ow t x)) \<and>
      spans_ok (locks st') \<and> (ranges_ok (locks st) \<longrightarrow> s \<le> e \<longrightarrow> ranges_ok (locks st')) \<and>
      length (locks st') = length (locks st) \<and> waiters st' = waiters st"
  proof (cases "type = F_UNLCK")
    case True
    then have "locks st' = ?ls1" "waiters st' = waiters st"
      using sr by (auto simp: set_range_def Let_def wake_locks_def split: if_splits)
    then show ?thesis using C True ok by auto
  next
    case False
    obtain s2 e2 ls2 where m: "merge_loop key pid ofd type s e ?ls1 = (s2, e2, ls2)"
      using prod_cases3 by blast
    have st': "locks st' = insert_lock (new_lock key pid ofd type s2 e2) ls2" "waiters st' = waiters st"
      using sr m False by (auto simp: set_range_def Let_def wake_locks_def split: if_splits)
    have M: "merged key pid ofd type (s, e, ?ls1) (s2, e2, ls2)"
      using merge_loop_merged [OF C(4) [OF ok] se, of key pid ofd type] m by simp
    then have r2: "length ls2 = length ?ls1" "spans_ok ls2" "0 < card (free_set ls2)" "s2 \<le> s" "e \<le> e2"
      "ranges_ok (locks st) \<Longrightarrow> ranges_ok ls2"
      using C(3,4,5) ok False by (auto simp: merged_def)
    have un: "if k = key \<and> ow = own pid ofd \<and> t = type
        then holds ls2 k ow t x \<or> within s2 e2 x \<longleftrightarrow> holds ?ls1 k ow t x \<or> within s e x
        else holds ls2 k ow t x = holds ?ls1 k ow t x"
      using M unfolding merged_def prod.case by blast
    note ins = insert_lock_holds [OF r2(3), of "new_lock key pid ofd type s2 e2", folded st'(1), unfolded covers_new]
    have "spans_ok (locks st')"
      using ins(2,3) r2(2,4,5) near_mono [OF se] by (simp add: new_lock_def)
    moreover have "ranges_ok (locks st')" if "ranges_ok (locks st)" "s \<le> e"
      using ins(2) r2(4-6) that by (auto simp: new_lock_def intro: order_trans)
    ultimately show ?thesis
      using un ins(1,4) C(1) [of k ow t x] C(2) r2(1) False st'(2)
      by (auto simp: region_def within_def split: if_splits)
  qed
  then show "holds (locks st') k ow t x \<longleftrightarrow>
      (if region key pid ofd s e k ow x then t = type \<and> type \<noteq> F_UNLCK else holds (locks st) k ow t x)"
    "spans_ok (locks st')" "ranges_ok (locks st) \<Longrightarrow> s \<le> e \<Longrightarrow> ranges_ok (locks st')"
    "length (locks st') = length (locks st)" "waiters st' = waiters st" by auto
qed

section \<open>The table's invariant\<close>

text \<open>No byte of a file is locked for writing by one owner and locked at all by another, and no
  owner holds a byte twice with different types.\<close>

definition lock_inv :: "reclock list \<Rightarrow> bool" where
  "lock_inv ls \<longleftrightarrow> spans_ok ls \<and>
     (\<forall>k o1 o2 t1 t2 x. holds ls k o1 t1 x \<and> holds ls k o2 t2 x \<and> o1 \<noteq> o2 \<longrightarrow>
        t1 \<noteq> F_WRLCK \<and> t2 \<noteq> F_WRLCK) \<and>
     (\<forall>k ow t1 t2 x. holds ls k ow t1 x \<and> holds ls k ow t2 x \<longrightarrow> t1 = t2)"

lemma lock_invD:
  assumes "lock_inv ls"
  shows "spans_ok ls"
    and "holds ls k o1 t1 x \<Longrightarrow> holds ls k o2 t2 x \<Longrightarrow> o1 \<noteq> o2 \<Longrightarrow> t1 \<noteq> F_WRLCK \<and> t2 \<noteq> F_WRLCK"
    and "holds ls k ow t1 x \<Longrightarrow> holds ls k ow t2 x \<Longrightarrow> t1 = t2"
  using assms unfolding lock_inv_def by blast+

lemma conflict_None:
  assumes "conflict ls key pid ofd type s e = None" and "holds ls key ow t x" and "ow \<noteq> own pid ofd"
    and "s \<le> x" and "x \<le> e"
  shows "type \<noteq> F_WRLCK \<and> t \<noteq> F_WRLCK"
proof -
  obtain l where l: "l \<in> set ls" "covers l key ow t x" using assms(2) by (auto simp: holds_def)
  then have "overlaps l s e" "\<not> same_owner l pid ofd"
    using assms(3-5) by (auto simp: covers_def overlaps_def same_owner_own)
  then show ?thesis
    using assms(1) l by (auto simp: conflict_def find_None_iff covers_def)
qed

lemma set_range_inv:
  assumes inv: "lock_inv (locks st)" and se: "near s e"
    and free: "type = F_UNLCK \<or> conflict (locks st) key pid ofd type s e = None"
    and sr: "set_range key pid ofd type s e st = (r, st')"
  shows "lock_inv (locks st')"
proof (cases r)
  case (Inl err)
  then show ?thesis using inv set_range_fail sr by metis
next
  case (Inr u)
  then have sr': "set_range key pid ofd type s e st = (Inr (), st')" using sr by simp
  note H = set_range_holds [OF lock_invD(1) [OF inv] se sr']
  show ?thesis
    unfolding lock_inv_def H(1)
  proof (intro conjI allI impI)
    show "spans_ok (locks st')" by (rule H(2))
  next
    fix k ow t1 t2 x
    assume "(if region key pid ofd s e k ow x then t1 = type \<and> type \<noteq> F_UNLCK else holds (locks st) k ow t1 x) \<and>
      (if region key pid ofd s e k ow x then t2 = type \<and> type \<noteq> F_UNLCK else holds (locks st) k ow t2 x)"
    then show "t1 = t2" using lock_invD(3) [OF inv] by (auto split: if_splits)
  next
    fix k o1 o2 t1 t2 x
    assume a: "(if region key pid ofd s e k o1 x then t1 = type \<and> type \<noteq> F_UNLCK else holds (locks st) k o1 t1 x) \<and>
      (if region key pid ofd s e k o2 x then t2 = type \<and> type \<noteq> F_UNLCK else holds (locks st) k o2 t2 x) \<and> o1 \<noteq> o2"
    have no: "type \<noteq> F_WRLCK \<and> t \<noteq> F_WRLCK"
      if "type \<noteq> F_UNLCK" "holds (locks st) key ow t x" "ow \<noteq> own pid ofd" "s \<le> x" "x \<le> e" for ow t
      using conflict_None [of "locks st"] free that by blast
    have "t1 \<noteq> F_WRLCK \<and> t2 \<noteq> F_WRLCK"
    proof (cases "region key pid ofd s e k o1 x \<or> region key pid ofd s e k o2 x")
      case True
      then show ?thesis using a no [of o2 t2] no [of o1 t1] by (auto simp: region_def split: if_splits)
    next
      case False
      then show ?thesis using a lock_invD(2) [OF inv, of k o1 t1 x o2 t2] by auto
    qed
    then show "t1 \<noteq> F_WRLCK" "t2 \<noteq> F_WRLCK" by simp_all
  qed
qed

lemma lock_inv_subset:
  assumes "lock_inv ls" and "spans_ok ls'" and "\<And>k ow t x. holds ls' k ow t x \<Longrightarrow> holds ls k ow t x"
  shows "lock_inv ls'"
  unfolding lock_inv_def
proof (intro conjI allI impI)
  fix k o1 o2 t1 t2 x
  assume "holds ls' k o1 t1 x \<and> holds ls' k o2 t2 x \<and> o1 \<noteq> o2"
  then show "t1 \<noteq> F_WRLCK" "t2 \<noteq> F_WRLCK" using lock_invD(2) [OF assms(1)] assms(3) by blast+
next
  fix k ow t1 t2 x
  assume "holds ls' k ow t1 x \<and> holds ls' k ow t2 x"
  then show "t1 = t2" using lock_invD(3) [OF assms(1)] assms(3) by blast
qed (rule assms(2))

lemma holds_map: "holds (map f ls) k ow t x \<longleftrightarrow> (\<exists>l \<in> set ls. covers (f l) k ow t x)"
  by (auto simp: holds_def)

lemma drop_locks_holds:
  "holds (locks (drop_locks by_key key pid ofd st)) k ow t x \<longleftrightarrow>
     holds (locks st) k ow t x \<and> \<not> (ow = own pid ofd \<and> (by_key \<longrightarrow> k = key))"
  "spans_ok (locks st) \<Longrightarrow> spans_ok (locks (drop_locks by_key key pid ofd st))"
proof -
  let ?m = "\<lambda>l. l_used l \<and> (\<not> by_key \<or> l_key l = key) \<and> same_owner l pid ofd"
  have ls: "locks (drop_locks by_key key pid ofd st) = map (\<lambda>l. if ?m l then l\<lparr>l_used := False\<rparr> else l) (locks st)"
    by (simp add: drop_locks_def Let_def wake_locks_def)
  have cov: "covers (if ?m l then l\<lparr>l_used := False\<rparr> else l) k ow t x \<longleftrightarrow>
      covers l k ow t x \<and> \<not> (ow = own pid ofd \<and> (by_key \<longrightarrow> k = key))" for l
    by (auto simp: covers_def same_owner_own)
  show "holds (locks (drop_locks by_key key pid ofd st)) k ow t x \<longleftrightarrow>
     holds (locks st) k ow t x \<and> \<not> (ow = own pid ofd \<and> (by_key \<longrightarrow> k = key))"
    unfolding ls holds_map cov unfolding holds_def by blast
  show "spans_ok (locks st) \<Longrightarrow> spans_ok (locks (drop_locks by_key key pid ofd st))"
    unfolding ls spans_ok_def by auto
qed

lemma drop_locks_inv: "lock_inv (locks st) \<Longrightarrow> lock_inv (locks (drop_locks by_key key pid ofd st))"
  by (rule lock_inv_subset) (auto simp: drop_locks_holds lock_invD(1))

text \<open>The operations on the table by a process \<open>pid\<close>.  A lock is set with whatever range its checks let
  through, turn by turn; the end of a description is no process's own doing.\<close>

inductive lock_call :: "int \<Rightarrow> lkstate \<Rightarrow> lkstate \<Rightarrow> bool" for pid where
  setlk: "lk_checks (ofd \<noteq> 0) False acc pos fsize k = Inr (s, e) \<Longrightarrow>
     setlk_turn key pid ofd (k_type k) s e blocking sig c st = (r, st') \<Longrightarrow> lock_call pid st st'"
| closed: "lock_call pid st (reclock_closed key pid st)"
| gone: "lock_call pid st (reclock_file_gone f st)"
| exited: "lock_call pid st (reclock_exit pid st)"

text \<open>The calls of all processes in any order, and those of all processes but one.\<close>

definition lock_step :: "lkstate \<Rightarrow> lkstate \<Rightarrow> bool" where
  "lock_step st st' \<longleftrightarrow> (\<exists>pid. lock_call pid st st')"

definition other_step :: "int \<Rightarrow> lkstate \<Rightarrow> lkstate \<Rightarrow> bool" where
  "other_step pid st st' \<longleftrightarrow> (\<exists>q. q \<noteq> pid \<and> lock_call q st st')"

lemma range_of_near:
  assumes "range_of pos fsize k = Inr (s, e)"
  shows "near s e"
proof -
  have "near x TO_EOF" "x \<noteq> 0 \<Longrightarrow> near x (x - 1)" for x
    using unat_dec [of x] near_le [of x TO_EOF] by (auto simp: near_def TO_EOF_def word_le_nat_alt)
  moreover
  have "near (x - b) (x - 1)" if "b \<le> x" for x b :: u32
  proof (cases "x = 0")
    case True
    then show ?thesis using that by (simp add: near_def)
  next
    case False
    have "x - b \<le> x" using that by (simp add: word_le_nat_alt unat_sub)
    then show ?thesis using near_mono [OF calculation(2) [OF False]] by simp
  qed
  from this [of "- l" for l] have "near (x + l) (x - 1)" if "- l \<le> x" for x l :: u32 using that by simp
  ultimately show ?thesis
    using assms by (auto simp: range_of_def Let_def not_less near_le split: option.splits if_splits)
qed

lemma lk_checks_near: "lk_checks ofd getting acc pos fsize k = Inr (s, e) \<Longrightarrow> near s e"
  by (auto simp: lk_checks_def split: if_splits sum.splits dest: range_of_near)

lemma setlk_turn_inv:
  assumes "lock_inv (locks st)" and "near s e"
    and "setlk_turn key pid ofd type s e blocking sig c st = (r, st')"
  shows "lock_inv (locks st')"
proof (cases "if type = F_UNLCK then None else conflict (locks st) key pid ofd type s e")
  case None
  let ?st = "st\<lparr>waiters := set_waiting pid 0 (waiters st)\<rparr>"
  obtain q where "set_range key pid ofd type s e ?st = (q, st')"
    using assms(3) None by (auto simp: setlk_turn_def split: prod.splits)
  moreover have "type = F_UNLCK \<or> conflict (locks ?st) key pid ofd type s e = None"
    using None by (auto split: if_splits)
  ultimately show ?thesis using set_range_inv [of ?st] assms(1,2) by simp
next
  case (Some l)
  then have "locks st' = locks st"
    using assms(3) by (auto simp: setlk_turn_def split: if_splits)
  then show ?thesis using assms(1) by simp
qed

lemma lock_call_inv: "lock_call pid st st' \<Longrightarrow> lock_inv (locks st) \<Longrightarrow> lock_inv (locks st')"
  by (induction rule: lock_call.induct)
    (auto simp: reclock_closed_def reclock_file_gone_def reclock_exit_def Let_def
      intro: drop_locks_inv setlk_turn_inv lk_checks_near)

lemma lock_step_inv: "lock_step st st' \<Longrightarrow> lock_inv (locks st) \<Longrightarrow> lock_inv (locks st')"
  by (auto simp: lock_step_def intro: lock_call_inv)

text \<open>What other processes do leaves a process's entry in the waits-for table alone.\<close>

lemma blocker_of_update:
  "i < length ws \<Longrightarrow> fst (ws ! i) \<noteq> p \<Longrightarrow> fst w \<noteq> p \<Longrightarrow> blocker_of (ws[i := w]) p = blocker_of ws p"
proof (induction ws arbitrary: i)
  case (Cons v ws)
  then show ?case by (cases i) (auto simp: blocker_of_def)
qed simp

lemma blocker_of_set_waiting:
  assumes "q \<noteq> p" and "p \<noteq> 0"
  shows "blocker_of (set_waiting q b ws) p = blocker_of ws p"
  using assms first_idx_SomeD [of "\<lambda>w. fst w = q" ws] first_idx_SomeD [of "\<lambda>w. fst w = 0" ws]
  by (auto simp: set_waiting_def intro!: blocker_of_update split: option.splits)

lemma set_range_waiters: "waiters (snd (set_range key pid ofd type s e st)) = waiters st"
  by (simp add: set_range_def Let_def wake_locks_def)

lemma setlk_turn_waiters:
  assumes "setlk_turn key q ofd type s e blocking sig c st = (r, st')"
  shows "waiters st' = waiters st \<or> (\<exists>b. waiters st' = set_waiting q b (waiters st))"
  using assms set_range_waiters [of key q ofd type s e "st\<lparr>waiters := set_waiting q 0 (waiters st)\<rparr>"]
  by (auto simp: setlk_turn_def split: option.splits if_splits prod.splits)

lemma drop_locks_waiters [simp]: "waiters (drop_locks by_key key pid ofd st) = waiters st"
  by (simp add: drop_locks_def wake_locks_def Let_def)

lemma lock_call_blocker:
  assumes "lock_call q st st'" and "q \<noteq> p" and "p \<noteq> 0"
  shows "blocker_of (waiters st') p = blocker_of (waiters st) p"
  using assms
  by (induction rule: lock_call.induct)
    (auto simp: reclock_closed_def reclock_file_gone_def reclock_exit_def Let_def blocker_of_set_waiting
      dest!: setlk_turn_waiters)

lemma other_steps_blocker:
  assumes "(other_step p)\<^sup>*\<^sup>* st st'" and "p \<noteq> 0"
  shows "blocker_of (waiters st') p = blocker_of (waiters st) p"
  using assms(1) by induction (auto simp: other_step_def lock_call_blocker assms(2))

section \<open>Waiting in a circle\<close>

lemma deadlock_walk_iff:
  "deadlock_walk ws pid n b \<longleftrightarrow>
     (\<exists>m < n. (blocker_of ws ^^ m) b = pid \<and> (\<forall>j \<le> m. (blocker_of ws ^^ j) b \<noteq> 0))"
proof (induction n arbitrary: b)
  case (Suc n)
  let ?f = "blocker_of ws"
  show ?case
  proof (cases "b = 0 \<or> b = pid")
    case True
    then show ?thesis by (auto intro!: exI [of _ 0])
  next
    case False
    have "(\<exists>m < Suc n. (?f ^^ m) b = pid \<and> (\<forall>j \<le> m. (?f ^^ j) b \<noteq> 0)) \<longleftrightarrow>
        (\<exists>m < n. (?f ^^ m) (?f b) = pid \<and> (\<forall>j \<le> m. (?f ^^ j) (?f b) \<noteq> 0))" (is "?L \<longleftrightarrow> ?R")
    proof
      assume ?L
      then obtain m where m: "m < Suc n" "(?f ^^ m) b = pid" "\<forall>j \<le> m. (?f ^^ j) b \<noteq> 0" by blast
      then obtain m' where m': "m = Suc m'" using False by (cases m) auto
      have "(?f ^^ j) (?f b) \<noteq> 0" if "j \<le> m'" for j
        using m(3) [rule_format, of "Suc j"] that m' by (simp add: funpow_swap1)
      then show ?R using m m' by (intro exI [of _ m']) (simp add: funpow_swap1)
    next
      assume ?R
      then obtain m where m: "m < n" "(?f ^^ m) (?f b) = pid" "\<forall>j \<le> m. (?f ^^ j) (?f b) \<noteq> 0" by blast
      have "(?f ^^ j) b \<noteq> 0" if "j \<le> Suc m" for j
        using m(3) that False by (cases j) (auto simp: funpow_swap1)
      then show ?L using m by (intro exI [of _ "Suc m"]) (simp add: funpow_swap1)
    qed
    then show ?thesis using Suc.IH [of "?f b"] False by simp
  qed
qed simp

lemma blocker_in_table: "blocker_of ws p \<noteq> 0 \<Longrightarrow> p \<in> fst ` set ws"
  by (auto simp: blocker_of_def find_Some_iff split: option.splits)

lemma funpow_repeat:
  fixes f :: "'a \<Rightarrow> 'a"
  assumes "(f ^^ i) b = (f ^^ j) b" and "i < j" and "j \<le> n"
  shows "(f ^^ (n - (j - i))) b = (f ^^ n) b"
proof -
  have "n - (j - i) = (n - j) + i" "n = (n - j) + j" using assms(2,3) by auto
  then show ?thesis using assms(1) by (metis comp_apply funpow_add)
qed

text \<open>A shortest chain of waits visits different table entries, so it is shorter than the table
  as long as one entry is free or is the caller's own.\<close>

lemma shortest_chain:
  assumes reach: "(blocker_of ws ^^ n) b = pid" and nz: "\<forall>j \<le> n. (blocker_of ws ^^ j) b \<noteq> 0"
    and least: "\<forall>m < n. (blocker_of ws ^^ m) b \<noteq> pid"
    and spare: "\<exists>w \<in> set ws. fst w = 0 \<or> fst w = pid"
  shows "n < length ws"
proof -
  let ?g = "\<lambda>m. (blocker_of ws ^^ m) b"
  have inj: "inj_on ?g {..<n}"
  proof (rule linorder_inj_onI)
    fix i j
    assume ij: "i < j" "i \<in> {..<n}" "j \<in> {..<n}"
    show "?g i \<noteq> ?g j"
    proof
      assume "?g i = ?g j"
      then have "?g (n - (j - i)) = pid" using funpow_repeat [where f = "blocker_of ws" and i = i and j = j and n = n and b = b] ij reach by simp
      then show False using least ij by auto
    qed
  qed auto
  have "?g ` {..<n} \<subseteq> fst ` set ws - {0, pid}"
  proof (intro subsetI, elim imageE)
    fix x m
    assume x: "x = ?g m" "m \<in> {..<n}"
    then have "blocker_of ws x \<noteq> 0" using nz [rule_format, of "Suc m"] by simp
    then show "x \<in> fst ` set ws - {0, pid}"
      using blocker_in_table x nz least by auto
  qed
  then have "card (?g ` {..<n}) \<le> card (fst ` set ws - {0, pid})" by (intro card_mono) auto
  then have "n \<le> card (fst ` set ws - {0, pid})" using card_image [OF inj] by simp
  also have "\<dots> < card (fst ` set ws)" using spare by (intro psubset_card_mono) auto
  also have "\<dots> \<le> length ws" using card_image_le [of "set ws" fst] card_length [of ws] by simp
  finally show ?thesis .
qed

lemma would_deadlock_pair:
  assumes "blocker_of ws p = b" and "p \<noteq> 0" and "b \<noteq> 0"
  shows "would_deadlock ws b p"
proof -
  have "deadlock_walk ws b (Suc (Suc n)) p" for n using assms by simp
  from this [of 62] show ?thesis by (simp add: would_deadlock_def WAITER_MAX_def)
qed

lemma setlk_turn_deadlock:
  assumes "setlk_turn key pid ofd type s e blocking sig c st = (LRet (Inl EDEADLK), st1)"
  shows "st1 = st"
  using assms set_range_fail [of key pid ofd type s e "st\<lparr>waiters := set_waiting pid 0 (waiters st)\<rparr>" EDEADLK]
  by (auto simp: setlk_turn_def split: option.splits if_splits prod.splits)

section \<open>Ranges\<close>







text \<open>Calls of several processes for single bytes of one file, each with \<^verbatim>\<open>F_SETLKW\<close>.\<close>

fun setlkw_calls :: "(int \<times> int \<times> u32) list \<Rightarrow> lkstate \<Rightarrow> lkturn list \<times> lkstate" where
  "setlkw_calls [] st = ([], st)"
| "setlkw_calls ((pid, type, x) # cs) st =
     (case setlk_turn 7 pid 0 type x x True False (nat pid) st of
        (r, st1) \<Rightarrow> (case setlkw_calls cs st1 of (rs, st2) \<Rightarrow> (r # rs, st2)))"

definition free_lock :: reclock where
  "free_lock = \<lparr>l_used = False, l_key = 0, l_pid = 0, l_ofd = 0, l_type = 0, l_start = 0, l_end = 0\<rparr>"

definition no_locks :: lkstate where
  "no_locks = \<lparr>locks = replicate RECLOCK_MAX free_lock, lock_wait = [], waiters = replicate WAITER_MAX (0, 0),
     lenv = \<lparr>made_ready = [], poll_wait = [], signals = []\<rparr>\<rparr>"

section \<open>Properties\<close>

text \<open>C4: \<open>set_range\<close> changes exactly the bytes it is asked to.  When it succeeds the owner holds
  a lock of the given type on every byte of \<open>[s, e]\<close> of the file, or none there for
  \<^verbatim>\<open>F_UNLCK\<close>, and every other byte of every file and every other owner's locks are as before,
  whatever was split, shortened, dropped or merged; when it fails nothing changes.\<close>

theorem set_range_exact:
  assumes "ranges_ok (locks st)" and "s \<le> e" and "set_range key pid ofd type s e st = (r, st')"
  shows "case r of
      Inl err \<Rightarrow> err = ENOLCK \<and> st' = st
    | Inr _ \<Rightarrow> ranges_ok (locks st') \<and>
        (\<forall>k ow t x. holds (locks st') k ow t x \<longleftrightarrow>
           (if k = key \<and> ow = own pid ofd \<and> s \<le> x \<and> x \<le> e
            then t = type \<and> type \<noteq> F_UNLCK else holds (locks st) k ow t x))"
proof (cases r)
  case (Inl err)
  then show ?thesis using set_range_fail assms(3) by auto
next
  case (Inr u)
  then have "set_range key pid ofd type s e st = (Inr (), st')" using assms(3) by simp
  note H = set_range_holds [OF ranges_spans [OF assms(1)] near_le [OF assms(2)] this, unfolded region_def]
  show ?thesis using H(1,3) assms(1,2) Inr by simp
qed

definition one_lock :: lkstate where
  "one_lock = snd (setlk_turn 7 1 0 F_WRLCK 0 9 True False 1 no_locks)"

theorem set_range_exact_witness:
  "ranges_ok (locks one_lock) \<and> (3 :: u32) \<le> 4 \<and>
   (\<exists>st'. set_range 7 1 0 F_UNLCK 3 4 one_lock = (Inr (), st') \<and>
      (\<forall>x. holds (locks st') 7 (own 1 0) F_WRLCK x \<longleftrightarrow>
        \<not> (3 \<le> x \<and> x \<le> 4) \<and> holds (locks one_lock) 7 (own 1 0) F_WRLCK x))"
proof -
  obtain r st' where e: "set_range 7 1 0 F_UNLCK 3 4 one_lock = (r, st')" by fastforce
  have "fst (set_range 7 1 0 F_UNLCK 3 4 one_lock) = Inr ()" by code_simp
  then have r: "r = Inr ()" using e by simp
  have ok: "ranges_ok (locks one_lock)" unfolding ranges_ok_def by code_simp
  have "\<forall>k ow t x. holds (locks st') k ow t x \<longleftrightarrow>
      (if k = 7 \<and> ow = own 1 0 \<and> 3 \<le> x \<and> x \<le> 4 then t = F_UNLCK \<and> F_UNLCK \<noteq> F_UNLCK
       else holds (locks one_lock) k ow t x)"
    using set_range_exact [OF ok _ e] r by simp
  then have "\<forall>x. holds (locks st') 7 (own 1 0) F_WRLCK x \<longleftrightarrow>
      \<not> (3 \<le> x \<and> x \<le> 4) \<and> holds (locks one_lock) 7 (own 1 0) F_WRLCK x" by presburger
  then show ?thesis using e r ok by simp
qed

lemma lk_checks_ten:
  "lk_checks (0 \<noteq> (0 :: nat)) False O_RDWR 0 None
     \<lparr>k_type = F_WRLCK, k_whence = 0, k_pid = 0, k_start_hi = 0, k_start = 0, k_len_hi = 0, k_len = 10\<rparr> = Inr (0, 9)"
  by code_simp

text \<open>C3: exclusion.  In every state reached from an empty table by any calls of any processes, with any
  arguments, a byte locked for writing is locked by nobody else, and no owner has two types on a byte.\<close>

theorem record_locks_exclude:
  assumes "lock_step\<^sup>*\<^sup>* st0 st" and "\<not> list_ex l_used (locks st0)"
    and "holds (locks st) k o1 F_WRLCK x" and "holds (locks st) k o2 t x"
  shows "o1 = o2 \<and> t = F_WRLCK"
proof -
  have "\<not> holds (locks st0) k' ow t' x'" for k' ow t' x'
    using assms(2) by (auto simp: holds_def covers_def list_ex_iff)
  then have "lock_inv (locks st0)"
    using assms(2) by (auto simp: lock_inv_def spans_ok_def list_ex_iff)
  with assms(1) have "lock_inv (locks st)"
    by (induction rule: rtranclp_induct) (auto intro: lock_step_inv)
  then show ?thesis using assms(3,4) lock_invD(2,3) by blast
qed

theorem record_locks_exclude_witness:
  "lock_step\<^sup>*\<^sup>* no_locks one_lock \<and> \<not> list_ex l_used (locks no_locks) \<and>
   holds (locks one_lock) 7 (own 1 0) F_WRLCK 4 \<and> \<not> holds (locks one_lock) 7 (own 2 0) F_RDLCK 4"
proof -
  have s: "lock_step\<^sup>*\<^sup>* no_locks one_lock"
    unfolding one_lock_def using lock_call.setlk [OF lk_checks_ten surjective_pairing]
    by (intro r_into_rtranclp) (simp add: lock_step_def, blast)
  have n: "\<not> list_ex l_used (locks no_locks)" by code_simp
  have "list_ex (\<lambda>l. covers l 7 (own 1 0) F_WRLCK 4) (locks one_lock)" by code_simp
  then have h: "holds (locks one_lock) 7 (own 1 0) F_WRLCK 4" unfolding holds_def list_ex_iff .
  have "F_RDLCK \<noteq> F_WRLCK" by (simp add: F_RDLCK_def F_WRLCK_def)
  then have "\<not> holds (locks one_lock) 7 (own 2 0) F_RDLCK 4"
    using record_locks_exclude [OF s n h, of "own 2 0" F_RDLCK] by blast
  then show ?thesis using s n h by blast
qed

text \<open>C22: deadlock detection is exact.  As long as some entry of the waits-for table is free or
  the caller's own, \<open>would_deadlock\<close> answers yes exactly when following the table from the
  blocker leads to the caller, however long the chain.\<close>

theorem would_deadlock_exact:
  assumes "length ws = WAITER_MAX" and "\<exists>w. w \<in> set ws \<and> (fst w = 0 \<or> fst w = pid)"
  shows "would_deadlock ws pid b \<longleftrightarrow>
    (\<exists>n. (blocker_of ws ^^ n) b = pid \<and> \<not> (\<exists>j. j \<le> n \<and> (blocker_of ws ^^ j) b = 0))"
proof
  assume "would_deadlock ws pid b"
  then show "\<exists>n. (blocker_of ws ^^ n) b = pid \<and> \<not> (\<exists>j. j \<le> n \<and> (blocker_of ws ^^ j) b = 0)"
    unfolding would_deadlock_def deadlock_walk_iff by blast
next
  let ?P = "\<lambda>n. (blocker_of ws ^^ n) b = pid \<and> (\<forall>j \<le> n. (blocker_of ws ^^ j) b \<noteq> 0)"
  assume "\<exists>n. (blocker_of ws ^^ n) b = pid \<and> \<not> (\<exists>j. j \<le> n \<and> (blocker_of ws ^^ j) b = 0)"
  then have "\<exists>n. ?P n" by blast
  then obtain n where n: "?P n" "\<forall>m < n. \<not> ?P m" using exists_least_iff [of ?P] by blast
  have "(blocker_of ws ^^ m) b \<noteq> pid" if "m < n" for m
    using n that by (auto simp: less_imp_le)
  then have "\<forall>m < n. (blocker_of ws ^^ m) b \<noteq> pid" by simp
  moreover have "\<exists>w \<in> set ws. fst w = 0 \<or> fst w = pid" using assms(2) by blast
  ultimately have "n < WAITER_MAX"
    using shortest_chain [OF conjunct1 [OF n(1)] conjunct2 [OF n(1)]] assms(1) by simp
  then show "would_deadlock ws pid b"
    unfolding would_deadlock_def deadlock_walk_iff using n(1) by blast
qed

theorem would_deadlock_exact_witness:
  "would_deadlock ((1, 2) # replicate 63 (0, 0)) 2 1"
proof (rule iffD2 [OF would_deadlock_exact])
  let ?ws = "(1, 2) # replicate 63 (0, 0) :: (int \<times> int) list"
  show "length ?ws = WAITER_MAX" by (simp add: WAITER_MAX_def)
  show "\<exists>w. w \<in> set ?ws \<and> (fst w = 0 \<or> fst w = 2)" by (rule exI [of _ "(0, 0)"]) simp
  show "\<exists>n. (blocker_of ?ws ^^ n) 1 = 2 \<and> \<not> (\<exists>j. j \<le> n \<and> (blocker_of ?ws ^^ j) 1 = 0)"
  proof (rule exI [of _ 1], safe)
    fix j :: nat
    assume "j \<le> 1" and z: "(blocker_of ?ws ^^ j) 1 = 0"
    then show False by (cases j) (simp_all add: blocker_of_def)
  qed (simp add: blocker_of_def)
qed


text \<open>C33: a false deadlock.  A process refused with \<^verbatim>\<open>EDEADLK\<close> whom an earlier turn of the same call
  recorded as waiting for \<open>b\<close> stays so recorded, whatever other processes do afterwards; and whenever
  the lock that stops a request of \<open>b\<close> is then one of that process, the request is refused with
  \<^verbatim>\<open>EDEADLK\<close> too, though the process has returned and waits for nothing.\<close>

theorem stale_waiter_false_deadlock:
  assumes "setlk_turn key pid 0 type s e True sig c st = (LRet (Inl EDEADLK), st1)"
    and "pid \<noteq> 0" and "blocker_of (waiters st) pid = b" and "b \<noteq> 0"
    and "(other_step pid)\<^sup>*\<^sup>* st1 st2"
    and "type' \<noteq> F_UNLCK" and "conflict (locks st2) key' b 0 type' s' e' = Some l"
    and "l_ofd l = 0" and "l_pid l = pid"
  shows "blocker_of (waiters st2) pid = b \<and>
    setlk_turn key' b 0 type' s' e' True sig' c' st2 = (LRet (Inl EDEADLK), st2)"
proof -
  have "st1 = st" by (rule setlk_turn_deadlock [OF assms(1)])
  then have bl: "blocker_of (waiters st2) pid = b" using other_steps_blocker [OF assms(5,2)] assms(3) by simp
  then have "would_deadlock (waiters st2) b pid" using assms(2,4) by (rule would_deadlock_pair)
  then show ?thesis using bl assms(6-9) by (simp add: setlk_turn_def)
qed

text \<open>Process 1 waits for 2, which releases the byte; 4 takes it and waits for 1; 1 looks again and is told
  of the deadlock, which is right.\<close>

definition stale_run :: lkstate where
  "stale_run = snd (setlkw_calls [(2, F_WRLCK, 0), (1, F_WRLCK, 10), (1, F_WRLCK, 0), (2, F_UNLCK, 0),
     (4, F_WRLCK, 0), (4, F_WRLCK, 10)] no_locks)"

theorem stale_waiter_false_deadlock_witness:
  "fst (setlk_turn 7 1 0 F_WRLCK 0 0 True False 1 stale_run) = LRet (Inl EDEADLK) \<and>
   \<not> list_ex (\<lambda>l. l_used l \<and> l_pid l = 2) (locks stale_run) \<and>
   fst (setlk_turn 7 2 0 F_WRLCK 10 10 True False 2 stale_run) = LRet (Inl EDEADLK)"
proof -
  obtain r st1 where t: "setlk_turn 7 1 0 F_WRLCK 0 0 True False 1 stale_run = (r, st1)" by fastforce
  have r: "fst (setlk_turn 7 1 0 F_WRLCK 0 0 True False 1 stale_run) = LRet (Inl EDEADLK)" by code_simp
  have t': "setlk_turn 7 1 0 F_WRLCK 0 0 True False 1 stale_run = (LRet (Inl EDEADLK), st1)" using t r by simp
  then have "st1 = stale_run" by (rule setlk_turn_deadlock)
  moreover have b: "blocker_of (waiters stale_run) 1 = 2" by code_simp
  obtain l where l: "conflict (locks stale_run) 7 2 0 F_WRLCK 10 10 = Some l" "l_ofd l = 0" "l_pid l = 1"
  proof -
    have "map_option (\<lambda>l. (l_ofd l, l_pid l)) (conflict (locks stale_run) 7 2 0 F_WRLCK 10 10) = Some (0, 1)"
      by code_simp
    then show ?thesis using that by auto
  qed
  have "F_WRLCK \<noteq> F_UNLCK" by (simp add: F_WRLCK_def F_UNLCK_def)
  ultimately have "setlk_turn 7 2 0 F_WRLCK 10 10 True False 2 stale_run = (LRet (Inl EDEADLK), stale_run)"
    using stale_waiter_false_deadlock [OF t' _ b _ _ _ l(1), of False 2] l(2,3) by simp
  moreover have "\<not> list_ex (\<lambda>l. l_used l \<and> l_pid l = 2) (locks stale_run)" by code_simp
  ultimately show ?thesis using r by simp
qed

end
