(* ===== verification/Mqueue.thy ===== *)
theory Mqueue
  imports Pmm Waitq "HOL-Library.Signed_Division"
begin

text \<open>
  \<^verbatim>\<open>kernel/mqueue.c\<close>: POSIX message queues.  The table of queues is a list and a pointer to a
  queue its index; a queue's array of \<^verbatim>\<open>MQ_SLOTS\<close> messages is a list of that length of which
  the first \<open>q_count\<close> are in use.  A message has the addresses of its pages, 0 past the last one,
  and \<open>m_data\<close> are the bytes that were copied into each.

  What \<^verbatim>\<open>fd_install\<close> and \<^verbatim>\<open>clock_get\<close> answer and whether a signal is pending are arguments.
  Copying from and to the caller's memory can fault and sleep, so a call is split at every copy as
  well as at every wait: the constructors of \<open>mqcall\<close> are the places where a call can be suspended,
  with what it keeps on its stack, and the result of the copy, or that it faulted, is an argument of
  the function that goes on from there.  A copy that does not fault goes on at once; that the model
  lets other calls run there too only adds runs.

  The abstraction of a queue is the list of messages in the order they arrived, and the theorems
  say that the array is this list stably sorted by priority.
\<close>

section \<open>Definitions\<close>

definition MQ_MAX :: nat where "MQ_MAX = 16"
definition MQ_NAME_MAX :: nat where "MQ_NAME_MAX = 63"
definition MQ_SLOTS :: u32 where "MQ_SLOTS = 64"
definition MQ_PRIO_MAX :: u32 where "MQ_PRIO_MAX = 32768"
definition MQ_USER_MAXMSG :: int where "MQ_USER_MAXMSG = 10"
definition MQ_USER_MSGSIZE :: int where "MQ_USER_MSGSIZE = 8192"
definition MQ_ROOT_MSGSIZE :: int where "MQ_ROOT_MSGSIZE = 65536"
definition MQ_PAGES :: nat where "MQ_PAGES = 16"

record mqmsg =
  m_prio :: u32
  m_len :: u32
  m_page :: "u32 list"
  m_data :: "u8 list list"

record mqueue =
  q_used :: bool
  q_linked :: bool
  q_refs :: int
  q_name :: "u8 list"
  q_uid :: u32
  q_gid :: u32
  q_mode :: u32
  q_maxmsg :: u32
  q_msgsize :: u32
  q_count :: u32
  q_msg :: "mqmsg list"
  q_ino :: u32
  q_rq :: "nat list"
  q_wq :: "nat list"
  q_receivers :: int
  q_notify :: "nat option"
  q_notify_sig :: int
  q_notify_value :: u32

record mqstate =
  queues :: "mqueue list"
  next_ino :: u32
  mpool :: pmm
  menv :: env

text \<open>The running task as far as this file looks at it, and an open descriptor.\<close>

record mqtask =
  t_id :: nat
  t_euid :: u32
  t_egid :: u32
  t_umask :: u32

record mqfile =
  mf_flags :: u32
  mf_queue :: nat

definition zero_msg :: mqmsg where
  "zero_msg = \<lparr>m_prio = 0, m_len = 0, m_page = replicate MQ_PAGES 0, m_data = replicate MQ_PAGES []\<rparr>"

definition zero_queue :: mqueue where
  "zero_queue = \<lparr>q_used = False, q_linked = False, q_refs = 0, q_name = [], q_uid = 0, q_gid = 0,
     q_mode = 0, q_maxmsg = 0, q_msgsize = 0, q_count = 0, q_msg = replicate (unat MQ_SLOTS) zero_msg,
     q_ino = 0, q_rq = [], q_wq = [], q_receivers = 0, q_notify = None, q_notify_sig = 0,
     q_notify_value = 0\<rparr>"

definition free_pages :: "u32 list \<Rightarrow> pmm \<Rightarrow> pmm" where
  "free_pages pas p = foldl (\<lambda>p pa. if pa \<noteq> 0 then pmm_free pa p else p) p pas"

definition free_msg :: "mqmsg \<Rightarrow> pmm \<Rightarrow> mqmsg \<times> pmm" where
  "free_msg m p =
     (m\<lparr>m_page := replicate MQ_PAGES 0, m_data := replicate MQ_PAGES [], m_len := 0\<rparr>,
      free_pages (m_page m) p)"

definition q_items :: "mqueue \<Rightarrow> mqmsg list" where
  "q_items q = take (unat (q_count q)) (q_msg q)"

definition mq_free :: "nat \<Rightarrow> mqstate \<Rightarrow> mqstate" where
  "mq_free i s =
     s\<lparr>mpool := foldl (\<lambda>p m. snd (free_msg m p)) (mpool s) (q_items (queues s ! i)),
       queues := (queues s)[i := zero_queue]\<rparr>"

definition by_name :: "u8 list \<Rightarrow> mqstate \<Rightarrow> nat option" where
  "by_name name s = first_idx (\<lambda>q. q_used q \<and> q_linked q \<and> q_name q = name) (queues s)"

definition mq_close :: "mqfile \<Rightarrow> mqtask \<Rightarrow> mqstate \<Rightarrow> mqstate" where
  "mq_close f t s =
     (let i = mf_queue f;
          q = queues s ! i;
          q1 = (if q_notify q = Some (t_id t) then q\<lparr>q_notify := None\<rparr> else q);
          q2 = q1\<lparr>q_refs := q_refs q1 - 1\<rparr>;
          s1 = s\<lparr>queues := (queues s)[i := q2]\<rparr>
      in if q_refs q2 = 0 \<and> \<not> q_linked q2 then mq_free i s1 else s1)"

record mqstat =
  ms_mode :: u32
  ms_uid :: u32
  ms_gid :: u32
  ms_ino :: u32
  ms_nlink :: u32
  ms_size :: u32

definition mq_fstat :: "mqfile \<Rightarrow> mqstate \<Rightarrow> mqstat" where
  "mq_fstat f s =
     (let q = queues s ! mf_queue f
      in \<lparr>ms_mode = 0x8000 OR (q_mode q AND 0x1ff), ms_uid = q_uid q, ms_gid = q_gid q,
          ms_ino = q_ino q, ms_nlink = (if q_linked q then 1 else 0), ms_size = 0\<rparr>)"

definition mq_poll :: "mqfile \<Rightarrow> mqstate \<Rightarrow> u32" where
  "mq_poll f s =
     (let q = queues s ! mf_queue f
      in (if 0 < q_count q then POLLIN OR POLLRDNORM else 0) OR
         (if q_count q < q_maxmsg q then POLLOUT OR POLLWRNORM else 0))"

definition mq_rw :: "mqfile \<Rightarrow> u32 \<Rightarrow> errno + u32" where
  "mq_rw f len = Inl EBADF"

definition may :: "mqueue \<Rightarrow> u32 \<Rightarrow> mqtask \<Rightarrow> bool" where
  "may q acc t =
     (if t_euid t = 0 then True
      else
        let bits = (if t_euid t = q_uid q then drop_bit 6 (q_mode q)
                    else if t_egid t = q_gid q then drop_bit 3 (q_mode q) else q_mode q)
        in if (acc = O_RDONLY \<or> acc = O_RDWR) \<and> bits AND 4 = 0 then False
           else if (acc = O_WRONLY \<or> acc = O_RDWR) \<and> bits AND 2 = 0 then False
           else True)"

text \<open>The attributes of a new queue: none given, a fault, or the two that count.\<close>

datatype mqattr = NoAttr | AttrFault | Attr int int

definition new_attr :: "mqattr \<Rightarrow> mqtask \<Rightarrow> errno + (int \<times> int)" where
  "new_attr a t =
     (case a of
        NoAttr \<Rightarrow> Inr (MQ_USER_MAXMSG, MQ_USER_MSGSIZE)
      | AttrFault \<Rightarrow> Inl EFAULT
      | Attr maxmsg msgsize \<Rightarrow>
          if maxmsg \<le> 0 \<or> msgsize \<le> 0 then Inl EINVAL
          else if (if t_euid t \<noteq> 0 then MQ_USER_MAXMSG < maxmsg \<or> MQ_USER_MSGSIZE < msgsize
                   else int (unat MQ_SLOTS) < maxmsg \<or> MQ_ROOT_MSGSIZE < msgsize) then Inl EINVAL
          else Inr (maxmsg, msgsize))"

text \<open>\<^verbatim>\<open>sys_mq_open\<close>.  First the queue: found, refused or made.\<close>

definition mq_make :: "u8 list \<Rightarrow> u32 \<Rightarrow> mqattr \<Rightarrow> mqtask \<Rightarrow> mqstate \<Rightarrow> (errno + nat) \<times> mqstate" where
  "mq_make name mode a t s =
     (case new_attr a t of
        Inl err \<Rightarrow> (Inl err, s)
      | Inr (maxmsg, msgsize) \<Rightarrow>
          case first_idx (\<lambda>q. \<not> q_used q) (queues s) of
            None \<Rightarrow> (Inl ENOSPC, s)
          | Some i \<Rightarrow>
              (Inr i, s\<lparr>queues := (queues s)[i := zero_queue\<lparr>q_used := True, q_linked := True,
                  q_name := name, q_uid := t_euid t, q_gid := t_egid t,
                  q_mode := mode AND 0x1ff AND NOT (t_umask t),
                  q_maxmsg := of_int maxmsg, q_msgsize := of_int msgsize,
                  q_ino := next_ino s\<rparr>], next_ino := next_ino s + 1\<rparr>))"

definition mq_lookup ::
    "errno + u8 list \<Rightarrow> u32 \<Rightarrow> u32 \<Rightarrow> mqattr \<Rightarrow> mqtask \<Rightarrow> mqstate \<Rightarrow> (errno + nat) \<times> mqstate" where
  "mq_lookup uname oflag mode a t s =
     (case uname of
        Inl err \<Rightarrow> (Inl err, s)
      | Inr name \<Rightarrow>
          if MQ_NAME_MAX < length name then (Inl ENAMETOOLONG, s)
          else if name = [] then (Inl ENOENT, s)
          else if 47 \<in> set name then (Inl EACCES, s)
          else if oflag AND O_ACCMODE = O_ACCMODE then (Inl EINVAL, s)
          else
            case by_name name s of
              Some i \<Rightarrow>
                if oflag AND (O_CREAT OR O_EXCL) = O_CREAT OR O_EXCL then (Inl EEXIST, s)
                else if \<not> may (queues s ! i) (oflag AND O_ACCMODE) t then (Inl EACCES, s)
                else (Inr i, s)
            | None \<Rightarrow>
                if \<not> has oflag O_CREAT then (Inl ENOENT, s) else mq_make name mode a t s)"

definition mq_install ::
    "u32 \<Rightarrow> errno + nat \<Rightarrow> (errno + nat) \<times> mqstate \<Rightarrow> (errno + (nat \<times> mqfile)) \<times> mqstate" where
  "mq_install oflag fd found =
     (case found of
        (Inl err, s1) \<Rightarrow> (Inl err, s1)
      | (Inr i, s1) \<Rightarrow>
          case fd of
            Inl err \<Rightarrow> (Inl err, if q_refs (queues s1 ! i) = 0 then mq_free i s1 else s1)
          | Inr n \<Rightarrow>
              (Inr (n, \<lparr>mf_flags = oflag AND (O_ACCMODE OR O_NONBLOCK OR O_CLOEXEC), mf_queue = i\<rparr>),
               s1\<lparr>queues := (queues s1)[i := (queues s1 ! i)\<lparr>q_refs := q_refs (queues s1 ! i) + 1\<rparr>]\<rparr>))"

definition sys_mq_open ::
    "errno + u8 list \<Rightarrow> u32 \<Rightarrow> u32 \<Rightarrow> mqattr \<Rightarrow> errno + nat \<Rightarrow> mqtask \<Rightarrow> mqstate \<Rightarrow> (errno + (nat \<times> mqfile)) \<times> mqstate" where
  "sys_mq_open uname oflag mode a fd t s = mq_install oflag fd (mq_lookup uname oflag mode a t s)"

text \<open>The copy of the attributes comes after the name has been looked up, and can sleep: this is the
  rest of a call that found no such queue, perhaps long ago.\<close>

definition mq_open_attr ::
    "u8 list \<Rightarrow> u32 \<Rightarrow> u32 \<Rightarrow> mqattr \<Rightarrow> errno + nat \<Rightarrow> mqtask \<Rightarrow> mqstate \<Rightarrow> (errno + (nat \<times> mqfile)) \<times> mqstate" where
  "mq_open_attr name oflag mode a fd t s = mq_install oflag fd (mq_make name mode a t s)"

definition sys_mq_unlink :: "errno + u8 list \<Rightarrow> mqtask \<Rightarrow> mqstate \<Rightarrow> (errno + unit) \<times> mqstate" where
  "sys_mq_unlink uname t s =
     (case uname of
        Inl err \<Rightarrow> (Inl err, s)
      | Inr name \<Rightarrow>
          if MQ_NAME_MAX < length name then (Inl ENAMETOOLONG, s)
          else
            case by_name name s of
              None \<Rightarrow> (Inl ENOENT, s)
            | Some i \<Rightarrow>
                if t_euid t \<noteq> 0 \<and> t_euid t \<noteq> q_uid (queues s ! i) then (Inl EACCES, s)
                else
                  let s1 = s\<lparr>queues := (queues s)[i := (queues s ! i)\<lparr>q_linked := False\<rparr>]\<rparr>
                  in (Inr (), if q_refs (queues s ! i) = 0 then mq_free i s1 else s1))"

text \<open>\<^verbatim>\<open>until\<close>: how long a wait may last, -1 for no limit; the time is absent, a fault, or seconds
  and nanoseconds.\<close>

datatype abstime = NoTime | TimeFault | Time "64 word" int

definition until :: "abstime \<Rightarrow> u32 \<Rightarrow> u32 \<Rightarrow> errno + int" where
  "until uts now_sec now_usec =
     (case uts of
        NoTime \<Rightarrow> Inr (-1)
      | TimeFault \<Rightarrow> Inl EFAULT
      | Time sec nsec \<Rightarrow>
          if nsec < 0 \<or> 1000000000 \<le> nsec then Inl EINVAL
          else
            let left = sint ((sec - ucast now_sec) * 1000 +
                         word_of_int (nsec sdiv 1000000 - sint now_usec sdiv 1000))
            in Inr (if left \<le> 0 then 0 else if 0x7fffffff < left then 0x7fffffff else left))"

text \<open>\<^verbatim>\<open>wait_turn\<close> up to its sleep, and from it.\<close>

definition wait_enter :: "int \<Rightarrow> bool \<Rightarrow> errno option" where
  "wait_enter ms sig = (if sig then Some EINTR else if ms = 0 then Some ETIMEDOUT else None)"

definition wait_leave :: "int \<Rightarrow> u32 \<Rightarrow> bool \<Rightarrow> errno option \<times> int" where
  "wait_leave ms elapsed sig =
     (if sig then Some EINTR else None,
      if ms < 0 then ms
      else
        let ms' = sint (word_of_int ms - elapsed * (1000 div HZ))
        in if ms' < 0 then 0 else ms')"

text \<open>Where a call can be suspended.  In \<^verbatim>\<open>sys_mq_timedsend\<close> on the queue \<open>i\<close>: copying a page of the
  message (\<open>SFetch i m done k\<close>, the page being allocated), copying the time limit, and asleep on
  \<^verbatim>\<open>wq\<close>.  In \<^verbatim>\<open>sys_mq_timedreceive\<close>: copying the time limit, asleep on \<^verbatim>\<open>rq\<close>, storing a page of the
  message taken (\<open>out\<close> has been stored) and storing its priority, if the caller wants it.\<close>

datatype mqcall =
    SFetch nat mqmsg nat nat
  | STime nat mqmsg
  | SWait nat mqmsg int
  | RTime nat bool
  | RWait nat bool int
  | RStore mqmsg nat nat "u8 list" bool
  | RPrio u32 "u8 list"

text \<open>How a stretch of a call ends: a send or a receive returns, or the call is suspended.\<close>

datatype mqturn = SDone "errno + unit" | RDone "errno + (u8 list \<times> u32)" | Sleeps mqcall

text \<open>\<^verbatim>\<open>sys_mq_timedsend\<close>: the checks.\<close>

definition send_checks :: "mqfile option \<Rightarrow> u32 \<Rightarrow> u32 \<Rightarrow> mqstate \<Rightarrow> errno option" where
  "send_checks f len prio s =
     (case f of
        None \<Rightarrow> Some EBADF
      | Some f \<Rightarrow>
          let q = queues s ! mf_queue f
          in if mf_flags f AND O_ACCMODE = O_RDONLY then Some EBADF
             else if q_msgsize q < len then Some EMSGSIZE
             else if MQ_PRIO_MAX \<le> prio then Some EINVAL
             else if q_maxmsg q \<le> q_count q \<and> has (mf_flags f) O_NONBLOCK then Some EAGAIN
             else None)"

text \<open>Where the message goes, and the array after it has been put there.\<close>

definition insert_at :: "u32 \<Rightarrow> mqueue \<Rightarrow> nat" where
  "insert_at prio q = length (takeWhile (\<lambda>m. prio \<le> m_prio m) (q_items q))"

definition insert_msg :: "mqmsg \<Rightarrow> mqueue \<Rightarrow> mqueue" where
  "insert_msg m q =
     (let at = insert_at (m_prio m) q; c = unat (q_count q); ms = q_msg q
      in q\<lparr>q_msg := take at ms @ [m] @ take (c - at) (drop at ms) @ drop (Suc c) ms,
           q_count := q_count q + 1\<rparr>)"

definition SI_MESGQ :: int where "SI_MESGQ = -3"

definition mq_tell :: "mqueue \<Rightarrow> env \<Rightarrow> mqueue \<times> env" where
  "mq_tell q e =
     (if q_count q = 1 \<and> q_notify q \<noteq> None \<and> q_receivers q = 0 then
        (q\<lparr>q_notify := None\<rparr>,
         if q_notify_sig q \<noteq> 0
         then signal_send_info (the (q_notify q)) (q_notify_sig q) SI_MESGQ (q_notify_value q) e else e)
      else (q, e))"

definition send_commit :: "nat \<Rightarrow> mqmsg \<Rightarrow> mqstate \<Rightarrow> mqstate" where
  "send_commit i m s =
     (let (q1, e1) = mq_tell (insert_msg m (queues s ! i)) (menv s)
      in s\<lparr>queues := (queues s)[i := q1\<lparr>q_rq := []\<rparr>],
           menv := poll_wake (wake_list (q_rq q1) e1)\<rparr>)"

definition send_fail :: "errno \<Rightarrow> mqmsg \<Rightarrow> mqstate \<Rightarrow> mqturn \<times> mqstate" where
  "send_fail err m s = (SDone (Inl err), s\<lparr>mpool := snd (free_msg m (mpool s))\<rparr>)"

text \<open>One look at \<^verbatim>\<open>while (err == 0 && q->count >= q->maxmsg)\<close>, and the way out.\<close>

definition send_pass :: "nat \<Rightarrow> mqmsg \<Rightarrow> int \<Rightarrow> bool \<Rightarrow> nat \<Rightarrow> mqstate \<Rightarrow> mqturn \<times> mqstate" where
  "send_pass i m ms sig c s =
     (let q = queues s ! i
      in if q_count q < q_maxmsg q then (SDone (Inr ()), send_commit i m s)
         else
           case wait_enter ms sig of
             Some err \<Rightarrow> send_fail err m s
           | None \<Rightarrow> (Sleeps (SWait i m ms), s\<lparr>queues := (queues s)[i := q\<lparr>q_wq := q_wq q @ [c]\<rparr>]\<rparr>))"

text \<open>A sleeper that was not woken by \<^verbatim>\<open>wake_all\<close>, after a timeout or a signal, takes itself off
  the queue it slept on.\<close>

definition leave_wq :: "nat \<Rightarrow> nat \<Rightarrow> mqstate \<Rightarrow> mqstate" where
  "leave_wq i c s = s\<lparr>queues := (queues s)[i := (queues s ! i)\<lparr>q_wq := removeAll c (q_wq (queues s ! i))\<rparr>]\<rparr>"

definition leave_rq :: "nat \<Rightarrow> nat \<Rightarrow> mqstate \<Rightarrow> mqstate" where
  "leave_rq i c s = s\<lparr>queues := (queues s)[i := (queues s ! i)\<lparr>q_rq := removeAll c (q_rq (queues s ! i))\<rparr>]\<rparr>"

definition send_resume ::
    "nat \<Rightarrow> mqmsg \<Rightarrow> int \<Rightarrow> u32 \<Rightarrow> bool \<Rightarrow> nat \<Rightarrow> mqstate \<Rightarrow> mqturn \<times> mqstate" where
  "send_resume i m ms elapsed sig c s =
     (case wait_leave ms elapsed sig of
        (Some err, ms') \<Rightarrow> send_fail err m (leave_wq i c s)
      | (None, ms') \<Rightarrow> send_pass i m ms' sig c (leave_wq i c s))"

text \<open>The limit has been copied: \<^verbatim>\<open>until\<close> and the first look at the loop.\<close>

definition send_time ::
    "nat \<Rightarrow> abstime \<Rightarrow> u32 \<Rightarrow> u32 \<Rightarrow> bool \<Rightarrow> nat \<Rightarrow> mqmsg \<Rightarrow> mqstate \<Rightarrow> mqturn \<times> mqstate" where
  "send_time i uts now_sec now_usec sig c m s =
     (case until uts now_sec now_usec of
        Inl err \<Rightarrow> send_fail err m s
      | Inr ms \<Rightarrow> send_pass i m ms sig c s)"

text \<open>The message is in its pages: is there room now?  \<open>flags\<close> are the descriptor's at this moment.\<close>

definition send_room :: "nat \<Rightarrow> u32 \<Rightarrow> mqmsg \<Rightarrow> mqstate \<Rightarrow> mqturn \<times> mqstate" where
  "send_room i flags m s =
     (let q = queues s ! i
      in if q_maxmsg q \<le> q_count q then
           if has flags O_NONBLOCK then send_fail EAGAIN m s else (Sleeps (STime i m), s)
         else (SDone (Inr ()), send_commit i m s))"

text \<open>How many bytes the page at offset \<open>done\<close> of the message has.\<close>

definition page_bytes :: "mqmsg \<Rightarrow> nat \<Rightarrow> nat" where
  "page_bytes m done =
     (if unat (m_len m) - done < unat PAGE_SIZE then unat (m_len m) - done else unat PAGE_SIZE)"

text \<open>The top of the loop that fills the pages, up to the copy, and what follows the copy of a page:
  \<open>None\<close> is a fault.\<close>

definition send_load :: "nat \<Rightarrow> u32 \<Rightarrow> mqmsg \<Rightarrow> nat \<Rightarrow> nat \<Rightarrow> mqstate \<Rightarrow> mqturn \<times> mqstate" where
  "send_load i flags m done k s =
     (if done < unat (m_len m) then
        let (pa, p1) = pmm_alloc (mpool s);
            m1 = m\<lparr>m_page := (m_page m)[k := pa]\<rparr>;
            s1 = s\<lparr>mpool := p1\<rparr>
        in if pa = 0 then send_fail ENOMEM m1 s1 else (Sleeps (SFetch i m1 done k), s1)
      else send_room i flags m s)"

definition send_fetched ::
    "nat \<Rightarrow> u8 list option \<Rightarrow> u32 \<Rightarrow> mqmsg \<Rightarrow> nat \<Rightarrow> nat \<Rightarrow> mqstate \<Rightarrow> mqturn \<times> mqstate" where
  "send_fetched i r flags m done k s =
     (case r of
        None \<Rightarrow> send_fail EFAULT m s
      | Some bs \<Rightarrow> send_load i flags (m\<lparr>m_data := (m_data m)[k := bs]\<rparr>) (done + unat PAGE_SIZE) (Suc k) s)"

definition sys_mq_timedsend :: "mqfile option \<Rightarrow> u32 \<Rightarrow> u32 \<Rightarrow> mqstate \<Rightarrow> mqturn \<times> mqstate" where
  "sys_mq_timedsend fo len prio s =
     (case send_checks fo len prio s of
        Some err \<Rightarrow> (SDone (Inl err), s)
      | None \<Rightarrow>
          let f = the fo
          in send_load (mf_queue f) (mf_flags f) (zero_msg\<lparr>m_prio := prio, m_len := len\<rparr>) 0 0 s)"

text \<open>\<^verbatim>\<open>sys_mq_timedreceive\<close>; \<open>want\<close> is whether the caller asked for the priority.\<close>

definition take_msg :: "mqueue \<Rightarrow> mqmsg \<times> mqueue" where
  "take_msg q =
     (let c = unat (q_count q - 1)
      in (q_msg q ! 0,
          q\<lparr>q_count := q_count q - 1,
            q_msg := take c (drop 1 (q_msg q)) @ [zero_msg] @ drop (Suc c) (q_msg q)\<rparr>))"

text \<open>The top of the loop that stores the pages.\<close>

definition recv_store ::
    "mqmsg \<Rightarrow> nat \<Rightarrow> nat \<Rightarrow> u8 list \<Rightarrow> bool \<Rightarrow> mqstate \<Rightarrow> mqturn \<times> mqstate" where
  "recv_store m done k out want s =
     (if done < unat (m_len m) then (Sleeps (RStore m done k out want), s)
      else
        let s1 = s\<lparr>mpool := snd (free_msg m (mpool s))\<rparr>
        in if want then (Sleeps (RPrio (m_prio m) out), s1) else (RDone (Inr (out, m_prio m)), s1))"

definition recv_stored ::
    "bool \<Rightarrow> mqmsg \<Rightarrow> nat \<Rightarrow> nat \<Rightarrow> u8 list \<Rightarrow> bool \<Rightarrow> mqstate \<Rightarrow> mqturn \<times> mqstate" where
  "recv_stored ok m done k out want s =
     (if \<not> ok then (RDone (Inl EFAULT), s\<lparr>mpool := snd (free_msg m (mpool s))\<rparr>)
      else recv_store m (done + unat PAGE_SIZE) (Suc k) (out @ take (page_bytes m done) (m_data m ! k)) want s)"

definition recv_prio :: "bool \<Rightarrow> u32 \<Rightarrow> u8 list \<Rightarrow> mqstate \<Rightarrow> mqturn \<times> mqstate" where
  "recv_prio ok prio out s = (RDone (if ok then Inr (out, prio) else Inl EFAULT), s)"

definition recv_commit :: "nat \<Rightarrow> bool \<Rightarrow> mqstate \<Rightarrow> mqturn \<times> mqstate" where
  "recv_commit i want s =
     (let (m, q1) = take_msg (queues s ! i);
          s1 = s\<lparr>queues := (queues s)[i := q1\<lparr>q_wq := []\<rparr>],
                 menv := poll_wake (wake_list (q_wq q1) (menv s))\<rparr>
      in recv_store m 0 0 [] want s1)"

definition add_receiver :: "nat \<Rightarrow> int \<Rightarrow> mqstate \<Rightarrow> mqstate" where
  "add_receiver i d s =
     s\<lparr>queues := (queues s)[i := (queues s ! i)\<lparr>q_receivers := q_receivers (queues s ! i) + d\<rparr>]\<rparr>"

text \<open>One look at \<^verbatim>\<open>while (q->count == 0)\<close> by a task counted in \<^verbatim>\<open>receivers\<close>.\<close>

definition recv_pass :: "nat \<Rightarrow> bool \<Rightarrow> int \<Rightarrow> bool \<Rightarrow> nat \<Rightarrow> mqstate \<Rightarrow> mqturn \<times> mqstate" where
  "recv_pass i want ms sig c s =
     (let q = queues s ! i
      in if q_count q = 0 then
           case wait_enter ms sig of
             Some err \<Rightarrow> (RDone (Inl err), add_receiver i (-1) s)
           | None \<Rightarrow> (Sleeps (RWait i want ms), s\<lparr>queues := (queues s)[i := q\<lparr>q_rq := q_rq q @ [c]\<rparr>]\<rparr>)
         else recv_commit i want (add_receiver i (-1) s))"

definition recv_resume ::
    "nat \<Rightarrow> bool \<Rightarrow> int \<Rightarrow> u32 \<Rightarrow> bool \<Rightarrow> nat \<Rightarrow> mqstate \<Rightarrow> mqturn \<times> mqstate" where
  "recv_resume i want ms elapsed sig c s =
     (case wait_leave ms elapsed sig of
        (Some err, ms') \<Rightarrow> (RDone (Inl err), add_receiver i (-1) (leave_rq i c s))
      | (None, ms') \<Rightarrow> recv_pass i want ms' sig c (leave_rq i c s))"

definition recv_time ::
    "nat \<Rightarrow> bool \<Rightarrow> abstime \<Rightarrow> u32 \<Rightarrow> u32 \<Rightarrow> bool \<Rightarrow> nat \<Rightarrow> mqstate \<Rightarrow> mqturn \<times> mqstate" where
  "recv_time i want uts now_sec now_usec sig c s =
     (case until uts now_sec now_usec of
        Inl err \<Rightarrow> (RDone (Inl err), s)
      | Inr ms \<Rightarrow> recv_pass i want ms sig c (add_receiver i 1 s))"

definition sys_mq_timedreceive :: "mqfile option \<Rightarrow> u32 \<Rightarrow> bool \<Rightarrow> mqstate \<Rightarrow> mqturn \<times> mqstate" where
  "sys_mq_timedreceive fo len want s =
     (case fo of
        None \<Rightarrow> (RDone (Inl EBADF), s)
      | Some f \<Rightarrow>
          let i = mf_queue f; q = queues s ! i
          in if mf_flags f AND O_ACCMODE = O_WRONLY then (RDone (Inl EBADF), s)
             else if len < q_msgsize q then (RDone (Inl EMSGSIZE), s)
             else if q_count q = 0 then
               if has (mf_flags f) O_NONBLOCK then (RDone (Inl EAGAIN), s)
               else (Sleeps (RTime i want), s)
             else recv_commit i want s)"

text \<open>\<^verbatim>\<open>sys_mq_notify\<close>: the event is absent, a fault, or value, signal and kind.\<close>

datatype sigevent = NoEvent | EventFault | Event u32 int int

definition NSIG :: int where "NSIG = 32"

definition sys_mq_notify :: "mqfile option \<Rightarrow> sigevent \<Rightarrow> mqtask \<Rightarrow> mqstate \<Rightarrow> (errno + unit) \<times> mqstate" where
  "sys_mq_notify fo ev t s =
     (case fo of
        None \<Rightarrow> (Inl EBADF, s)
      | Some f \<Rightarrow>
          let i = mf_queue f; q = queues s ! i
          in case ev of
               NoEvent \<Rightarrow>
                 (Inr (), if q_notify q = Some (t_id t)
                          then s\<lparr>queues := (queues s)[i := q\<lparr>q_notify := None\<rparr>]\<rparr> else s)
             | EventFault \<Rightarrow> (Inl EFAULT, s)
             | Event v signo kind \<Rightarrow>
                 if kind \<noteq> 0 \<and> kind \<noteq> 1 then (Inl EINVAL, s)
                 else if kind = 0 \<and> (signo \<le> 0 \<or> NSIG \<le> signo) then (Inl EINVAL, s)
                 else if q_notify q \<noteq> None \<and> q_notify q \<noteq> Some (t_id t) then (Inl EBUSY, s)
                 else (Inr (), s\<lparr>queues := (queues s)[i := q\<lparr>q_notify := Some (t_id t),
                                   q_notify_sig := (if kind = 0 then signo else 0),
                                   q_notify_value := v\<rparr>]\<rparr>))"

text \<open>\<^verbatim>\<open>sys_mq_getsetattr\<close>: the new flags are absent, a fault, or a word; the attributes stored are
  flags, maxmsg, msgsize and the number of messages.\<close>

datatype newflags = NoFlags | FlagsFault | Flags u32

definition sys_mq_getsetattr ::
    "mqfile option \<Rightarrow> newflags \<Rightarrow> bool \<Rightarrow> mqstate \<Rightarrow> (errno + (u32 \<times> u32 \<times> u32 \<times> u32)) \<times> mqfile option" where
  "sys_mq_getsetattr fo new sto_ok s =
     (case fo of
        None \<Rightarrow> (Inl EBADF, None)
      | Some f \<Rightarrow>
          let q = queues s ! mf_queue f;
              a = (mf_flags f AND O_NONBLOCK, q_maxmsg q, q_msgsize q, q_count q);
              out = (\<lambda>f'. (if sto_ok then Inr a else Inl EFAULT, Some f'))
          in case new of
               NoFlags \<Rightarrow> out f
             | FlagsFault \<Rightarrow> (Inl EFAULT, Some f)
             | Flags n \<Rightarrow>
                 if n AND NOT O_NONBLOCK \<noteq> 0 then (Inl EINVAL, Some f)
                 else out (f\<lparr>mf_flags := (mf_flags f AND NOT O_NONBLOCK) OR (n AND O_NONBLOCK)\<rparr>))"

definition mq_task_exit :: "nat \<Rightarrow> mqstate \<Rightarrow> mqstate" where
  "mq_task_exit t s =
     s\<lparr>queues := map (\<lambda>q. if q_used q \<and> q_notify q = Some t then q\<lparr>q_notify := None\<rparr> else q) (queues s)\<rparr>"

section \<open>Stable sorting by priority\<close>

text \<open>What a receiver sees of a message: its priority and its bytes.  Queues are kept with the
  highest priority first, so they are sorted by the negated priority.\<close>

definition m_view :: "mqmsg \<Rightarrow> u32 \<times> u8 list" where
  "m_view m = (m_prio m, concat (m_data m))"

definition by_prio :: "u32 \<times> u8 list \<Rightarrow> int" where
  "by_prio x = - int (unat (fst x))"

lemma by_prio_le: "by_prio x \<le> by_prio y \<longleftrightarrow> fst y \<le> fst x"
  by (simp only: by_prio_def neg_le_iff_le of_nat_le_iff word_le_nat_alt)

lemma sort_key_snoc:
  "sort_key f (xs @ [x]) =
     takeWhile (\<lambda>y. f y \<le> f x) (sort_key f xs) @ x # dropWhile (\<lambda>y. f y \<le> f x) (sort_key f xs)"
  (is "_ = ?ys")
proof (rule properties_for_sort_key)
  let ?s = "sort_key f xs" and ?P = "\<lambda>y. f y \<le> f x"
  have split: "filter Q (takeWhile ?P ?s) @ filter Q (dropWhile ?P ?s) = filter Q xs"
    if "Q = (\<lambda>y. f k = f y)" for Q k
    using sort_key_stable [where f = f and k = "f k" and xs = xs] that by (simp flip: filter_append add: eq_commute)
  have "mset (takeWhile ?P ?s @ dropWhile ?P ?s) = mset xs" by simp
  then show "mset ?ys = mset (xs @ [x])" by (simp del: takeWhile_dropWhile_id)
  have sorted: "sorted (map f (takeWhile ?P ?s) @ map f (dropWhile ?P ?s))"
    by (simp flip: map_append)
  have above: "f x < f y" if y: "y \<in> set (dropWhile ?P ?s)" for y
  proof -
    obtain z zs where zs: "dropWhile ?P ?s = z # zs" using y by (cases "dropWhile ?P ?s") auto
    then have "\<not> f z \<le> f x" using hd_dropWhile [of ?P ?s] by auto
    moreover have "f z \<le> f y" using sorted y zs by (auto simp: sorted_append)
    ultimately show ?thesis by (metis not_le order_less_le_trans)
  qed
  show "filter (\<lambda>y. f k = f y) ?ys = filter (\<lambda>y. f k = f y) (xs @ [x])" if "k \<in> set ?ys" for k
  proof (cases "f k = f x")
    case True
    then have "filter (\<lambda>y. f k = f y) (dropWhile ?P ?s) = []"
      unfolding filter_empty_conv using above by (metis less_irrefl)
    then show ?thesis using split [OF refl, of k] True by simp
  next
    case False
    then show ?thesis using split [OF refl, of k] by simp
  qed
  show "sorted (map f ?ys)"
    using sorted above by (auto simp: sorted_append dest: set_takeWhileD less_imp_le)
qed

text \<open>The message a receiver is to get: the first of those with the greatest priority.\<close>

definition first_max :: "(u32 \<times> u8 list) list \<Rightarrow> (u32 \<times> u8 list) option" where
  "first_max l = find (\<lambda>x. \<forall>y \<in> set l. fst y \<le> fst x) l"

lemma find_filter: "find P xs = (case filter P xs of [] \<Rightarrow> None | x # _ \<Rightarrow> Some x)"
  by (induction xs) auto

lemma sort_by_prio_Cons:
  assumes S: "sort_key by_prio l = h # t"
  shows "first_max l = Some h" and "sort_key by_prio (remove1 h l) = t"
proof -
  have set: "set l = insert h (set t)" using S by (metis set_sort list.simps(15))
  have "sorted (map by_prio (h # t))" using S by (metis sorted_sort_key)
  then have least: "by_prio h \<le> by_prio y" if "y \<in> set l" for y using that set by auto
  have stable: "filter (\<lambda>y. by_prio y = by_prio k) (h # t) = filter (\<lambda>y. by_prio y = by_prio k) l" for k
    using sort_key_stable [where f = by_prio and k = "by_prio k" and xs = l] S by simp
  have "(\<forall>y \<in> set l. fst y \<le> fst x) \<longleftrightarrow> by_prio x = by_prio h" if "x \<in> set l" for x
    using least [OF that] least set by (auto simp: by_prio_le [symmetric] intro: antisym)
  then have "filter (\<lambda>x. \<forall>y \<in> set l. fst y \<le> fst x) l = filter (\<lambda>y. by_prio y = by_prio h) l"
    by (intro filter_cong) auto
  then show "first_max l = Some h" by (simp add: first_max_def find_filter stable [of h, symmetric])
  show "sort_key by_prio (remove1 h l) = t"
  proof (rule properties_for_sort_key)
    have "mset l = add_mset h (mset t)" using S by (metis mset.simps(2) mset_sort)
    then show "mset t = mset (remove1 h l)" by simp
    show "sorted (map by_prio t)" using \<open>sorted (map by_prio (h # t))\<close> by simp
    show "filter (\<lambda>y. by_prio k = by_prio y) t = filter (\<lambda>y. by_prio k = by_prio y) (remove1 h l)" for k
    proof (cases "by_prio k = by_prio h")
      case True
      have "filter (\<lambda>y. by_prio y = by_prio k) l = h # filter (\<lambda>y. by_prio y = by_prio k) t"
        using stable [of k] True by simp
      then show ?thesis by (simp add: filter_remove1 eq_commute)
    next
      case False
      have "h \<notin> set (filter (\<lambda>y. by_prio k = by_prio y) l)" using False by simp
      then show ?thesis using stable [of k] False by (simp add: filter_remove1 remove1_idem eq_commute)
    qed
  qed
qed

section \<open>The array of messages\<close>

definition queue_ok :: "mqueue \<Rightarrow> bool" where
  "queue_ok q \<longleftrightarrow> length (q_msg q) = 64 \<and> q_count q \<le> q_maxmsg q \<and> q_maxmsg q \<le> 64"

lemma queue_okD:
  assumes "queue_ok q"
  shows "length (q_msg q) = 64" and "unat (q_count q) \<le> 64" and "length (q_items q) = unat (q_count q)"
proof -
  show "length (q_msg q) = 64" using assms by (simp add: queue_ok_def)
  have "unat (q_count q) \<le> unat (64 :: u32)"
    using assms by (simp add: queue_ok_def word_le_nat_alt)
  then show "unat (q_count q) \<le> 64" by simp
  then show "length (q_items q) = unat (q_count q)" using \<open>length (q_msg q) = 64\<close> by (simp add: q_items_def)
qed

lemma insert_msg_items:
  assumes "queue_ok q" and "q_count q < q_maxmsg q"
  shows "queue_ok (insert_msg m q)"
    and "q_items (insert_msg m q) =
      takeWhile (\<lambda>x. m_prio m \<le> m_prio x) (q_items q) @ m # dropWhile (\<lambda>x. m_prio m \<le> m_prio x) (q_items q)"
proof -
  note q = queue_okD [OF assms(1)]
  let ?at = "insert_at (m_prio m) q" and ?c = "unat (q_count q)" and ?P = "\<lambda>x. m_prio m \<le> m_prio x"
  have "unat (q_count q) < unat (q_maxmsg q)" "unat (q_maxmsg q) \<le> unat (64 :: u32)"
    using assms by (auto simp: queue_ok_def word_less_nat_alt word_le_nat_alt)
  then have c: "?c < 64" "unat (q_count q + 1) = Suc ?c" by (auto simp: unat_word_ariths)
  have at: "?at \<le> ?c" using length_takeWhile_le [of ?P "q_items q"] q(3) by (simp add: insert_at_def)
  have tw: "take ?at (q_msg q) = takeWhile ?P (q_items q)"
    using at by (metis insert_at_def q_items_def min.absorb1 take_take takeWhile_eq_take)
  have dw: "take (?c - ?at) (drop ?at (q_msg q)) = dropWhile ?P (q_items q)"
    by (metis dropWhile_eq_drop insert_at_def q_items_def drop_take)
  have "q_count q + 1 \<le> q_maxmsg q" using assms(2) by (simp add: inc_le)
  then show "queue_ok (insert_msg m q)"
    using assms(1) at c q by (simp add: queue_ok_def insert_msg_def Let_def)
  let ?r = "takeWhile ?P (q_items q) @ m # dropWhile ?P (q_items q)"
  have "q_msg (insert_msg m q) = ?r @ drop (Suc ?c) (q_msg q)"
    by (simp add: insert_msg_def Let_def tw dw)
  moreover have "length (takeWhile ?P (q_items q)) + length (dropWhile ?P (q_items q)) = ?c"
    using q(3) by (metis length_append takeWhile_dropWhile_id)
  then have "unat (q_count (insert_msg m q)) = length ?r"
    using c(2) by (simp add: insert_msg_def Let_def)
  ultimately show "q_items (insert_msg m q) = ?r" by (simp add: q_items_def)
qed

lemma take_msg_items:
  assumes "queue_ok q" and "q_count q \<noteq> 0" and "take_msg q = (m, q')"
  shows "queue_ok q'" and "q_items q = m # q_items q'"
proof -
  note q = queue_okD [OF assms(1)]
  have "0 < unat (q_count q)" using assms(2) by (simp add: unat_gt_0)
  then obtain k where k: "unat (q_count q) = Suc k" "unat (q_count q - 1) = k"
    using assms(2) by (metis Suc_pred' unat_minus_one)
  have "q_count q - 1 \<le> q_count q" using assms(2) k by (simp add: word_le_nat_alt)
  then show "queue_ok q'"
    using assms k q by (auto simp: take_msg_def Let_def queue_ok_def)
  obtain x xs where x: "q_msg q = x # xs" using q(1) by (cases "q_msg q") auto
  have "q_items q' = take k xs"
    using assms(3) k q x by (auto simp: take_msg_def Let_def q_items_def)
  then show "q_items q = m # q_items q'"
    using assms(3) k x by (auto simp: take_msg_def Let_def q_items_def)
qed

text \<open>Queue \<open>q\<close> holds the messages \<open>l\<close>, listed in the order of their arrival.\<close>

definition q_is :: "mqueue \<Rightarrow> (u32 \<times> u8 list) list \<Rightarrow> bool" where
  "q_is q l \<longleftrightarrow> map m_view (q_items q) = sort_key by_prio l"

lemma insert_msg_is:
  assumes "queue_ok q" and "q_count q < q_maxmsg q" and "q_is q l"
  shows "q_is (insert_msg m q) (l @ [m_view m])"
proof -
  have P: "(\<lambda>y. by_prio y \<le> by_prio (m_view m)) \<circ> m_view = (\<lambda>x. m_prio m \<le> m_prio x)"
    by (auto simp: by_prio_le m_view_def)
  show ?thesis
    using insert_msg_items(2) [OF assms(1,2)] assms(3)
    unfolding q_is_def sort_key_snoc
    by (simp flip: assms(3) [unfolded q_is_def] add: takeWhile_map dropWhile_map P)
qed

lemma take_msg_is:
  assumes "queue_ok q" and "q_count q \<noteq> 0" and "take_msg q = (m, q')" and "q_is q l"
  shows "first_max l = Some (m_view m)" and "q_is q' (remove1 (m_view m) l)"
proof -
  have "sort_key by_prio l = m_view m # map m_view (q_items q')"
    using take_msg_items(2) [OF assms(1-3)] assms(4) by (simp add: q_is_def)
  note S = sort_by_prio_Cons [OF this]
  show "first_max l = Some (m_view m)" "q_is q' (remove1 (m_view m) l)" using S by (simp_all add: q_is_def)
qed

section \<open>Messages in pages\<close>

definition msg_ok :: "mqmsg \<Rightarrow> bool" where
  "msg_ok m \<longleftrightarrow> unat (m_len m) \<le> 65536 \<and> length (m_page m) = 16 \<and> length (m_data m) = 16 \<and>
     (\<forall>i < 16. length (m_data m ! i) = min 4096 (unat (m_len m) - 4096 * i) \<and>
       (4096 * i < unat (m_len m) \<longrightarrow> m_page m ! i \<noteq> 0))"

definition pages_of :: "mqmsg \<Rightarrow> u32 multiset" where
  "pages_of m = mset (filter (\<lambda>p. p \<noteq> 0) (m_page m))"

lemma pages_of_zero [simp]: "pages_of zero_msg = {#}"
  by (simp add: pages_of_def zero_msg_def)

lemma pages_of_fields [simp]:
  "pages_of (m\<lparr>m_prio := p, m_len := n\<rparr>) = pages_of m" "pages_of (m\<lparr>m_data := d\<rparr>) = pages_of m"
  by (simp_all add: pages_of_def)

lemma pages_of_add:
  assumes "i < length (m_page m)" and "m_page m ! i = 0" and "pa \<noteq> 0"
  shows "pages_of (m\<lparr>m_page := (m_page m)[i := pa]\<rparr>) = add_mset pa (pages_of m)"
proof -
  have "mset ((m_page m)[i := pa]) = add_mset pa (mset (m_page m) - {#0#})"
    using mset_update [OF assms(1)] assms(2) by simp
  then show ?thesis using assms(3) by (simp add: pages_of_def mset_filter)
qed

lemma free_pages_accounted:
  "pool.accounted p (mset (filter (\<lambda>p. p \<noteq> 0) pas) + M) oth \<Longrightarrow> pool.accounted (free_pages pas p) M oth"
proof (induction pas arbitrary: p)
  case (Cons pa pas)
  show ?case
  proof (cases "pa = 0")
    case True
    then show ?thesis using Cons by (simp add: free_pages_def)
  next
    case False
    then have "pool.accounted (pmm_free pa p) (mset (filter (\<lambda>p. p \<noteq> 0) pas) + M) oth"
      using Cons.prems by (intro pool.accounted_release) simp
    then show ?thesis using Cons.IH False by (simp add: free_pages_def)
  qed
qed (simp add: free_pages_def)

lemma free_msg_accounted:
  "pool.accounted p (pages_of m + M) oth \<Longrightarrow> pool.accounted (snd (free_msg m p)) M oth"
  by (simp add: free_msg_def pages_of_def free_pages_accounted)

lemma free_msgs_accounted:
  "pool.accounted p (sum_list (map pages_of ms) + M) oth \<Longrightarrow>
   pool.accounted (foldl (\<lambda>p m. snd (free_msg m p)) p ms) M oth"
proof (induction ms arbitrary: p)
  case (Cons m ms)
  then have "pool.accounted (snd (free_msg m p)) (sum_list (map pages_of ms) + M) oth"
    by (intro free_msg_accounted) (simp add: add.assoc)
  then show ?case using Cons.IH by simp
qed simp

text \<open>A message of which \<open>n\<close> pages are allocated and the first \<open>k\<close> filled, with the bytes \<open>b\<close>.\<close>

definition filled :: "mqmsg \<Rightarrow> nat \<Rightarrow> nat \<Rightarrow> u8 list \<Rightarrow> bool" where
  "filled m k n b \<longleftrightarrow> unat (m_len m) \<le> 65536 \<and> length (m_page m) = 16 \<and> length (m_data m) = 16 \<and>
     (\<forall>j < 16. (m_page m ! j = 0 \<longleftrightarrow> n \<le> j) \<and>
        length (m_data m ! j) = (if j < k then min 4096 (unat (m_len m) - 4096 * j) else 0)) \<and>
     concat (m_data m) = b"

lemma page_bytes_min: "page_bytes m (4096 * k) = min 4096 (unat (m_len m) - 4096 * k)"
  by (simp add: page_bytes_def PAGE_SIZE_def min_def)

lemma filled_empty: "unat len \<le> 65536 \<Longrightarrow> filled (zero_msg\<lparr>m_prio := p, m_len := len\<rparr>) 0 0 []"
  by (simp add: filled_def zero_msg_def MQ_PAGES_def)

lemma filled_alloc:
  assumes "filled m k k b" and "4096 * k < unat (m_len m)" and "pa \<noteq> 0"
  shows "filled (m\<lparr>m_page := (m_page m)[k := pa]\<rparr>) k (Suc k) b"
proof -
  have "k < 16" using assms(1,2) by (auto simp: filled_def)
  then show ?thesis using assms by (auto simp: filled_def nth_list_update)
qed

lemma concat_fill:
  assumes "k < length ds" and "\<forall>j. k \<le> j \<and> j < length ds \<longrightarrow> ds ! j = []"
  shows "concat (ds[k := bs]) = concat ds @ bs"
proof -
  have "\<forall>d \<in> set (drop n ds). d = []" if "k \<le> n" for n
    using assms(2) that by (auto simp: in_set_conv_nth)
  from this [of k] this [of "Suc k"] have "concat (drop k ds) = []" "concat (drop (Suc k) ds) = []" by auto
  moreover have "concat ds = concat (take k ds) @ concat (drop k ds)"
    by (metis append_take_drop_id concat_append)
  ultimately show ?thesis using assms(1) by (simp add: upd_conv_take_nth_drop del: concat_eq_Nil_conv)
qed

lemma filled_fetch:
  assumes "filled m k (Suc k) b" and "4096 * k < unat (m_len m)" and "length bs = page_bytes m (4096 * k)"
  shows "filled (m\<lparr>m_data := (m_data m)[k := bs]\<rparr>) (Suc k) (Suc k) (b @ bs)"
proof -
  have "k < 16" using assms(1,2) by (auto simp: filled_def)
  moreover have "m_data m ! j = []" if "k \<le> j" "j < 16" for j using assms(1) that by (auto simp: filled_def)
  ultimately have "concat ((m_data m)[k := bs]) = b @ bs"
    using assms(1) concat_fill [of k "m_data m" bs] by (simp add: filled_def)
  then show ?thesis
    using assms(1,3) by (auto simp: filled_def nth_list_update page_bytes_min less_Suc_eq)
qed

lemma filled_whole:
  assumes "filled m k k b" and "unat (m_len m) \<le> 4096 * k"
  shows "msg_ok m" and "m_view m = (m_prio m, b)"
  using assms by (auto simp: filled_def msg_ok_def m_view_def)

lemma stored_page:
  assumes "msg_ok m" and "4096 * k < unat (m_len m)"
  shows "concat (take k (m_data m)) @ take (page_bytes m (4096 * k)) (m_data m ! k) = concat (take (Suc k) (m_data m))"
proof -
  have k: "k < 16" using assms by (auto simp: msg_ok_def)
  then have "take (page_bytes m (4096 * k)) (m_data m ! k) = m_data m ! k"
    using assms(1) by (simp add: msg_ok_def page_bytes_min)
  then show ?thesis using k assms(1) by (simp add: msg_ok_def take_Suc_conv_app_nth)
qed

lemma stored_whole:
  assumes "msg_ok m" and "unat (m_len m) \<le> 4096 * k"
  shows "concat (take k (m_data m)) = concat (m_data m)"
proof -
  have "m_data m ! (k + j) = []" if "j < 16 - k" for j
  proof -
    have "length (m_data m ! (k + j)) = min 4096 (unat (m_len m) - 4096 * (k + j))"
      using assms(1) that by (simp add: msg_ok_def)
    then show ?thesis using assms(2) by simp
  qed
  then have "\<forall>d \<in> set (drop k (m_data m)). d = []"
    using assms by (auto simp: msg_ok_def in_set_conv_nth)
  then have "concat (drop k (m_data m)) = []" by simp
  then show ?thesis by (metis append_Nil2 append_take_drop_id concat_append)
qed

section \<open>The whole table\<close>

definition queue_good :: "mqueue \<Rightarrow> bool" where
  "queue_good q \<longleftrightarrow> queue_ok q \<and> (\<not> q_used q \<longrightarrow> q_maxmsg q = 0) \<and> q_msgsize q \<le> 65536 \<and>
     (\<forall>m \<in> set (q_items q). msg_ok m)"

definition queue_pages :: "mqueue \<Rightarrow> u32 multiset" where
  "queue_pages q = sum_list (map pages_of (q_items q))"

definition mq_pages :: "mqstate \<Rightarrow> u32 multiset" where
  "mq_pages s = sum_list (map queue_pages (queues s))"

text \<open>\<open>X\<close> are the pages held on behalf of messages that are not in a queue.\<close>

definition mq_acc :: "mqstate \<Rightarrow> u32 multiset \<Rightarrow> (u32 \<Rightarrow> nat) \<Rightarrow> bool" where
  "mq_acc s X oth \<longleftrightarrow> pool.accounted (mpool s) (mq_pages s + X) oth"

definition queues_good :: "mqstate \<Rightarrow> bool" where
  "queues_good s \<longleftrightarrow> list_all queue_good (queues s)"

text \<open>The part of a queue that the messages are in; most steps leave it alone.\<close>

definition core :: "mqueue \<Rightarrow> bool \<times> u32 \<times> mqmsg list \<times> u32 \<times> u32" where
  "core q = (q_used q, q_count q, q_msg q, q_maxmsg q, q_msgsize q)"

definition quiet :: "mqstate \<Rightarrow> mqstate \<Rightarrow> bool" where
  "quiet s s' \<longleftrightarrow> map core (queues s') = map core (queues s) \<and> mpool s' = mpool s"

lemma core_eqD:
  assumes "core q' = core q"
  shows "q_items q' = q_items q" and "queue_good q' = queue_good q" and "queue_pages q' = queue_pages q"
    and "q_count q' = q_count q" and "q_maxmsg q' = q_maxmsg q" and "q_used q' = q_used q"
proof -
  show i: "q_items q' = q_items q" using assms by (simp add: core_def q_items_def)
  show "queue_good q' = queue_good q" using assms i by (simp add: core_def queue_good_def queue_ok_def)
  show "queue_pages q' = queue_pages q" using i by (simp add: queue_pages_def)
  show "q_count q' = q_count q" "q_maxmsg q' = q_maxmsg q" "q_used q' = q_used q" using assms by (auto simp: core_def)
qed

lemma map_core_nth: "map core qs' = map core qs \<Longrightarrow> i < length qs \<Longrightarrow> core (qs' ! i) = core (qs ! i)"
  by (metis length_map nth_map)

lemma quietD:
  assumes "quiet s s'"
  shows "length (queues s') = length (queues s)" and "i < length (queues s) \<Longrightarrow> core (queues s' ! i) = core (queues s ! i)"
    and "queues_good s' = queues_good s" and "mq_acc s' X oth = mq_acc s X oth"
proof -
  have eq: "map core (queues s') = map core (queues s)" and pool: "mpool s' = mpool s"
    using assms by (auto simp: quiet_def)
  show len: "length (queues s') = length (queues s)" using eq by (metis length_map)
  show nth: "i < length (queues s) \<Longrightarrow> core (queues s' ! i) = core (queues s ! i)" for i
    using map_core_nth [OF eq] .
  show "queues_good s' = queues_good s"
    using core_eqD(2) [OF nth] len by (simp add: queues_good_def list_all_length)
  have "map queue_pages (queues s') = map queue_pages (queues s)"
    by (rule nth_equalityI) (simp_all add: len core_eqD(3) [OF nth])
  then show "mq_acc s' X oth = mq_acc s X oth" using pool by (simp add: mq_acc_def mq_pages_def)
qed

lemma quiet_refl [simp]: "quiet s s" by (simp add: quiet_def)

lemma quiet_trans: "quiet a b \<Longrightarrow> quiet b c \<Longrightarrow> quiet a c" by (simp add: quiet_def)

lemma quiet_update:
  assumes "core q = core (queues s ! i)"
  shows "quiet s (s\<lparr>queues := (queues s)[i := q]\<rparr>)" and "quiet s (s\<lparr>queues := (queues s)[i := q], menv := e\<rparr>)"
proof -
  have "map core ((queues s)[i := q]) = map core (queues s)"
    using assms by (cases "i < length (queues s)") (simp_all add: map_update list_update_same_conv list_update_beyond)
  then show "quiet s (s\<lparr>queues := (queues s)[i := q]\<rparr>)" "quiet s (s\<lparr>queues := (queues s)[i := q], menv := e\<rparr>)"
    by (simp_all add: quiet_def)
qed

lemma quiet_ops:
  "quiet s (leave_wq i c s)" "quiet s (leave_rq i c s)" "quiet s (add_receiver i d s)"
  "quiet s (mq_task_exit t s)"
  by (simp_all add: leave_wq_def leave_rq_def add_receiver_def quiet_update core_def)
    (simp add: mq_task_exit_def quiet_def core_def)

lemma sum_list_update_mset:
  fixes f :: "'a \<Rightarrow> u32 multiset"
  assumes "i < length xs"
  shows "sum_list (map f (xs[i := x])) + f (xs ! i) = sum_list (map f xs) + f x"
  using assms
proof (induction xs arbitrary: i)
  case (Cons y ys)
  then show ?case by (cases i) (auto simp: ac_simps)
qed simp

lemma queues_good_nth: "queues_good s \<Longrightarrow> i < length (queues s) \<Longrightarrow> queue_good (queues s ! i)"
  by (simp add: queues_good_def list_all_length)

lemma queues_good_update:
  "queues_good s \<Longrightarrow> queue_good q \<Longrightarrow> queues s' = (queues s)[i := q] \<Longrightarrow> queues_good s'"
  unfolding queues_good_def list_all_iff using set_update_subset_insert [of "queues s" i q] by auto

text \<open>Replacing a queue moves pages between it and \<open>X\<close>.\<close>

lemma mq_acc_update:
  assumes "i < length (queues s)" and "queues s' = (queues s)[i := q]"
    and "pool.accounted (mpool s') (mq_pages s + X) oth"
    and "queue_pages (queues s ! i) + X = queue_pages q + Y"
  shows "mq_acc s' Y oth"
proof -
  let ?A = "queue_pages (queues s ! i)"
  have "mq_pages s' + ?A = mq_pages s + queue_pages q"
    unfolding mq_pages_def assms(2) by (rule sum_list_update_mset [OF assms(1)])
  then have "?A + (mq_pages s' + Y) = mq_pages s + (queue_pages q + Y)"
    by (simp add: add.left_commute [of ?A] add.assoc [symmetric]) (simp add: add.commute add.assoc)
  also have "\<dots> = ?A + (mq_pages s + X)"
    using assms(4) by (simp add: add.left_commute)
  finally have "mq_pages s + X = mq_pages s' + Y" by simp
  then show ?thesis using assms(3) by (simp add: mq_acc_def)
qed

lemma zero_queue_good: "queue_good zero_queue" "queue_pages zero_queue = {#}" "q_items zero_queue = []"
  by (simp_all add: queue_good_def queue_ok_def zero_queue_def q_items_def queue_pages_def MQ_SLOTS_def)

lemma mq_free_inv:
  assumes "queues_good s" and "i < length (queues s)" and "mq_acc s X oth"
  shows "queues_good (mq_free i s)" and "mq_acc (mq_free i s) X oth"
    and "length (queues (mq_free i s)) = length (queues s)"
    and "j \<noteq> i \<Longrightarrow> queues (mq_free i s) ! j = queues s ! j" and "queues (mq_free i s) ! i = zero_queue"
proof -
  show "queues_good (mq_free i s)"
    by (rule queues_good_update [OF assms(1) zero_queue_good(1)]) (simp add: mq_free_def)
  obtain R where R: "mq_pages s = queue_pages (queues s ! i) + R"
    using sum_list_update_mset [OF assms(2), of queue_pages zero_queue]
    by (simp add: zero_queue_good(2) mq_pages_def [symmetric] add.commute [of _ "queue_pages _"])
      (metis that)
  have "pool.accounted (mpool (mq_free i s)) (R + X) oth"
    using assms(3) R by (simp add: mq_free_def mq_acc_def queue_pages_def free_msgs_accounted add.assoc)
  moreover have "mq_pages (mq_free i s) = R"
    using sum_list_update_mset [OF assms(2), of queue_pages zero_queue] R
    by (simp add: mq_pages_def mq_free_def zero_queue_good(2))
  ultimately show "mq_acc (mq_free i s) X oth" by (simp add: mq_acc_def)
qed (simp_all add: mq_free_def assms(2))

section \<open>What a step does to the messages\<close>

text \<open>The abstract queue: messages in order of arrival.  A receiver takes the first of those with
  the greatest priority; \<open>Gave x y\<close> is the return of a receiver that had taken \<open>x\<close> and has
  stored \<open>y\<close> for its caller.\<close>

datatype mqev = Sent "u32 \<times> u8 list" | Took "u32 \<times> u8 list" | Gave "u32 \<times> u8 list" "u32 \<times> u8 list"

fun spec_run :: "mqev list \<Rightarrow> (u32 \<times> u8 list) list \<Rightarrow> (u32 \<times> u8 list) list option" where
  "spec_run [] l = Some l"
| "spec_run (Sent x # es) l = spec_run es (l @ [x])"
| "spec_run (Took x # es) l = (if first_max l = Some x then spec_run es (remove1 x l) else None)"
| "spec_run (Gave x y # es) l = (if x = y then spec_run es l else None)"

lemma spec_run_append:
  "spec_run (es @ fs) l = (case spec_run es l of None \<Rightarrow> None | Some l' \<Rightarrow> spec_run fs l')"
  by (induction es l rule: spec_run.induct) (auto split: option.splits)

text \<open>The step from \<open>s\<close> to \<open>s'\<close> does \<open>es\<close> to queue \<open>i\<close>, if the queue is there before and after.\<close>

definition effect :: "nat \<Rightarrow> mqev list \<Rightarrow> mqstate \<Rightarrow> mqstate \<Rightarrow> bool" where
  "effect i es s s' \<longleftrightarrow>
     (q_used (queues s ! i) \<and> q_used (queues s' ! i) \<longrightarrow>
       (\<forall>l. q_is (queues s ! i) l \<longrightarrow> (\<exists>l'. spec_run es l = Some l' \<and> q_is (queues s' ! i) l')))"

lemma effect_same: "queues s' ! i = queues s ! i \<Longrightarrow> effect i [] s s'"
  by (auto simp: effect_def)

lemma effect_gone: "\<not> q_used (queues s ! i) \<or> \<not> q_used (queues s' ! i) \<Longrightarrow> effect i es s s'"
  by (auto simp: effect_def)

lemma effect_quiet: "quiet s s' \<Longrightarrow> i < length (queues s) \<Longrightarrow> effect i [] s s'"
  using core_eqD(1) [OF quietD(2) [of s s' i]] by (simp add: effect_def q_is_def)

lemma effect_after_quiet:
  "quiet s s1 \<Longrightarrow> i < length (queues s) \<Longrightarrow> effect i es s1 s' \<Longrightarrow> effect i es s s'"
  using core_eqD [OF quietD(2) [of s s1 i]] by (simp add: effect_def q_is_def)

text \<open>A step keeps the table good, the pages accounted for, and does \<open>ev j\<close> to queue \<open>j\<close>.\<close>

definition good_step ::
    "mqstate \<Rightarrow> u32 multiset \<Rightarrow> (u32 \<Rightarrow> nat) \<Rightarrow> (nat \<Rightarrow> mqev list) \<Rightarrow> mqstate \<Rightarrow> bool" where
  "good_step s X oth ev s' \<longleftrightarrow> queues_good s' \<and> length (queues s') = length (queues s) \<and>
     mq_acc s' X oth \<and> (\<forall>j < length (queues s). effect j (ev j) s s')"

lemma good_step_quiet:
  "queues_good s \<Longrightarrow> mq_acc s X oth \<Longrightarrow> quiet s s' \<Longrightarrow> good_step s X oth (\<lambda>_. []) s'"
  by (simp add: good_step_def quietD effect_quiet)

lemma good_step_after_quiet:
  "quiet s s1 \<Longrightarrow> good_step s1 X oth ev s' \<Longrightarrow> good_step s X oth ev s'"
  by (simp add: good_step_def quietD(1) effect_after_quiet)

lemma good_step_replace:
  assumes "queues_good s" and "i < length (queues s)" and "queue_good q"
    and "queues s' = (queues s)[i := q]" and "mq_acc s' X oth" and "effect i es s s'"
  shows "good_step s X oth (\<lambda>j. if j = i then es else []) s'"
  unfolding good_step_def
proof (intro conjI allI impI)
  show "queues_good s'" using assms(1,3,4) by (rule queues_good_update)
  show "effect j (if j = i then es else []) s s'" if "j < length (queues s)" for j
    using assms(4,6) by (auto intro: effect_same)
qed (use assms in auto)

lemma mq_tell_core: "mq_tell q e = (q1, e1) \<Longrightarrow> core q1 = core q"
  by (auto simp: mq_tell_def core_def split: if_splits)

lemma sum_list_middle:
  fixes f :: "'a \<Rightarrow> u32 multiset"
  assumes "xs @ ys = zs"
  shows "sum_list (map f (xs @ x # ys)) = f x + sum_list (map f zs)"
  using assms by (auto simp: ac_simps)

lemma send_commit_good:
  assumes "queues_good s" and "i < length (queues s)" and "q_count (queues s ! i) < q_maxmsg (queues s ! i)"
    and "msg_ok m" and "mq_acc s (pages_of m + X) oth"
  shows "good_step s X oth (\<lambda>j. if j = i then [Sent (m_view m)] else []) (send_commit i m s)"
proof -
  let ?q = "queues s ! i"
  obtain q1 e1 where tell: "mq_tell (insert_msg m ?q) (menv s) = (q1, e1)" by fastforce
  define q' where "q' = q1\<lparr>q_rq := []\<rparr>"
  have g: "queue_good ?q" using assms(1,2) by (rule queues_good_nth)
  then have ok: "queue_ok ?q" by (simp add: queue_good_def)
  have core: "core q' = core (insert_msg m ?q)"
    using mq_tell_core [OF tell] by (simp add: q'_def core_def)
  have s': "queues (send_commit i m s) = (queues s)[i := q']" "mpool (send_commit i m s) = mpool s"
    using tell by (simp_all add: send_commit_def q'_def)
  have f: "q_maxmsg (insert_msg m ?q) = q_maxmsg ?q" "q_msgsize (insert_msg m ?q) = q_msgsize ?q"
    "q_used (insert_msg m ?q) = q_used ?q" by (simp_all add: insert_msg_def Let_def)
  note items = insert_msg_items [OF ok assms(3), of m]
  have set: "set (q_items (insert_msg m ?q)) = insert m (set (q_items ?q))"
    unfolding items(2) by (metis Un_insert_right list.simps(15) set_append takeWhile_dropWhile_id)
  have "queue_good (insert_msg m ?q)"
    using g assms(3,4) items(1) f set by (auto simp: queue_good_def)
  then have g': "queue_good q'" using core_eqD(2) [OF core] by simp
  have "queue_pages (insert_msg m ?q) = pages_of m + queue_pages ?q"
    unfolding queue_pages_def items(2) by (rule sum_list_middle) simp
  then have "mq_acc (send_commit i m s) X oth"
    using core_eqD(3) [OF core] assms(5) s'(2)
    by (intro mq_acc_update [OF assms(2) s'(1)]) (auto simp: mq_acc_def ac_simps)
  moreover have "effect i [Sent (m_view m)] s (send_commit i m s)"
    using insert_msg_is [OF ok assms(3)] core_eqD(1) [OF core] assms(2) s'(1)
    by (simp add: effect_def q_is_def)
  ultimately show ?thesis using good_step_replace [OF assms(1,2) g' s'(1)] by blast
qed

section \<open>The stretches of a call\<close>

text \<open>The pages that a suspended call holds, and what is true of it: \<open>i\<close> is its queue and \<open>x\<close> the
  message it is sending, as far as it has been copied, or has taken.\<close>

fun call_pages :: "mqcall \<Rightarrow> u32 multiset" where
  "call_pages (SFetch i m d k) = pages_of m"
| "call_pages (STime i m) = pages_of m"
| "call_pages (SWait i m ms) = pages_of m"
| "call_pages (RStore m d k out w) = pages_of m"
| "call_pages (RTime i w) = {#}"
| "call_pages (RWait i w ms) = {#}"
| "call_pages (RPrio p out) = {#}"

fun call_ok :: "nat \<Rightarrow> mqcall \<Rightarrow> nat \<Rightarrow> u32 \<times> u8 list \<Rightarrow> bool" where
  "call_ok n (SFetch j m d k) i x \<longleftrightarrow>
     j = i \<and> i < n \<and> d = 4096 * k \<and> d < unat (m_len m) \<and> filled m k (Suc k) (snd x) \<and> m_prio m = fst x"
| "call_ok n (STime j m) i x \<longleftrightarrow> j = i \<and> i < n \<and> msg_ok m \<and> m_view m = x"
| "call_ok n (SWait j m ms) i x \<longleftrightarrow> j = i \<and> i < n \<and> msg_ok m \<and> m_view m = x"
| "call_ok n (RTime j w) i x \<longleftrightarrow> j = i \<and> i < n"
| "call_ok n (RWait j w ms) i x \<longleftrightarrow> j = i \<and> i < n"
| "call_ok n (RStore m d k out w) i x \<longleftrightarrow>
     msg_ok m \<and> m_view m = x \<and> d = 4096 * k \<and> d < unat (m_len m) \<and> out = concat (take k (m_data m))"
| "call_ok n (RPrio p out) i x \<longleftrightarrow> x = (p, out)"

definition held :: "mqturn \<Rightarrow> u32 multiset" where
  "held r = (case r of Sleeps call \<Rightarrow> call_pages call | _ \<Rightarrow> {#})"

lemma held_simps [simp]:
  "held (SDone a) = {#}" "held (RDone b) = {#}" "held (Sleeps call) = call_pages call"
  by (simp_all add: held_def)

text \<open>What the end of a stretch means for the abstract queue.\<close>

definition at_q :: "nat \<Rightarrow> mqev list \<Rightarrow> nat \<Rightarrow> mqev list" where
  "at_q i es = (\<lambda>j. if j = i then es else [])"

definition sent :: "mqturn \<Rightarrow> u32 \<times> u8 list \<Rightarrow> mqev list" where
  "sent r x = (if r = SDone (Inr ()) then [Sent x] else [])"

definition gave :: "mqturn \<Rightarrow> u32 \<times> u8 list \<Rightarrow> mqev list" where
  "gave r x = (case r of RDone (Inr (bs, p)) \<Rightarrow> [Gave x (p, bs)] | _ \<Rightarrow> [])"

definition front :: "mqstate \<Rightarrow> nat \<Rightarrow> u32 \<times> u8 list" where
  "front s i = m_view (q_msg (queues s ! i) ! 0)"

definition took :: "nat \<Rightarrow> mqturn \<Rightarrow> mqstate \<Rightarrow> mqstate \<Rightarrow> mqev list" where
  "took i r s s' =
     (if q_count (queues s' ! i) = q_count (queues s ! i) then [] else Took (front s i) # gave r (front s i))"

lemma at_q_Nil [simp]: "at_q i [] = (\<lambda>_. [])"
  by (auto simp: at_q_def)

text \<open>A stretch that ends with \<open>r\<close> in state \<open>s'\<close> has done \<open>es\<close> to queue \<open>i\<close> and is, if it goes on, a
  suspended call as described.\<close>

definition turn_ok ::
    "mqstate \<Rightarrow> nat \<Rightarrow> u32 \<times> u8 list \<Rightarrow> u32 multiset \<Rightarrow> (u32 \<Rightarrow> nat) \<Rightarrow> mqev list \<Rightarrow> mqturn \<Rightarrow> mqstate \<Rightarrow> bool" where
  "turn_ok s i x X oth es r s' \<longleftrightarrow> good_step s (held r + X) oth (at_q i es) s' \<and>
     (case r of Sleeps call \<Rightarrow> call_ok (length (queues s)) call i x | _ \<Rightarrow> True)"

definition send_post ::
    "mqstate \<Rightarrow> nat \<Rightarrow> u32 \<times> u8 list \<Rightarrow> u32 multiset \<Rightarrow> (u32 \<Rightarrow> nat) \<Rightarrow> mqturn \<times> mqstate \<Rightarrow> bool" where
  "send_post s i x X oth rs \<longleftrightarrow> turn_ok s i x X oth (sent (fst rs) x) (fst rs) (snd rs)"

lemma send_post_pair: "send_post s i x X oth (r, s') \<longleftrightarrow> turn_ok s i x X oth (sent r x) r s'"
  by (simp add: send_post_def)

lemma turn_ok_after_quiet:
  "quiet s s1 \<Longrightarrow> turn_ok s1 i x X oth es r s' \<Longrightarrow> turn_ok s i x X oth es r s'"
  by (auto simp: turn_ok_def quietD(1) intro: good_step_after_quiet split: mqturn.splits)

text \<open>Steps that change nothing but the page pool.\<close>

lemma good_step_pool:
  "good_step (s\<lparr>mpool := p\<rparr>) X oth ev s' = good_step s X oth ev s'"
  by (simp add: good_step_def effect_def)

lemma turn_ok_pool: "turn_ok (s\<lparr>mpool := p\<rparr>) i x X oth es r s' = turn_ok s i x X oth es r s'"
  by (cases r) (simp_all add: turn_ok_def good_step_pool)

lemma free_msg_good:
  assumes "queues_good s" and "mq_acc s (pages_of m + X) oth"
  shows "good_step s X oth (\<lambda>_. []) (s\<lparr>mpool := snd (free_msg m (mpool s))\<rparr>)"
proof -
  have "pool.accounted (snd (free_msg m (mpool s))) (mq_pages s + X) oth"
    using assms(2) by (intro free_msg_accounted) (simp add: mq_acc_def ac_simps)
  then show ?thesis
    using assms(1) by (simp add: good_step_def queues_good_def mq_acc_def mq_pages_def effect_same)
qed

lemma send_fail_good:
  assumes "queues_good s" and "mq_acc s (pages_of m + X) oth"
  shows "send_post s i x X oth (send_fail err m s)"
  using free_msg_good [OF assms] by (simp add: send_post_def send_fail_def turn_ok_def sent_def)

lemma send_done_good:
  assumes "queues_good s" and "i < length (queues s)" and "q_count (queues s ! i) < q_maxmsg (queues s ! i)"
    and "msg_ok m" and "mq_acc s (pages_of m + X) oth"
  shows "send_post s i (m_view m) X oth (SDone (Inr ()), send_commit i m s)"
  using send_commit_good [OF assms] by (simp add: send_post_def turn_ok_def sent_def at_q_def)

lemma send_pass_good:
  assumes "queues_good s" and "i < length (queues s)" and "msg_ok m" and "mq_acc s (pages_of m + X) oth"
  shows "send_post s i (m_view m) X oth (send_pass i m ms sig c s)"
proof (cases "q_count (queues s ! i) < q_maxmsg (queues s ! i)")
  case True
  then show ?thesis using send_done_good [OF assms(1,2) True assms(3,4)] by (simp add: send_pass_def Let_def)
next
  case False
  show ?thesis
  proof (cases "wait_enter ms sig")
    case None
    have "quiet s (s\<lparr>queues := (queues s)[i := (queues s ! i)\<lparr>q_wq := q_wq (queues s ! i) @ [c]\<rparr>]\<rparr>)"
      by (rule quiet_update) (simp add: core_def)
    then show ?thesis
      using good_step_quiet [OF assms(1,4)] None False assms(2,3)
      by (simp add: send_pass_def send_post_def turn_ok_def sent_def Let_def)
  next
    case (Some err)
    then show ?thesis using send_fail_good [OF assms(1,4)] False by (simp add: send_pass_def Let_def)
  qed
qed

lemma send_resume_good:
  assumes "queues_good s" and "i < length (queues s)" and "msg_ok m" and "mq_acc s (pages_of m + X) oth"
  shows "send_post s i (m_view m) X oth (send_resume i m ms elapsed sig c s)"
proof -
  have q: "quiet s (leave_wq i c s)" by (rule quiet_ops)
  have a: "queues_good (leave_wq i c s)" "i < length (queues (leave_wq i c s))" "mq_acc (leave_wq i c s) (pages_of m + X) oth"
    using assms q by (simp_all add: quietD)
  have "send_post (leave_wq i c s) i (m_view m) X oth (send_resume i m ms elapsed sig c s)"
    using send_pass_good [OF a(1,2) assms(3) a(3)] send_fail_good [OF a(1,3)]
    by (auto simp: send_resume_def split: prod.splits option.splits)
  then show ?thesis using turn_ok_after_quiet [OF q] by (simp add: send_post_def)
qed

lemma send_time_good:
  assumes "queues_good s" and "i < length (queues s)" and "msg_ok m" and "mq_acc s (pages_of m + X) oth"
  shows "send_post s i (m_view m) X oth (send_time i uts now_sec now_usec sig c m s)"
  using send_pass_good [OF assms] send_fail_good [OF assms(1,4)] by (simp add: send_time_def split: sum.splits)

lemma send_room_good:
  assumes "queues_good s" and "i < length (queues s)" and "msg_ok m" and "mq_acc s (pages_of m + X) oth"
  shows "send_post s i (m_view m) X oth (send_room i flags m s)"
  using send_done_good [OF assms(1,2) _ assms(3,4)] send_fail_good [OF assms(1,4)] assms(2,3)
    good_step_quiet [OF assms(1,4) quiet_refl]
  by (auto simp: send_room_def Let_def not_le send_post_pair turn_ok_def sent_def)

lemma send_load_good:
  assumes good: "queues_good s" and i: "i < length (queues s)" and m: "filled m k k (snd x)" "m_prio m = fst x"
    and d: "d = 4096 * k" and acc: "mq_acc s (pages_of m + X) oth"
  shows "send_post s i x X oth (send_load i flags m d k s)"
proof (cases "d < unat (m_len m)")
  case False
  then have "msg_ok m" "m_view m = x" using filled_whole [OF m(1)] m(2) d by simp_all
  then show ?thesis using send_room_good [OF good i _ acc] False by (auto simp: send_load_def)
next
  case True
  obtain pa p1 where pa: "pmm_alloc (mpool s) = (pa, p1)" by fastforce
  let ?m1 = "m\<lparr>m_page := (m_page m)[k := pa]\<rparr>" and ?s1 = "s\<lparr>mpool := p1\<rparr>"
  have k: "k < length (m_page m)" "m_page m ! k = 0" using m(1) True d by (auto simp: filled_def)
  note alloc = pool.accounted_alloc [OF _ pa, of "pages_of m + (mq_pages s + X)" oth]
  have "mq_acc ?s1 (pages_of ?m1 + X) oth"
  proof (cases "pa = 0")
    case True
    then have "(m_page m)[k := pa] = m_page m" using k by (metis list_update_id)
    then show ?thesis using alloc acc True by (simp add: mq_acc_def mq_pages_def ac_simps)
  next
    case False
    then show ?thesis using alloc acc k by (simp add: mq_acc_def mq_pages_def pages_of_add ac_simps)
  qed
  moreover have "queues_good ?s1" using good by (simp add: queues_good_def)
  ultimately have "send_post ?s1 i x X oth (send_load i flags m d k s)"
    using send_fail_good [of ?s1 ?m1 X oth i x] good_step_quiet [of ?s1 _ _ ?s1] True pa i m d filled_alloc [OF m(1), of pa]
    by (auto simp: send_load_def Let_def send_post_pair turn_ok_def sent_def)
  then show ?thesis by (simp add: send_post_def turn_ok_pool)
qed

fun fetched :: "u8 list option \<Rightarrow> u8 list" where
  "fetched None = []"
| "fetched (Some bs) = bs"

lemma send_fetched_good:
  assumes "queues_good s" and "call_ok (length (queues s)) (SFetch i m d k) i (p, b)" and "mq_acc s (pages_of m + X) oth"
    and "\<And>bs. r = Some bs \<Longrightarrow> length bs = page_bytes m d"
  shows "send_post s i (p, b @ fetched r) X oth (send_fetched i r flags m d k s)"
proof (cases r)
  case None
  then show ?thesis using send_fail_good [OF assms(1,3)] by (simp add: send_fetched_def)
next
  case (Some bs)
  let ?m = "m\<lparr>m_data := (m_data m)[k := bs]\<rparr>"
  have "filled ?m (Suc k) (Suc k) (b @ bs)" using assms(2,4) Some by (auto intro: filled_fetch)
  moreover have "pages_of ?m = pages_of m" by (simp add: pages_of_def)
  ultimately have "send_post s i (p, b @ bs) X oth (send_load i flags ?m (d + 4096) (Suc k) s)"
    using assms by (intro send_load_good) auto
  then show ?thesis using Some by (simp add: send_fetched_def PAGE_SIZE_def)
qed

lemma timedsend_good:
  assumes "queues_good s" and "mq_acc s X oth" and "mf_queue f < length (queues s)"
  shows "send_post s (mf_queue f) (prio, []) X oth (sys_mq_timedsend (Some f) len prio s)"
proof (cases "send_checks (Some f) len prio s")
  case None
  let ?m = "zero_msg\<lparr>m_prio := prio, m_len := len\<rparr>"
  have "len \<le> q_msgsize (queues s ! mf_queue f)"
    using None by (auto simp: send_checks_def Let_def not_less split: if_splits)
  moreover have "q_msgsize (queues s ! mf_queue f) \<le> 65536"
    using queues_good_nth [OF assms(1,3)] by (simp add: queue_good_def)
  ultimately have "unat len \<le> 65536" using order_trans [of len _ 65536] by (simp add: word_le_nat_alt)
  then have "filled ?m 0 0 []" by (rule filled_empty)
  moreover have "pages_of ?m = {#}" by (simp add: pages_of_def zero_msg_def)
  ultimately have "send_post s (mf_queue f) (prio, []) X oth (send_load (mf_queue f) (mf_flags f) ?m 0 0 s)"
    using assms by (intro send_load_good) auto
  then show ?thesis using None by (simp add: sys_mq_timedsend_def)
next
  case (Some err)
  then show ?thesis
    using good_step_quiet [OF assms(1,2) quiet_refl]
    by (simp add: sys_mq_timedsend_def send_post_def turn_ok_def sent_def)
qed

text \<open>Receiving.\<close>

lemma effect_gave: "queues s' ! i = queues s ! i \<Longrightarrow> effect i [Gave x x] s s'"
  by (auto simp: effect_def)

lemma good_step_then:
  assumes "good_step s Y oth (at_q i es) s1" and "good_step s1 X oth (at_q i fs) s'" and "queues s' = queues s1"
  shows "good_step s X oth (at_q i (es @ fs)) s'"
proof -
  have "effect j (at_q i (es @ fs) j) s s'" if "j < length (queues s)" for j
  proof -
    have "effect j (at_q i es j) s s1" "effect j (at_q i fs j) s1 s'"
      using assms that by (auto simp: good_step_def)
    then show ?thesis using assms(3) by (fastforce simp: effect_def at_q_def spec_run_append)
  qed
  then show ?thesis using assms by (simp add: good_step_def)
qed

lemma free_msg_gave:
  assumes "queues_good s" and "mq_acc s (pages_of m + X) oth"
  shows "good_step s X oth (at_q i [Gave x x]) (s\<lparr>mpool := snd (free_msg m (mpool s))\<rparr>)"
  using free_msg_good [OF assms] by (auto simp: good_step_def at_q_def intro: effect_gave effect_same)

lemma recv_store_good:
  assumes "queues_good s" and "mq_acc s (pages_of m + X) oth" and "msg_ok m" and "m_view m = x"
    and "d = 4096 * k" and "out = concat (take k (m_data m))"
    and "recv_store m d k out want s = (r, s')"
  shows "turn_ok s i x X oth (gave r x) r s'" and "queues s' = queues s"
proof -
  let ?s1 = "s\<lparr>mpool := snd (free_msg m (mpool s))\<rparr>"
  show "turn_ok s i x X oth (gave r x) r s'"
  proof (cases "d < unat (m_len m)")
    case True
    then show ?thesis
      using assms good_step_quiet [OF assms(1,2) quiet_refl] by (auto simp: recv_store_def turn_ok_def gave_def)
  next
    case False
    then have x: "x = (m_prio m, out)" using stored_whole [of m k] assms by (simp add: m_view_def)
    then show ?thesis
      using False assms(7) free_msg_good [OF assms(1,2)] free_msg_gave [OF assms(1,2), of i x]
      by (auto simp: recv_store_def Let_def turn_ok_def gave_def split: if_splits)
  qed
  show "queues s' = queues s" using assms(7) by (auto simp: recv_store_def Let_def split: if_splits)
qed

lemma recv_stored_good:
  assumes "queues_good s" and "call_ok (length (queues s)) (RStore m d k out want) i x" and "mq_acc s (pages_of m + X) oth"
    and "recv_stored ok m d k out want s = (r, s')"
  shows "turn_ok s i x X oth (gave r x) r s'"
proof (cases ok)
  case True
  have c: "msg_ok m" "m_view m = x" "d = 4096 * k" "d < unat (m_len m)" "out = concat (take k (m_data m))"
    using assms(2) by auto
  have "recv_store m (4096 * k + 4096) (Suc k) (concat (take (Suc k) (m_data m))) want s = (r, s')"
    using assms(4) True stored_page [OF c(1)] c by (simp add: recv_stored_def PAGE_SIZE_def)
  then show ?thesis by (rule recv_store_good(1) [OF assms(1,3) c(1,2) _ refl, rotated]) simp
next
  case False
  then show ?thesis
    using assms(4) free_msg_good [OF assms(1,3)] by (auto simp: recv_stored_def turn_ok_def gave_def)
qed

lemma recv_prio_good:
  assumes "queues_good s" and "mq_acc s X oth" and "x = (p, out)" and "recv_prio ok p out s = (r, s')"
  shows "turn_ok s i x X oth (gave r x) r s'"
proof -
  have "good_step s X oth (at_q i [Gave x x]) s"
    using assms(1,2) by (auto simp: good_step_def at_q_def intro: effect_gave effect_same)
  then show ?thesis
    using assms(3,4) good_step_quiet [OF assms(1,2) quiet_refl] by (auto simp: recv_prio_def turn_ok_def gave_def)
qed

definition recv_post ::
    "mqstate \<Rightarrow> nat \<Rightarrow> u32 multiset \<Rightarrow> (u32 \<Rightarrow> nat) \<Rightarrow> mqturn \<times> mqstate \<Rightarrow> bool" where
  "recv_post s i X oth rs \<longleftrightarrow> turn_ok s i (front s i) X oth (took i (fst rs) s (snd rs)) (fst rs) (snd rs)"

lemma recv_post_pair: "recv_post s i X oth (r, s') \<longleftrightarrow> turn_ok s i (front s i) X oth (took i r s s') r s'"
  by (simp add: recv_post_def)

lemma recv_post_after_quiet:
  assumes "quiet s s1" and "i < length (queues s)" and "recv_post s1 i X oth rs"
  shows "recv_post s i X oth rs"
proof -
  have c: "core (queues s1 ! i) = core (queues s ! i)" by (rule quietD(2) [OF assms(1,2)])
  then have "front s1 i = front s i" by (simp add: front_def core_def)
  moreover have "took i r s1 s' = took i r s s'" for r s'
    using calculation core_eqD(4) [OF c] by (simp add: took_def)
  ultimately show ?thesis using assms(3) turn_ok_after_quiet [OF assms(1)] by (simp add: recv_post_def)
qed

lemma recv_post_quiet:
  assumes "queues_good s" and "mq_acc s X oth" and "quiet s s'" and "i < length (queues s)"
  shows "recv_post s i X oth (RDone (Inl err), s')" and "recv_post s i X oth (Sleeps (RWait i w ms), s')"
    and "recv_post s i X oth (Sleeps (RTime i w), s')"
  using good_step_quiet [OF assms(1-3)] core_eqD(4) [OF quietD(2) [OF assms(3,4)]] assms(4)
  by (simp_all add: recv_post_def turn_ok_def took_def)

lemma take_msg_good:
  assumes "queues_good s" and "i < length (queues s)" and "q_count (queues s ! i) \<noteq> 0"
    and "mq_acc s X oth" and "take_msg (queues s ! i) = (m, q1)"
    and "queues s' = (queues s)[i := q1\<lparr>q_wq := []\<rparr>]" and "mpool s' = mpool s"
  shows "good_step s (pages_of m + X) oth (at_q i [Took (m_view m)]) s'" and "msg_ok m"
    and "q_count (queues s' ! i) \<noteq> q_count (queues s ! i)" and "m_view m = front s i"
proof -
  let ?q = "queues s ! i"
  define q' where "q' = q1\<lparr>q_wq := []\<rparr>"
  have core: "core q' = core q1" by (simp add: q'_def core_def)
  have g: "queue_good ?q" using assms(1,2) by (rule queues_good_nth)
  then have ok: "queue_ok ?q" by (simp add: queue_good_def)
  note items = take_msg_items [OF ok assms(3,5)]
  have s': "queues s' = (queues s)[i := q']" using assms(6) by (simp add: q'_def)
  have f: "q_maxmsg q1 = q_maxmsg ?q" "q_msgsize q1 = q_msgsize ?q" "q_used q1 = q_used ?q"
    "q_count q1 = q_count ?q - 1" "m = q_msg ?q ! 0" using assms(5) by (auto simp: take_msg_def Let_def)
  have "queue_good q1" using g items f by (auto simp: queue_good_def)
  then have g': "queue_good q'" using core_eqD(2) [OF core] by simp
  have pg: "queue_pages ?q = pages_of m + queue_pages q'"
    using items(2) core_eqD(3) [OF core] by (simp add: queue_pages_def)
  have acc: "mq_acc s' (pages_of m + X) oth"
    using assms(4,7) pg by (intro mq_acc_update [OF assms(2) s']) (simp_all add: mq_acc_def ac_simps)
  show "msg_ok m" using g items(2) by (simp add: queue_good_def)
  show "m_view m = front s i" by (simp add: front_def f(5))
  show "q_count (queues s' ! i) \<noteq> q_count ?q" using s' assms(2) f(4) core_eqD(4) [OF core] by simp
  have "effect i [Took (m_view m)] s s'"
    using take_msg_is [OF ok assms(3,5)] core_eqD(1) [OF core] s' assms(2) by (auto simp: effect_def q_is_def)
  then show "good_step s (pages_of m + X) oth (at_q i [Took (m_view m)]) s'"
    unfolding at_q_def by (rule good_step_replace [OF assms(1,2) g' s' acc])
qed

lemma recv_commit_post:
  assumes "queues_good s" and "i < length (queues s)" and "q_count (queues s ! i) \<noteq> 0" and "mq_acc s X oth"
  shows "recv_post s i X oth (recv_commit i want s)"
proof -
  obtain m q1 where tk: "take_msg (queues s ! i) = (m, q1)" by fastforce
  define s1 where "s1 = s\<lparr>queues := (queues s)[i := q1\<lparr>q_wq := []\<rparr>], menv := poll_wake (wake_list (q_wq q1) (menv s))\<rparr>"
  have s1: "queues s1 = (queues s)[i := q1\<lparr>q_wq := []\<rparr>]" "mpool s1 = mpool s" by (simp_all add: s1_def)
  note t = take_msg_good [OF assms tk s1]
  obtain r s' where rs: "recv_store m 0 0 [] want s1 = (r, s')" by fastforce
  have "queues_good s1" "mq_acc s1 (pages_of m + X) oth" using t(1) by (simp_all add: good_step_def)
  note st = recv_store_good(1) [OF this t(2,4) _ _ rs, of i] recv_store_good(2) [OF this t(2,4) _ _ rs]
  have "turn_ok s i (front s i) X oth (Took (front s i) # gave r (front s i)) r s'"
    using good_step_then [OF t(1)] st t(4) by (auto simp: turn_ok_def s1 split: mqturn.splits)
  then show ?thesis
    using rs tk t(3) st(2) by (simp add: recv_commit_def recv_post_def took_def s1_def)
qed

lemma recv_pass_post:
  assumes "queues_good s" and "i < length (queues s)" and "mq_acc s X oth"
  shows "recv_post s i X oth (recv_pass i want ms sig c s)"
proof (cases "q_count (queues s ! i) = 0")
  case True
  have "quiet s (s\<lparr>queues := (queues s)[i := (queues s ! i)\<lparr>q_rq := q_rq (queues s ! i) @ [c]\<rparr>]\<rparr>)"
    by (rule quiet_update) (simp add: core_def)
  then show ?thesis
    using True recv_post_quiet [OF assms(1,3) _ assms(2)] quiet_ops(3)
    by (auto simp: recv_pass_def Let_def split: option.splits)
next
  case False
  have q: "quiet s (add_receiver i (-1) s)" by (rule quiet_ops)
  have "recv_post (add_receiver i (-1) s) i X oth (recv_commit i want (add_receiver i (-1) s))"
    using assms q False core_eqD(4) [OF quietD(2) [OF q assms(2)]]
    by (intro recv_commit_post) (simp_all add: quietD)
  then show ?thesis
    using recv_post_after_quiet [OF q assms(2)] False by (simp add: recv_pass_def Let_def)
qed

lemma recv_pass_after_quiet:
  assumes "queues_good s" and "i < length (queues s)" and "mq_acc s X oth" and "quiet s s1"
  shows "recv_post s i X oth (recv_pass i want ms sig c s1)"
  by (rule recv_post_after_quiet [OF assms(4,2)], rule recv_pass_post) (use assms in \<open>simp_all add: quietD\<close>)

lemma recv_resume_post:
  assumes "queues_good s" and "i < length (queues s)" and "mq_acc s X oth"
  shows "recv_post s i X oth (recv_resume i want ms elapsed sig c s)"
  using recv_pass_after_quiet [OF assms quiet_ops(2)]
    recv_post_quiet(1) [OF assms(1,3) quiet_trans [OF quiet_ops(2) quiet_ops(3)] assms(2)]
  by (auto simp: recv_resume_def split: prod.splits option.splits)

lemma recv_time_post:
  assumes "queues_good s" and "i < length (queues s)" and "mq_acc s X oth"
  shows "recv_post s i X oth (recv_time i want uts now_sec now_usec sig c s)"
  using recv_pass_after_quiet [OF assms quiet_ops(3)] recv_post_quiet(1) [OF assms(1,3) quiet_refl assms(2)]
  by (simp add: recv_time_def split: sum.splits)

lemma timedreceive_post:
  assumes "queues_good s" and "mf_queue f < length (queues s)" and "mq_acc s X oth"
  shows "recv_post s (mf_queue f) X oth (sys_mq_timedreceive (Some f) len want s)"
  using recv_post_quiet [OF assms(1,3) quiet_refl assms(2)] recv_commit_post [OF assms(1,2) _ assms(3)]
  by (simp add: sys_mq_timedreceive_def Let_def)

text \<open>Steps that touch one slot of the table and none of its messages, unless the queue in it
  comes or goes.\<close>

lemma good_step_slot:
  assumes "queues_good s'" and "length (queues s') = length (queues s)" and "mq_acc s' X oth"
    and "\<And>j. j \<noteq> i \<Longrightarrow> queues s' ! j = queues s ! j"
    and "\<not> q_used (queues s ! i) \<or> \<not> q_used (queues s' ! i) \<or> core (queues s' ! i) = core (queues s ! i)"
  shows "good_step s X oth (\<lambda>_. []) s'"
  unfolding good_step_def
proof (intro conjI allI impI assms(1-3))
  fix j
  show "effect j [] s s'"
  proof (cases "j = i")
    case True
    then show ?thesis
      using assms(5) core_eqD(1) [of "queues s' ! i" "queues s ! i"] by (auto simp: effect_def q_is_def)
  qed (simp add: assms(4) effect_same)
qed

lemma new_attr_bounds:
  "new_attr a t = Inr (maxmsg, msgsize) \<Longrightarrow> 0 < maxmsg \<and> maxmsg \<le> 64 \<and> 0 < msgsize \<and> msgsize \<le> 65536"
  by (auto simp: new_attr_def MQ_USER_MAXMSG_def MQ_USER_MSGSIZE_def MQ_SLOTS_def MQ_ROOT_MSGSIZE_def
      split: mqattr.splits if_splits)

lemma of_int_le_u32: "0 \<le> x \<Longrightarrow> x \<le> 65536 \<Longrightarrow> (of_int x :: u32) \<le> of_int n \<longleftrightarrow> x \<le> n" if "0 \<le> n" "n \<le> 65536" for x n
  using that by (simp add: word_le_def uint_word_of_int)

lemma mq_make_good:
  assumes "queues_good s" and "mq_acc s X oth" and "mq_make name mode a t s = (r, s1)"
  shows "case r of Inl _ \<Rightarrow> s1 = s | Inr i \<Rightarrow> i < length (queues s) \<and> \<not> q_used (queues s ! i) \<and>
     queues_good s1 \<and> mq_acc s1 X oth \<and> length (queues s1) = length (queues s) \<and>
     (\<forall>j. j \<noteq> i \<longrightarrow> queues s1 ! j = queues s ! j)"
proof (cases r)
  case (Inl err)
  then show ?thesis using assms(3) by (auto simp: mq_make_def split: sum.splits option.splits)
next
  case (Inr i)
  then obtain mx sz where at: "new_attr a t = Inr (mx, sz)" and
    fi: "first_idx (\<lambda>q. \<not> q_used q) (queues s) = Some i"
    using assms(3) by (auto simp: mq_make_def split: sum.splits option.splits)
  define q where "q = zero_queue\<lparr>q_used := True, q_linked := True, q_name := name, q_uid := t_euid t,
     q_gid := t_egid t, q_mode := mode AND 0x1ff AND NOT (t_umask t), q_maxmsg := of_int mx,
     q_msgsize := of_int sz, q_ino := next_ino s\<rparr>"
  have s1: "queues s1 = (queues s)[i := q]" "mpool s1 = mpool s"
    using assms(3) Inr at fi by (auto simp: mq_make_def q_def)
  note i = first_idx_SomeD [OF fi]
  note b = new_attr_bounds [OF at]
  have "q_count q = 0" "length (q_msg q) = 64" "q_used q" by (simp_all add: q_def zero_queue_def MQ_SLOTS_def)
  moreover have "q_maxmsg q \<le> 64" "q_msgsize q \<le> 65536"
    using b of_int_le_u32 [of 64 mx] of_int_le_u32 [of 65536 sz] by (simp_all add: q_def)
  ultimately have g: "queue_good q" "queue_pages q = {#}"
    by (simp_all add: queue_good_def queue_ok_def q_items_def queue_pages_def)
  have gi: "queue_good (queues s ! i)" using assms(1) i(1) by (rule queues_good_nth)
  then have "q_count (queues s ! i) = 0" using i(2) by (auto simp: queue_good_def queue_ok_def)
  then have "queue_pages (queues s ! i) = {#}" by (simp add: queue_pages_def q_items_def)
  then have "mq_acc s1 X oth"
    using assms(2) s1(2) g(2) by (intro mq_acc_update [OF i(1) s1(1)]) (simp_all add: mq_acc_def)
  then show ?thesis
    using Inr i s1(1) queues_good_update [OF assms(1) g(1) s1(1)] by simp
qed

lemma quiet_then_free:
  assumes "queues_good s" and "mq_acc s X oth" and "i < length (queues s)" and "quiet s s1"
    and "\<And>j. j \<noteq> i \<Longrightarrow> queues s1 ! j = queues s ! j"
  shows "good_step s X oth (\<lambda>_. []) (if b then mq_free i s1 else s1)"
proof (cases b)
  case True
  have "queues_good s1" "i < length (queues s1)" "mq_acc s1 X oth" using assms by (simp_all add: quietD)
  note f = mq_free_inv [OF this]
  show ?thesis
    using True f assms(4,5) by (intro good_step_slot [where i = i]) (simp_all add: quietD(1) zero_queue_def)
qed (simp add: good_step_quiet assms)

lemma mq_close_good:
  assumes "queues_good s" and "mq_acc s X oth" and "mf_queue f < length (queues s)"
  shows "good_step s X oth (\<lambda>_. []) (mq_close f t s)"
  unfolding mq_close_def Let_def
  by (rule quiet_then_free [OF assms]) (auto intro!: quiet_update simp: core_def)

lemma by_name_SomeD: "by_name name s = Some i \<Longrightarrow> i < length (queues s)"
  unfolding by_name_def by (rule first_idx_SomeD(1))

lemma sys_mq_unlink_good:
  assumes "queues_good s" and "mq_acc s X oth"
  shows "good_step s X oth (\<lambda>_. []) (snd (sys_mq_unlink uname t s))"
proof -
  have "good_step s X oth (\<lambda>_. []) (if b then mq_free i (s\<lparr>queues := (queues s)[i := (queues s ! i)\<lparr>q_linked := False\<rparr>]\<rparr>)
      else s\<lparr>queues := (queues s)[i := (queues s ! i)\<lparr>q_linked := False\<rparr>]\<rparr>)" if "i < length (queues s)" for i b
    using that by (intro quiet_then_free [OF assms]) (auto intro!: quiet_update simp: core_def)
  then show ?thesis
    using good_step_quiet [OF assms quiet_refl] by_name_SomeD [of _ s]
    by (auto simp: sys_mq_unlink_def Let_def split: sum.splits option.splits)
qed

lemma sys_mq_notify_good:
  assumes "queues_good s" and "mq_acc s X oth"
  shows "good_step s X oth (\<lambda>_. []) (snd (sys_mq_notify fo ev t s))"
  by (rule good_step_quiet [OF assms])
    (auto simp: sys_mq_notify_def Let_def intro!: quiet_update split: option.splits sigevent.splits, simp_all add: core_def)

text \<open>A queue was found, or a free slot has become one, or neither.\<close>

definition mq_found :: "mqstate \<Rightarrow> u32 multiset \<Rightarrow> (u32 \<Rightarrow> nat) \<Rightarrow> errno + nat \<Rightarrow> mqstate \<Rightarrow> bool" where
  "mq_found s X oth r s1 \<longleftrightarrow>
     (case r of Inl _ \<Rightarrow> s1 = s
      | Inr i \<Rightarrow> i < length (queues s) \<and> queues_good s1 \<and> mq_acc s1 X oth \<and> length (queues s1) = length (queues s) \<and>
          (\<forall>j. j \<noteq> i \<longrightarrow> queues s1 ! j = queues s ! j) \<and> (s1 = s \<or> \<not> q_used (queues s ! i)))"

lemma mq_install_good:
  assumes "queues_good s" and "mq_acc s X oth" and "mq_found s X oth r s1"
  shows "good_step s X oth (\<lambda>_. []) (snd (mq_install oflag fd (r, s1)))"
proof (cases r)
  case (Inl err)
  then show ?thesis using assms good_step_quiet [OF assms(1,2) quiet_refl] by (simp add: mq_install_def mq_found_def)
next
  case (Inr i)
  let ?q = "queues s1 ! i"
  let ?s2 = "s1\<lparr>queues := (queues s1)[i := ?q\<lparr>q_refs := q_refs ?q + 1\<rparr>]\<rparr>"
  have q2: "quiet s1 ?s2" by (rule quiet_update) (simp add: core_def)
  have s1: "queues_good s1" "mq_acc s1 X oth" "i < length (queues s1)" "length (queues s1) = length (queues s)"
    "\<And>j. j \<noteq> i \<Longrightarrow> queues s1 ! j = queues s ! j" "s1 = s \<or> \<not> q_used (queues s ! i)"
    using assms(3) Inr by (auto simp: mq_found_def)
  note f = mq_free_inv [OF s1(1,3,2)]
  have "good_step s X oth (\<lambda>_. []) s'" if s': "s' = ?s2 \<or> s' = s1 \<or> s' = mq_free i s1" for s'
  proof (rule good_step_slot [where i = i])
    show "queues_good s'" "mq_acc s' X oth" "length (queues s') = length (queues s)"
      using s' q2 f s1 by (auto simp: quietD)
    show "queues s' ! j = queues s ! j" if "j \<noteq> i" for j
      using that s' f(4) s1(5) by auto
    show "\<not> q_used (queues s ! i) \<or> \<not> q_used (queues s' ! i) \<or> core (queues s' ! i) = core (queues s ! i)"
      using s' f(5) s1(3,6) by (auto simp: core_def zero_queue_def)
  qed
  then show ?thesis using Inr by (auto simp: mq_install_def split: sum.splits)
qed

lemma mq_make_found:
  assumes "queues_good s" and "mq_acc s X oth" and "mq_make name mode a t s = (r, s1)"
  shows "mq_found s X oth r s1"
  using mq_make_good [OF assms] by (auto simp: mq_found_def split: sum.splits)

lemma mq_open_attr_good:
  assumes "queues_good s" and "mq_acc s X oth"
  shows "good_step s X oth (\<lambda>_. []) (snd (mq_open_attr name oflag mode a fd t s))"
  using mq_install_good [OF assms mq_make_found [OF assms]]
  by (cases "mq_make name mode a t s") (simp add: mq_open_attr_def)

lemma sys_mq_open_good:
  assumes "queues_good s" and "mq_acc s X oth"
  shows "good_step s X oth (\<lambda>_. []) (snd (sys_mq_open uname oflag mode a fd t s))"
proof -
  obtain r s1 where lk: "mq_lookup uname oflag mode a t s = (r, s1)" by fastforce
  have "mq_found s X oth (Inl err) s" "i < length (queues s) \<Longrightarrow> mq_found s X oth (Inr i) s" for err i
    using assms by (simp_all add: mq_found_def)
  then have "mq_found s X oth r s1"
    using lk mq_make_found [OF assms, of _ mode a t] by_name_SomeD [of _ s]
    by (auto simp: mq_lookup_def split: sum.splits if_splits option.splits)
  then show ?thesis using mq_install_good [OF assms] lk by (simp add: sys_mq_open_def)
qed

section \<open>All calls in any order\<close>

text \<open>The table and the suspended calls, each with its queue and, for the specification, the message
  that it is sending, as far as it has been copied, or has taken.  Between any two stretches of a call
  come stretches of any other calls, and the memory that a call reads or the flags of its
  descriptor may change.\<close>

type_synonym suspended = "mqcall \<times> nat \<times> u32 \<times> u8 list"
type_synonym mqcfg = "mqstate \<times> suspended multiset"

fun after :: "mqturn \<Rightarrow> nat \<Rightarrow> u32 \<times> u8 list \<Rightarrow> suspended multiset \<Rightarrow> suspended multiset" where
  "after (Sleeps call) i x W = add_mset (call, i, x) W"
| "after _ i x W = W"

inductive mq_step :: "mqcfg \<Rightarrow> (nat \<Rightarrow> mqev list) \<Rightarrow> mqcfg \<Rightarrow> bool" where
  send: "mf_queue f < length (queues s) \<Longrightarrow> sys_mq_timedsend (Some f) len prio s = (r, s') \<Longrightarrow>
     mq_step (s, W) (at_q (mf_queue f) (sent r (prio, []))) (s', after r (mf_queue f) (prio, []) W)"
| fetch: "(\<And>bs. res = Some bs \<Longrightarrow> length bs = page_bytes m d) \<Longrightarrow>
     send_fetched i res flags m d k s = (r, s') \<Longrightarrow>
     mq_step (s, add_mset (SFetch i m d k, i, p, b) W) (at_q i (sent r (p, b @ fetched res)))
       (s', after r i (p, b @ fetched res) W)"
| send_time: "send_time i uts now_sec now_usec sig c m s = (r, s') \<Longrightarrow>
     mq_step (s, add_mset (STime i m, i, x) W) (at_q i (sent r x)) (s', after r i x W)"
| send_wake: "send_resume i m ms elapsed sig c s = (r, s') \<Longrightarrow>
     mq_step (s, add_mset (SWait i m ms, i, x) W) (at_q i (sent r x)) (s', after r i x W)"
| receive: "mf_queue f < length (queues s) \<Longrightarrow> sys_mq_timedreceive (Some f) len want s = (r, s') \<Longrightarrow>
     mq_step (s, W) (at_q (mf_queue f) (took (mf_queue f) r s s'))
       (s', after r (mf_queue f) (front s (mf_queue f)) W)"
| recv_time: "recv_time i want uts now_sec now_usec sig c s = (r, s') \<Longrightarrow>
     mq_step (s, add_mset (RTime i want, i, x) W) (at_q i (took i r s s')) (s', after r i (front s i) W)"
| recv_wake: "recv_resume i want ms elapsed sig c s = (r, s') \<Longrightarrow>
     mq_step (s, add_mset (RWait i want ms, i, x) W) (at_q i (took i r s s')) (s', after r i (front s i) W)"
| store: "recv_stored ok m d k out want s = (r, s') \<Longrightarrow>
     mq_step (s, add_mset (RStore m d k out want, i, x) W) (at_q i (gave r x)) (s', after r i x W)"
| store_prio: "recv_prio ok p out s = (r, s') \<Longrightarrow>
     mq_step (s, add_mset (RPrio p out, i, x) W) (at_q i (gave r x)) (s', after r i x W)"
| open_call: "mq_step (s, W) (\<lambda>_. []) (snd (sys_mq_open uname oflag mode a fd t s), W)"
| open_attr: "mq_step (s, W) (\<lambda>_. []) (snd (mq_open_attr name oflag mode a fd t s), W)"
| unlinking: "mq_step (s, W) (\<lambda>_. []) (snd (sys_mq_unlink uname t s), W)"
| closing: "mf_queue f < length (queues s) \<Longrightarrow> mq_step (s, W) (\<lambda>_. []) (mq_close f t s, W)"
| notifying: "mq_step (s, W) (\<lambda>_. []) (snd (sys_mq_notify fo ev t s), W)"
| exiting: "mq_step (s, W) (\<lambda>_. []) (mq_task_exit n s, W)"

definition susp_pages :: "suspended multiset \<Rightarrow> u32 multiset" where
  "susp_pages W = \<Sum>\<^sub># (image_mset (\<lambda>(call, i, x). call_pages call) W)"

lemma susp_pages_add [simp]: "susp_pages (add_mset (call, i, x) W) = call_pages call + susp_pages W"
  by (simp add: susp_pages_def)

lemma susp_pages_after: "susp_pages (after r i x W) = held r + susp_pages W"
  by (cases r) simp_all

definition cfg_ok :: "(u32 \<Rightarrow> nat) \<Rightarrow> mqcfg \<Rightarrow> bool" where
  "cfg_ok oth c \<longleftrightarrow> queues_good (fst c) \<and> mq_acc (fst c) (susp_pages (snd c)) oth \<and>
     (\<forall>(call, i, x) \<in># snd c. call_ok (length (queues (fst c))) call i x)"

lemma cfg_okD:
  assumes "cfg_ok oth (s, W)"
  shows "queues_good s" and "mq_acc s (susp_pages W) oth"
  using assms by (simp_all add: cfg_ok_def)

lemma cfg_ok_addD:
  assumes "cfg_ok oth (s, add_mset (call, i, x) W)"
  shows "queues_good s" and "mq_acc s (call_pages call + susp_pages W) oth" and "call_ok (length (queues s)) call i x"
  using assms by (simp_all add: cfg_ok_def)

definition step_ok :: "(u32 \<Rightarrow> nat) \<Rightarrow> mqcfg \<Rightarrow> (nat \<Rightarrow> mqev list) \<Rightarrow> mqcfg \<Rightarrow> bool" where
  "step_ok oth c ev c' \<longleftrightarrow> cfg_ok oth c' \<and> (\<forall>j < length (queues (fst c)). effect j (ev j) (fst c) (fst c')) \<and>
    length (queues (fst c')) = length (queues (fst c))"

lemma step_ok_quiet:
  assumes "cfg_ok oth (s, W)" and "good_step s (susp_pages W) oth (\<lambda>_. []) s'"
  shows "step_ok oth (s, W) (\<lambda>_. []) (s', W)"
  using assms by (auto simp: step_ok_def cfg_ok_def good_step_def)

lemma step_ok_turn:
  assumes "cfg_ok oth (s, W')" and "W \<subseteq># W'" and "turn_ok s i x (susp_pages W) oth es r s'"
  shows "step_ok oth (s, W') (at_q i es) (s', after r i x W)"
proof -
  have len: "length (queues s') = length (queues s)" using assms(3) by (simp add: turn_ok_def good_step_def)
  have "call_ok (length (queues s)) call j y" if "(call, j, y) \<in># W" for call j y
    using assms(1) mset_subset_eqD [OF assms(2) that] by (auto simp: cfg_ok_def)
  then have "call_ok (length (queues s)) call j y" if "(call, j, y) \<in># after r i x W" for call j y
    using that assms(3) by (cases r; cases y) (auto simp: turn_ok_def)
  then show ?thesis
    using assms(3) len by (auto simp: step_ok_def cfg_ok_def turn_ok_def good_step_def susp_pages_after)
qed

lemma step_ok_begin:
  "cfg_ok oth (s, W) \<Longrightarrow> turn_ok s i x (susp_pages W) oth es r s' \<Longrightarrow>
    step_ok oth (s, W) (at_q i es) (s', after r i x W)"
  by (rule step_ok_turn) simp_all

lemma step_ok_go_on:
  "cfg_ok oth (s, add_mset w W) \<Longrightarrow> turn_ok s i x (susp_pages W) oth es r s' \<Longrightarrow>
    step_ok oth (s, add_mset w W) (at_q i es) (s', after r i x W)"
  by (rule step_ok_turn) simp_all

lemma mq_step_ok: "mq_step c ev c' \<Longrightarrow> cfg_ok oth c \<Longrightarrow> step_ok oth c ev c'"
proof (induction rule: mq_step.induct)
  case (send f s len prio r s' W)
  show ?case
    using timedsend_good [OF cfg_okD [OF send.prems] send.hyps(1)] send.hyps(2)
    by (intro step_ok_begin send.prems) (metis send_post_pair)
next
  case (fetch res m d i flags k s r s' p b W)
  note c = cfg_ok_addD [OF fetch.prems]
  show ?case
    using send_fetched_good [OF c(1,3) c(2) [unfolded call_pages.simps] fetch.hyps(1)] fetch.hyps(2)
    by (intro step_ok_go_on fetch.prems) (metis send_post_pair)
next
  case (send_time i uts now_sec now_usec sig c m s r s' x W)
  note c = cfg_ok_addD [OF send_time.prems]
  show ?case
    using send_time_good [OF c(1), of i m "susp_pages W" oth uts now_sec now_usec sig c] c(2,3) send_time.hyps
    by (intro step_ok_go_on send_time.prems) (simp add: send_post_pair)
next
  case (send_wake i m ms elapsed sig c s r s' x W)
  note c = cfg_ok_addD [OF send_wake.prems]
  show ?case
    using send_resume_good [OF c(1), of i m "susp_pages W" oth ms elapsed sig c] c(2,3) send_wake.hyps
    by (intro step_ok_go_on send_wake.prems) (simp add: send_post_pair)
next
  case (receive f s len want r s' W)
  show ?case
    using timedreceive_post [OF cfg_okD(1) [OF receive.prems] receive.hyps(1) cfg_okD(2) [OF receive.prems]] receive.hyps(2)
    by (intro step_ok_begin receive.prems) (metis recv_post_pair)
next
  case (recv_time i want uts now_sec now_usec sig c s r s' x W)
  note c = cfg_ok_addD [OF recv_time.prems]
  show ?case
    using recv_time_post [OF c(1), of i "susp_pages W" oth want uts now_sec now_usec sig c] c(2,3) recv_time.hyps
    by (intro step_ok_go_on recv_time.prems) (simp add: recv_post_pair)
next
  case (recv_wake i want ms elapsed sig c s r s' x W)
  note c = cfg_ok_addD [OF recv_wake.prems]
  show ?case
    using recv_resume_post [OF c(1), of i "susp_pages W" oth want ms elapsed sig c] c(2,3) recv_wake.hyps
    by (intro step_ok_go_on recv_wake.prems) (simp add: recv_post_pair)
next
  case (store ok m d k out want s r s' i x W)
  note c = cfg_ok_addD [OF store.prems]
  show ?case
    using recv_stored_good [OF c(1,3) _ store.hyps] c(2) by (intro step_ok_go_on store.prems) simp
next
  case (store_prio ok p out s r s' i x W)
  note c = cfg_ok_addD [OF store_prio.prems]
  show ?case
    using recv_prio_good [OF c(1) _ _ store_prio.hyps] c(2,3) by (intro step_ok_go_on store_prio.prems) simp
next
  case (open_call s W uname oflag mode a fd t)
  then show ?case by (intro step_ok_quiet sys_mq_open_good) (auto simp: cfg_okD)
next
  case (open_attr s W name oflag mode a fd t)
  then show ?case by (intro step_ok_quiet mq_open_attr_good) (auto simp: cfg_okD)
next
  case (unlinking s W uname t)
  then show ?case by (intro step_ok_quiet sys_mq_unlink_good) (auto simp: cfg_okD)
next
  case (closing f s W t)
  then show ?case by (intro step_ok_quiet mq_close_good) (auto simp: cfg_okD)
next
  case (notifying s W fo ev t)
  then show ?case by (intro step_ok_quiet sys_mq_notify_good) (auto simp: cfg_okD)
next
  case (exiting s W n)
  then show ?case by (intro step_ok_quiet good_step_quiet quiet_ops) (auto simp: cfg_okD)
qed

definition mq_start :: "pmm \<Rightarrow> mqcfg" where
  "mq_start p = (\<lparr>queues = replicate MQ_MAX zero_queue, next_ino = 1, mpool = p,
     menv = \<lparr>made_ready = [], poll_wait = [], signals = []\<rparr>\<rparr>, {#})"

inductive mq_reachable :: "pmm \<Rightarrow> mqcfg \<Rightarrow> bool" for p where
  start: "mq_reachable p (mq_start p)"
| step: "mq_reachable p c \<Longrightarrow> mq_step c ev c' \<Longrightarrow> mq_reachable p c'"


lemma sum_list_empty: "sum_list (replicate n ({#} :: u32 multiset)) = {#}"
  by (induction n) auto

lemma mq_start_ok: "pmm_wf p \<Longrightarrow> cfg_ok (page_refs p) (mq_start p)"
  by (simp add: cfg_ok_def mq_start_def queues_good_def zero_queue_good list_all_iff mq_acc_def
      mq_pages_def susp_pages_def pool.accounted_def sum_list_empty)

lemma mq_reachable_ok:
  assumes "pmm_wf p" and "mq_reachable p c"
  shows "cfg_ok (page_refs p) c \<and> length (queues (fst c)) = MQ_MAX"
  using assms(2)
proof induction
  case start
  show ?case using mq_start_ok [OF assms(1)] by (simp add: mq_start_def)
next
  case (step c ev c')
  then show ?case using mq_step_ok [OF step.hyps(2)] by (auto simp: step_ok_def)
qed


text \<open>A queue opened by root in an empty table, and empty messages sent to it.\<close>

definition root_task :: mqtask where
  "root_task = \<lparr>t_id = 1, t_euid = 0, t_egid = 0, t_umask = 0\<rparr>"

definition demo_open :: mqstate where
  "demo_open = snd (sys_mq_open (Inr [106]) (O_CREAT OR O_RDWR) 0x1ff NoAttr (Inr 3) root_task
     (fst (mq_start demo_pool)))"

definition demo_file :: mqfile where
  "demo_file = \<lparr>mf_flags = O_RDWR, mf_queue = 0\<rparr>"

lemma first_idx_replicate: "P x \<Longrightarrow> first_idx P (replicate (Suc n) x) = Some 0"
  by simp

lemma demo_open_facts:
  "mq_reachable demo_pool (demo_open, {#})" "length (queues demo_open) = 16"
  "q_used (queues demo_open ! 0)" "q_count (queues demo_open ! 0) = 0" "q_maxmsg (queues demo_open ! 0) = 10"
  "q_refs (queues demo_open ! 0) = 1" "q_name (queues demo_open ! 0) = [106]" "q_linked (queues demo_open ! 0)"
proof -
  have "mq_step (fst (mq_start demo_pool), {#}) (\<lambda>_. []) (demo_open, {#})"
    unfolding demo_open_def by (rule mq_step.open_call)
  then show "mq_reachable demo_pool (demo_open, {#})"
    using mq_reachable.step [OF mq_reachable.start] by (simp add: mq_start_def)
  have no: "by_name n (fst (mq_start p)) = None" for n p
    by (simp add: by_name_def mq_start_def zero_queue_def)
  have fi: "first_idx (\<lambda>q. \<not> q_used q) (replicate MQ_MAX zero_queue) = Some 0"
    using first_idx_replicate [of "\<lambda>q. \<not> q_used q" zero_queue 15]
    by (simp add: MQ_MAX_def zero_queue_def del: replicate_Suc)
  have "has (O_CREAT OR O_RDWR) O_CREAT" "(O_CREAT OR O_RDWR) AND O_ACCMODE \<noteq> O_ACCMODE" by (simp_all add: kdefs)
  then have E: "demo_open = (fst (mq_start demo_pool))\<lparr>queues := (replicate MQ_MAX zero_queue)[0 := zero_queue\<lparr>q_used := True,
      q_linked := True, q_name := [106], q_mode := 0x1ff, q_maxmsg := 10, q_msgsize := 8192, q_ino := 1,
      q_refs := 1\<rparr>], next_ino := 2\<rparr>"
    using no fi
    by (simp add: demo_open_def sys_mq_open_def mq_install_def mq_lookup_def mq_make_def new_attr_def root_task_def MQ_NAME_MAX_def
        MQ_USER_MAXMSG_def MQ_USER_MSGSIZE_def mq_start_def MQ_MAX_def zero_queue_def)
  show "length (queues demo_open) = 16" "q_used (queues demo_open ! 0)" "q_count (queues demo_open ! 0) = 0"
    "q_maxmsg (queues demo_open ! 0) = 10" "q_refs (queues demo_open ! 0) = 1"
    "q_name (queues demo_open ! 0) = [106]" "q_linked (queues demo_open ! 0)"
    unfolding E by (simp_all add: MQ_MAX_def zero_queue_def)
qed

definition send_empty :: "u32 \<Rightarrow> mqstate \<Rightarrow> mqstate" where
  "send_empty prio s = snd (sys_mq_timedsend (Some demo_file) 0 prio s)"

lemma send_empty_step:
  assumes "0 < length (queues s)" and "q_count (queues s ! 0) < q_maxmsg (queues s ! 0)" and "prio < MQ_PRIO_MAX"
  shows "mq_step (s, W) (at_q 0 [Sent (prio, [])]) (send_empty prio s, W)"
    and "length (queues (send_empty prio s)) = length (queues s)"
    and "q_count (queues (send_empty prio s) ! 0) = q_count (queues s ! 0) + 1"
    and "q_maxmsg (queues (send_empty prio s) ! 0) = q_maxmsg (queues s ! 0)"
    and "q_used (queues (send_empty prio s) ! 0) = q_used (queues s ! 0)"
    and "q_refs (queues (send_empty prio s) ! 0) = q_refs (queues s ! 0)"
    and "q_name (queues (send_empty prio s) ! 0) = q_name (queues s ! 0)"
    and "q_linked (queues (send_empty prio s) ! 0) = q_linked (queues s ! 0)"
proof -
  let ?m = "zero_msg\<lparr>m_prio := prio, m_len := 0\<rparr>"
  have "send_checks (Some demo_file) 0 prio s = None"
    using assms by (simp add: send_checks_def Let_def demo_file_def kdefs not_le)
  then have eq: "sys_mq_timedsend (Some demo_file) 0 prio s = (SDone (Inr ()), send_commit 0 ?m s)"
    using assms(2) [unfolded not_le [symmetric]]
    by (simp add: sys_mq_timedsend_def send_load_def send_room_def Let_def demo_file_def)
  then have se: "send_empty prio s = send_commit 0 ?m s" by (simp add: send_empty_def)
  show "mq_step (s, W) (at_q 0 [Sent (prio, [])]) (send_empty prio s, W)"
    using mq_step.send [OF _ eq, of W] assms(1) by (simp add: se demo_file_def sent_def)
  show "length (queues (send_empty prio s)) = length (queues s)"
    "q_count (queues (send_empty prio s) ! 0) = q_count (queues s ! 0) + 1"
    "q_maxmsg (queues (send_empty prio s) ! 0) = q_maxmsg (queues s ! 0)"
    "q_used (queues (send_empty prio s) ! 0) = q_used (queues s ! 0)"
    "q_refs (queues (send_empty prio s) ! 0) = q_refs (queues s ! 0)"
    "q_name (queues (send_empty prio s) ! 0) = q_name (queues s ! 0)"
    "q_linked (queues (send_empty prio s) ! 0) = q_linked (queues s ! 0)"
    using assms(1) by (simp_all add: se send_commit_def mq_tell_def insert_msg_def Let_def split: prod.splits)
qed

section \<open>Properties\<close>



text \<open>C14: no page is lost and none is freed twice.  In every state that calls in any order lead
  to, failed, interrupted and half-done ones included, each page has, above the holders it had at the
  start, one for each message that it is part of, in a queue or with a call in progress; and
  no queue holds more than its limit or than its array has room for.\<close>

theorem mq_pages_accounted:
  assumes "pmm_wf p" and "mq_reachable p c"
  shows "list_all queue_ok (queues (fst c)) \<and>
    (\<forall>pa. page_refs (mpool (fst c)) pa =
       page_refs p pa + count (mq_pages (fst c) + susp_pages (snd c)) pa)"
  using mq_reachable_ok [OF assms]
  by (auto simp: cfg_ok_def mq_acc_def pool.accounted_def queues_good_def queue_good_def list_all_iff)

theorem mq_pages_accounted_witness:
  "mq_reachable demo_pool (demo_open, {#}) \<and> queue_ok (queues demo_open ! 0) \<and>
   page_refs (mpool demo_open) 0x2000 = page_refs demo_pool 0x2000 + count (mq_pages demo_open) 0x2000"
  using mq_pages_accounted [OF demo_pool_facts(1) demo_open_facts(1)] demo_open_facts
  by (simp add: list_all_length susp_pages_def)

text \<open>C34: a failing \<^verbatim>\<open>mq_open\<close> destroys.  When a queue that exists and has no descriptor open on
  it is opened and there is no descriptor to be had, the call returns the error, and the queue and
  all its messages are gone.\<close>

theorem mq_open_failure_destroys:
  assumes "by_name name s = Some i" and "name \<noteq> [] \<and> length name \<le> MQ_NAME_MAX \<and> 47 \<notin> set name"
    and "oflag AND O_ACCMODE \<noteq> O_ACCMODE \<and> \<not> has oflag O_EXCL"
    and "may (queues s ! i) (oflag AND O_ACCMODE) t" and "q_refs (queues s ! i) = 0"
  shows "\<exists>s'. sys_mq_open (Inr name) oflag mode a (Inl EMFILE) t s = (Inl EMFILE, s') \<and>
    \<not> q_used (queues s' ! i) \<and> q_items (queues s' ! i) = []"
proof -
  have "(oflag AND (O_CREAT OR O_EXCL)) \<noteq> O_CREAT OR O_EXCL"
  proof
    assume "oflag AND (O_CREAT OR O_EXCL) = O_CREAT OR O_EXCL"
    then have "(oflag AND (O_CREAT OR O_EXCL)) AND O_EXCL = (O_CREAT OR O_EXCL) AND O_EXCL" by simp
    then have "oflag AND O_EXCL = O_EXCL" by (simp add: and.assoc kdefs)
    then show False using assms(3) by (simp add: kdefs)
  qed
  then have "mq_lookup (Inr name) oflag mode a t s = (Inr i, s)"
    using assms by (simp add: mq_lookup_def)
  moreover have "i < length (queues s)" using assms(1) by (rule by_name_SomeD)
  ultimately show ?thesis
    using assms(5) by (simp add: sys_mq_open_def mq_install_def mq_free_def zero_queue_good zero_queue_def q_items_def)
qed

theorem mq_open_failure_destroys_witness:
  "q_count (queues (mq_close demo_file root_task (send_empty 1 demo_open)) ! 0) = 1 \<and>
   (\<exists>s'. sys_mq_open (Inr [106]) O_RDWR 0 NoAttr (Inl EMFILE) root_task
           (mq_close demo_file root_task (send_empty 1 demo_open)) = (Inl EMFILE, s') \<and>
      \<not> q_used (queues s' ! 0) \<and> q_items (queues s' ! 0) = [])"
proof -
  let ?s = "send_empty 1 demo_open" and ?c = "mq_close demo_file root_task (send_empty 1 demo_open)"
  have "(1 :: u32) < MQ_PRIO_MAX" by (simp add: MQ_PRIO_MAX_def)
  note s1 = send_empty_step [of demo_open 1, unfolded demo_open_facts, OF _ _ this, simplified]
  have c: "length (queues ?c) = 16" "q_count (queues ?c ! 0) = 1" "q_refs (queues ?c ! 0) = 0"
    "q_used (queues ?c ! 0)" "q_linked (queues ?c ! 0)" "q_name (queues ?c ! 0) = [106]"
    using s1 by (simp_all add: mq_close_def Let_def demo_file_def demo_open_facts)
  have "by_name [106] ?c = Some 0"
    unfolding by_name_def using c by (intro first_idx_SomeI) auto
  then have "\<exists>s'. sys_mq_open (Inr [106]) O_RDWR 0 NoAttr (Inl EMFILE) root_task ?c = (Inl EMFILE, s') \<and>
      \<not> q_used (queues s' ! 0) \<and> q_items (queues s' ! 0) = []"
    using c by (intro mq_open_failure_destroys) (simp_all add: MQ_NAME_MAX_def kdefs may_def root_task_def)
  then show ?thesis using c(2) by simp
qed

end
