(* ===== verification/Swap.thy ===== *)
theory Swap
  imports Pmm Waitq
begin

text \<open>
  \<^verbatim>\<open>kernel/swap.c\<close>: the swap file.  A page of the file is a slot; a slot has the number of the
  first of its eight sectors, a count of holders and a busy mark.  The three tables live in pages
  taken from the page allocator, which zeroes them; here they are lists of \<open>sw_nslots\<close> entries.

  The file system is a parameter: what \<^verbatim>\<open>fd_open\<close> and \<^verbatim>\<open>vfs_fstat\<close> answer, and \<open>bmap\<close>, the
  sector of each offset of the file (\<^verbatim>\<open>vfs_bmap\<close>).  The block device is a function from sector
  numbers to contents, and whether a transfer succeeds is an argument.
\<close>

section \<open>Definitions\<close>

definition SECTORS_PER_PAGE :: nat where "SECTORS_PER_PAGE = 8"
definition SLOT_BAD :: u32 where "SLOT_BAD = 0xffffffff"
definition SWAP_NONE :: u32 where "SWAP_NONE = 0xffffffff"

record swap =
  sw_on :: bool
  sw_ino :: u32
  sw_nslots :: u32
  sw_lba :: "u32 list"
  sw_refs :: "u8 list"
  sw_busy :: "bool list"
  sw_table_pages :: u32
  sw_table_pa :: u32
  sw_hint :: u32
  st_slots :: u32
  st_used :: u32
  st_pageouts :: u32
  st_pageins :: u32
  busy_wait :: "nat list"
  swpool :: pmm
  swenv :: env

definition swap_set_busy :: "u32 \<Rightarrow> bool \<Rightarrow> swap \<Rightarrow> swap" where
  "swap_set_busy slot busy s =
     (if \<not> sw_on s \<or> sw_nslots s \<le> slot then s
      else
        let s1 = s\<lparr>sw_busy := (sw_busy s)[unat slot := busy]\<rparr>
        in if \<not> busy then s1\<lparr>busy_wait := [], swenv := wake_list (busy_wait s1) (swenv s1)\<rparr> else s1)"

text \<open>One look at the condition of \<^verbatim>\<open>swap_wait_idle\<close>: whether the task goes to sleep.\<close>

definition swap_wait_idle :: "u32 \<Rightarrow> nat \<Rightarrow> swap \<Rightarrow> bool \<times> swap" where
  "swap_wait_idle slot c s =
     (if sw_on s \<and> slot < sw_nslots s \<and> sw_busy s ! unat slot
      then (True, s\<lparr>busy_wait := busy_wait s @ [c]\<rparr>) else (False, s))"

definition swap_holds :: "u32 \<Rightarrow> swap \<Rightarrow> bool" where
  "swap_holds ino s \<longleftrightarrow> sw_on s \<and> ino = sw_ino s"

text \<open>The slot scan: slot \<open>i\<close> is usable when its eight sectors follow one another.\<close>

definition slot_run :: "(u32 \<Rightarrow> u32 option) \<Rightarrow> u32 \<Rightarrow> u32 \<Rightarrow> bool" where
  "slot_run bmap off lba0 \<longleftrightarrow>
     list_all (\<lambda>k. bmap (off + of_nat k * 512) = Some (lba0 + of_nat k)) [1..<SECTORS_PER_PAGE]"

definition scan_slot :: "(u32 \<Rightarrow> u32 option) \<Rightarrow> u32 \<Rightarrow> u32 option" where
  "scan_slot bmap i =
     (case bmap (i * PAGE_SIZE) of
        None \<Rightarrow> None
      | Some lba0 \<Rightarrow> if slot_run bmap (i * PAGE_SIZE) lba0 then Some lba0 else None)"

text \<open>What \<^verbatim>\<open>vfs_fstat\<close> says of the file: whether it is regular, its size and its key.\<close>

record swfile =
  f_regular :: bool
  f_size :: u32
  f_key :: u32

definition swap_on ::
    "errno option \<Rightarrow> errno + swfile \<Rightarrow> (u32 \<Rightarrow> u32 option) \<Rightarrow> bool \<Rightarrow> swap \<Rightarrow> (errno + u32) \<times> swap" where
  "swap_on open_err fst_ans bmap has_dev s =
     (if sw_on s then (Inl EBUSY, s)
      else
        case open_err of
          Some err \<Rightarrow> (Inl err, s)
        | None \<Rightarrow>
            case fst_ans of
              Inl err \<Rightarrow> (Inl err, s)
            | Inr f \<Rightarrow>
                if \<not> f_regular f then (Inl EINVAL, s)
                else
                  let slots = f_size f div PAGE_SIZE
                  in if slots < 1 \<or> 0xfffff < slots then (Inl EINVAL, s)
                     else
                       let bytes = slots * (4 + 2 * 1);
                           pages = (bytes + PAGE_SIZE - 1) div PAGE_SIZE;
                           (pa, pool1) = pmm_alloc_pages pages (swpool s)
                       in if pa = 0 then (Inl ENOMEM, s\<lparr>swpool := pool1\<rparr>)
                          else
                            let scans = map (scan_slot bmap) (u32_upto slots);
                                lba = map (\<lambda>r. case r of None \<Rightarrow> SLOT_BAD | Some x \<Rightarrow> x) scans;
                                good = of_nat (length (filter (\<lambda>r. r \<noteq> None) scans));
                                s1 = s\<lparr>sw_lba := lba, sw_refs := replicate (unat slots) 0,
                                       sw_busy := replicate (unat slots) False, swpool := pool1\<rparr>
                            in if good = 0 \<or> \<not> has_dev
                               then (Inl EINVAL, s1\<lparr>swpool := pmm_free_pages pa (unat pages) pool1\<rparr>)
                               else (Inr good, s1\<lparr>sw_ino := f_key f, sw_nslots := slots,
                                       sw_table_pages := pages, sw_table_pa := pa, sw_hint := 0,
                                       st_slots := good, st_used := 0, st_pageouts := 0,
                                       st_pageins := 0, sw_on := True\<rparr>))"

definition swap_release :: "swap \<Rightarrow> swap" where
  "swap_release s =
     (if \<not> sw_on s then s
      else s\<lparr>swpool := pmm_free_pages (sw_table_pa s) (unat (sw_table_pages s)) (swpool s),
             sw_on := False, sw_ino := 0, sw_nslots := 0, st_slots := 0, st_used := 0\<rparr>)"

definition swap_is_on :: "swap \<Rightarrow> bool" where
  "swap_is_on s = sw_on s"

definition swap_matches :: "swfile option \<Rightarrow> swap \<Rightarrow> bool" where
  "swap_matches st s \<longleftrightarrow> sw_on s \<and> (case st of None \<Rightarrow> False | Some f \<Rightarrow> f_key f = sw_ino s)"

definition swap_alloc :: "swap \<Rightarrow> u32 \<times> swap" where
  "swap_alloc s =
     (if \<not> sw_on s then (SWAP_NONE, s)
      else
        case find (\<lambda>i. sw_lba s ! i \<noteq> SLOT_BAD \<and> sw_refs s ! i = 0) [unat (sw_hint s)..<unat (sw_nslots s)] of
          None \<Rightarrow> (SWAP_NONE, s)
        | Some i \<Rightarrow> (of_nat i, s\<lparr>sw_refs := (sw_refs s)[i := 1], sw_hint := of_nat i + 1,
                                 st_used := st_used s + 1\<rparr>))"

definition swap_ref :: "u32 \<Rightarrow> swap \<Rightarrow> bool \<times> swap" where
  "swap_ref slot s =
     (if \<not> sw_on s \<or> sw_nslots s \<le> slot \<or> sw_refs s ! unat slot = 0 \<or> sw_refs s ! unat slot = 0xff
      then (False, s)
      else (True, s\<lparr>sw_refs := (sw_refs s)[unat slot := sw_refs s ! unat slot + 1]\<rparr>))"

definition swap_free :: "u32 \<Rightarrow> swap \<Rightarrow> swap" where
  "swap_free slot s =
     (if \<not> sw_on s \<or> sw_nslots s \<le> slot \<or> sw_refs s ! unat slot = 0 then s
      else
        let s1 = s\<lparr>sw_refs := (sw_refs s)[unat slot := sw_refs s ! unat slot - 1]\<rparr>
        in if sw_refs s ! unat slot - 1 = 0 then
             s1\<lparr>st_used := st_used s - 1, sw_hint := (if slot < sw_hint s then slot else sw_hint s)\<rparr>
           else s1)"

definition swap_refcount :: "u32 \<Rightarrow> swap \<Rightarrow> u32" where
  "swap_refcount slot s = (if sw_on s \<and> slot < sw_nslots s then ucast (sw_refs s ! unat slot) else 0)"

text \<open>The device: 512 bytes to a sector.  A failed transfer is an argument.\<close>

type_synonym disk = "u32 \<Rightarrow> u8 list"

definition disk_write :: "u32 \<Rightarrow> u8 list \<Rightarrow> disk \<Rightarrow> disk" where
  "disk_write lba page d =
     (\<lambda>x. if unat (x - lba) < SECTORS_PER_PAGE then take 512 (drop (512 * unat (x - lba)) page) else d x)"

definition disk_read :: "u32 \<Rightarrow> disk \<Rightarrow> u8 list" where
  "disk_read lba d = concat (map (\<lambda>k. d (lba + of_nat k)) [0..<SECTORS_PER_PAGE])"

definition swap_write :: "u32 \<Rightarrow> u8 list \<Rightarrow> bool \<Rightarrow> swap \<Rightarrow> disk \<Rightarrow> (errno + unit) \<times> swap \<times> disk" where
  "swap_write slot page io_ok s d =
     (if \<not> sw_on s \<or> sw_nslots s \<le> slot \<or> sw_lba s ! unat slot = SLOT_BAD then (Inl EINVAL, s, d)
      else
        let s1 = s\<lparr>st_pageouts := st_pageouts s + 1\<rparr>
        in if io_ok then (Inr (), s1, disk_write (sw_lba s ! unat slot) page d) else (Inl EIO, s1, d))"

definition swap_read :: "u32 \<Rightarrow> bool \<Rightarrow> swap \<Rightarrow> disk \<Rightarrow> (errno + u8 list) \<times> swap" where
  "swap_read slot io_ok s d =
     (if \<not> sw_on s \<or> sw_nslots s \<le> slot \<or> sw_lba s ! unat slot = SLOT_BAD then (Inl EINVAL, s)
      else
        let s1 = s\<lparr>st_pageins := st_pageins s + 1\<rparr>
        in (if io_ok then Inr (disk_read (sw_lba s ! unat slot) d) else Inl EIO, s1))"

section \<open>Invariant\<close>

text \<open>While swap is on: tables of the right length, no usable free slot below the hint, the count
  of used slots right, and no two usable slots with a sector in common.\<close>

definition usable :: "swap \<Rightarrow> nat \<Rightarrow> bool" where
  "usable s i \<longleftrightarrow> i < unat (sw_nslots s) \<and> sw_lba s ! i \<noteq> SLOT_BAD"

definition free_slot :: "swap \<Rightarrow> nat \<Rightarrow> bool" where
  "free_slot s i \<longleftrightarrow> usable s i \<and> sw_refs s ! i = 0"

definition sectors :: "u32 \<Rightarrow> u32 set" where
  "sectors lba = {lba + of_nat k | k. k < SECTORS_PER_PAGE}"

definition swap_wf :: "swap \<Rightarrow> bool" where
  "swap_wf s \<longleftrightarrow> sw_on s \<longrightarrow>
     unat (sw_nslots s) \<le> 0xfffff \<and> length (sw_lba s) = unat (sw_nslots s) \<and>
     length (sw_refs s) = unat (sw_nslots s) \<and> length (sw_busy s) = unat (sw_nslots s) \<and>
     unat (sw_hint s) \<le> unat (sw_nslots s) \<and> (\<forall>i < unat (sw_hint s). \<not> free_slot s i) \<and>
     (\<forall>i < unat (sw_nslots s). sw_refs s ! i \<noteq> 0 \<longrightarrow> usable s i) \<and>
     unat (st_used s) = card {i. i < unat (sw_nslots s) \<and> sw_refs s ! i \<noteq> 0} \<and>
     (\<forall>i j. usable s i \<and> usable s j \<and> i \<noteq> j \<longrightarrow> sectors (sw_lba s ! i) \<inter> sectors (sw_lba s ! j) = {})"

lemma swap_wfD:
  assumes "swap_wf s" and "sw_on s"
  shows "unat (sw_nslots s) \<le> 0xfffff" "length (sw_lba s) = unat (sw_nslots s)"
    "length (sw_refs s) = unat (sw_nslots s)" "length (sw_busy s) = unat (sw_nslots s)"
    "unat (sw_hint s) \<le> unat (sw_nslots s)" "i < unat (sw_hint s) \<Longrightarrow> \<not> free_slot s i"
    "i < unat (sw_nslots s) \<Longrightarrow> sw_refs s ! i \<noteq> 0 \<Longrightarrow> usable s i"
    "unat (st_used s) = card {i. i < unat (sw_nslots s) \<and> sw_refs s ! i \<noteq> 0}"
    "usable s i \<Longrightarrow> usable s j \<Longrightarrow> i \<noteq> j \<Longrightarrow> sectors (sw_lba s ! i) \<inter> sectors (sw_lba s ! j) = {}"
  using assms unfolding swap_wf_def by blast+

text \<open>What the invariant depends on; the other fields may change freely.\<close>

lemma swap_wf_cong:
  assumes "swap_wf s" and "sw_on s' = sw_on s" "sw_nslots s' = sw_nslots s" "sw_lba s' = sw_lba s"
    "sw_refs s' = sw_refs s" "length (sw_busy s') = length (sw_busy s)" "sw_hint s' = sw_hint s" "st_used s' = st_used s"
  shows "swap_wf s'"
  using assms by (simp add: swap_wf_def free_slot_def usable_def)

text \<open>Changing one count.\<close>

lemma used_set_update:
  assumes "i < n" and "length xs = n"
  shows "{j. j < n \<and> xs[i := x] ! j \<noteq> 0} =
    (if x = 0 then {j. j < n \<and> xs ! j \<noteq> 0} - {i} else insert i {j. j < n \<and> xs ! j \<noteq> 0})"
  using assms by (auto simp: nth_list_update)

lemma find_upt:
  assumes "find P [a..<b] = Some i"
  shows "a \<le> i" "i < b" "P i" "\<And>j. a \<le> j \<Longrightarrow> j < i \<Longrightarrow> \<not> P j"
proof -
  obtain k where k: "k < length [a..<b]" "P ([a..<b] ! k)" "i = [a..<b] ! k" "\<forall>j<k. \<not> P ([a..<b] ! j)"
    using assms unfolding find_Some_iff by auto
  show "a \<le> i" "i < b" "P i" using k by auto
  show "\<not> P j" if "a \<le> j" "j < i" for j
    using k(4) [rule_format, of "j - a"] k(1,3) that by auto
qed

lemma swap_alloc_cases [consumes 2, case_names full slot]:
  assumes wf: "swap_wf s" and on: "sw_on s"
  obtains (full) "\<forall>i. \<not> free_slot s i" and "swap_alloc s = (SWAP_NONE, s)"
  | (slot) i where "free_slot s i" and "\<forall>j < i. \<not> free_slot s j"
      and "swap_alloc s = (of_nat i, s\<lparr>sw_refs := (sw_refs s)[i := 1], sw_hint := of_nat i + 1,
                               st_used := st_used s + 1\<rparr>)"
proof (cases "find (\<lambda>i. sw_lba s ! i \<noteq> SLOT_BAD \<and> sw_refs s ! i = 0) [unat (sw_hint s)..<unat (sw_nslots s)]")
  case None
  have "\<not> free_slot s i" for i
  proof (cases "i < unat (sw_hint s)")
    case True
    then show ?thesis by (rule swap_wfD(6) [OF wf on])
  next
    case False
    then show ?thesis using None by (auto simp: find_None_iff free_slot_def usable_def)
  qed
  then show ?thesis using full None on by (simp add: swap_alloc_def)
next
  case (Some i)
  note f = find_upt [OF Some]
  have "\<not> free_slot s j" if "j < i" for j
  proof (cases "j < unat (sw_hint s)")
    case True
    then show ?thesis by (rule swap_wfD(6) [OF wf on])
  next
    case False
    then show ?thesis using f(4) [of j] that by (simp add: free_slot_def usable_def)
  qed
  then show ?thesis using slot [of i] f Some on by (simp add: swap_alloc_def free_slot_def usable_def)
qed

lemma swap_alloc_wf:
  assumes wf: "swap_wf s"
  shows "swap_wf (snd (swap_alloc s))"
proof (cases "sw_on s")
  case True
  show ?thesis
    using wf True
  proof (cases rule: swap_alloc_cases)
    case (slot i)
    note D = swap_wfD [OF wf True]
    have i: "i < unat (sw_nslots s)" "usable s i" "sw_refs s ! i = 0"
      using slot(1) by (auto simp: free_slot_def usable_def)
    have h: "unat (of_nat i + 1 :: u32) = Suc i"
      using unat_of_nat_u32 [of "Suc i"] i(1) D(1) by (simp add: add.commute)
    let ?U = "{j. j < unat (sw_nslots s) \<and> sw_refs s ! j \<noteq> 0}"
    have "?U \<subset> {..<unat (sw_nslots s)}" using i by auto
    then have "card ?U < unat (sw_nslots s)" using psubset_card_mono [of "{..<unat (sw_nslots s)}" ?U] by simp
    then have "unat (st_used s + 1) = Suc (card ?U)" using D(1,8) by (simp add: unat_word_ariths)
    then have u: "unat (st_used s + 1) = card (insert i ?U)" using i(3) by simp
    show ?thesis
      unfolding slot(3) swap_wf_def
      using D i h u slot(2) used_set_update [OF i(1) D(3), of 1]
      by (auto simp: free_slot_def usable_def nth_list_update less_Suc_eq)
  qed (simp add: wf)
qed (simp add: swap_alloc_def wf)

lemma swap_ref_wf:
  assumes wf: "swap_wf s"
  shows "swap_wf (snd (swap_ref slot s))"
proof (cases "\<not> sw_on s \<or> sw_nslots s \<le> slot \<or> sw_refs s ! unat slot = 0 \<or> sw_refs s ! unat slot = 0xff")
  case False
  then have on: "sw_on s" and i: "unat slot < unat (sw_nslots s)" "sw_refs s ! unat slot \<noteq> 0"
    by (auto simp: word_le_nat_alt not_le)
  have n: "sw_refs s ! unat slot + 1 \<noteq> 0"
  proof -
    have "unat (sw_refs s ! unat slot) \<noteq> 255" using False by (simp add: word_unat_eq_iff)
    then have "Suc (unat (sw_refs s ! unat slot)) < 256" using unat_u8_less [of "sw_refs s ! unat slot"] by linarith
    then show ?thesis by (simp add: word_unat_eq_iff unat_word_ariths)
  qed
  note D = swap_wfD [OF wf on]
  show ?thesis
    using False D i n used_set_update [OF i(1) D(3), of "sw_refs s ! unat slot + 1"]
    by (auto simp: swap_ref_def swap_wf_def free_slot_def usable_def nth_list_update insert_absorb)
qed (auto simp: swap_ref_def wf)

lemma swap_free_wf:
  assumes wf: "swap_wf s"
  shows "swap_wf (swap_free slot s)"
proof (cases "\<not> sw_on s \<or> sw_nslots s \<le> slot \<or> sw_refs s ! unat slot = 0")
  case False
  then have on: "sw_on s" and i: "unat slot < unat (sw_nslots s)" "sw_refs s ! unat slot \<noteq> 0"
    by (auto simp: word_le_nat_alt not_le)
  note D = swap_wfD [OF wf on]
  let ?U = "{j. j < unat (sw_nslots s) \<and> sw_refs s ! j \<noteq> 0}" and ?r = "sw_refs s ! unat slot - 1"
  note set = used_set_update [OF i(1) D(3), of ?r]
  show ?thesis
  proof (cases "?r = 0")
    case True
    have "unat slot \<in> ?U" using i by simp
    then have "0 < card ?U" by (auto simp: card_gt_0_iff)
    then have "unat (st_used s - 1) = card (?U - {unat slot})"
      using D(8) \<open>unat slot \<in> ?U\<close> by (simp add: unat_minus_one unat_gt_0 [symmetric])
    then show ?thesis
      using False True D i set
      by (auto simp: swap_free_def Let_def swap_wf_def free_slot_def usable_def nth_list_update word_less_nat_alt)
  next
    case False
    then show ?thesis
      using \<open>\<not> (\<not> sw_on s \<or> _)\<close> D i set
      by (auto simp: swap_free_def Let_def swap_wf_def free_slot_def usable_def nth_list_update insert_absorb)
  qed
qed (auto simp: swap_free_def wf)

text \<open>\<^verbatim>\<open>vfs_bmap\<close> gives different sectors to different sectors of the file.\<close>

definition bmap_inj :: "(u32 \<Rightarrow> u32 option) \<Rightarrow> bool" where
  "bmap_inj bmap \<longleftrightarrow> (\<forall>a b x. bmap (a * 512) = Some x \<and> bmap (b * 512) = Some x \<longrightarrow> a * 512 = b * 512)"

lemma scan_slot_sectors:
  assumes "scan_slot bmap i = Some lba" and "x \<in> sectors lba"
  obtains k where "k < 8" and "bmap (i * PAGE_SIZE + of_nat k * 512) = Some x"
proof -
  obtain k where k: "k < 8" "x = lba + of_nat k"
    using assms(2) by (auto simp: sectors_def SECTORS_PER_PAGE_def)
  have "bmap (i * PAGE_SIZE + of_nat k * 512) = Some (lba + of_nat k)"
    using assms(1) k(1) by (cases "k = 0")
      (auto simp: scan_slot_def slot_run_def SECTORS_PER_PAGE_def list_all_iff split: option.splits if_splits)
  then show ?thesis using that k by blast
qed

lemma slot_offset_inj:
  assumes "i < 1048576" and "j < 1048576" and "k < 8" and "l < 8"
    and "of_nat i * PAGE_SIZE + of_nat k * 512 = (of_nat j * PAGE_SIZE + of_nat l * 512 :: u32)"
  shows "i = j"
proof -
  have "of_nat (i * 4096 + k * 512) = (of_nat (j * 4096 + l * 512) :: u32)"
    using assms(5) by (simp add: PAGE_SIZE_def)
  then have "i * 4096 + k * 512 = j * 4096 + l * 512" using assms(1-4) by (subst (asm) of_nat_eq_u32) auto
  then show ?thesis using assms(3,4) by linarith
qed

lemma swap_on_wf:
  assumes wf: "swap_wf s" and inj: "bmap_inj bmap" and so: "swap_on oe fa bmap dv s = (r, s')"
  shows "swap_wf s'"
proof (cases "sw_on s \<or> (\<exists>err. r = Inl err)")
  case True
  then have "sw_on s \<and> s' = s \<or> \<not> sw_on s'"
    using so by (auto simp: swap_on_def Let_def split: if_splits option.splits sum.splits prod.splits)
  then show ?thesis using wf by (auto simp: swap_wf_def)
next
  case False
  then obtain slots where f: "slots \<le> 0xfffff"
    and s': "sw_nslots s' = slots" "sw_hint s' = 0" "st_used s' = 0"
      "sw_lba s' = map (\<lambda>r. case r of None \<Rightarrow> SLOT_BAD | Some x \<Rightarrow> x) (map (scan_slot bmap) (u32_upto (slots)))"
      "sw_refs s' = replicate (unat (slots)) 0" "sw_busy s' = replicate (unat (slots)) False"
    using so by (auto simp: swap_on_def Let_def not_less split: if_splits option.splits sum.splits prod.splits)
  define n where "n = unat (slots)"
  have n: "n \<le> 0xfffff" using f by (simp add: n_def word_le_nat_alt)
  have nth: "sw_lba s' ! i = (case scan_slot bmap (of_nat i) of None \<Rightarrow> SLOT_BAD | Some x \<Rightarrow> x)" if "i < n" for i
    using that s'(4) by (simp add: u32_upto_def n_def)
  have dis: "sectors (sw_lba s' ! i) \<inter> sectors (sw_lba s' ! j) = {}"
    if u: "usable s' i" "usable s' j" "i \<noteq> j" for i j
  proof (rule ccontr)
    assume "sectors (sw_lba s' ! i) \<inter> sectors (sw_lba s' ! j) \<noteq> {}"
    then obtain x where x: "x \<in> sectors (sw_lba s' ! i)" "x \<in> sectors (sw_lba s' ! j)" by blast
    have ij: "i < n" "j < n" using u s'(1) by (auto simp: usable_def n_def)
    obtain a b where "scan_slot bmap (of_nat i) = Some a" "scan_slot bmap (of_nat j) = Some b"
      "sw_lba s' ! i = a" "sw_lba s' ! j = b"
      using u nth [OF ij(1)] nth [OF ij(2)] by (auto simp: usable_def split: option.splits)
    then obtain k l where "k < 8" "l < 8" "bmap (of_nat i * PAGE_SIZE + of_nat k * 512) = Some x"
      "bmap (of_nat j * PAGE_SIZE + of_nat l * 512) = Some x"
      using x by (metis scan_slot_sectors)
    moreover have off: "of_nat a * PAGE_SIZE + of_nat b * 512 = (of_nat (a * 8 + b) * 512 :: u32)" for a b
      by (simp add: PAGE_SIZE_def)
    ultimately have "of_nat (i * 8 + k) * 512 = (of_nat (j * 8 + l) * 512 :: u32)"
      using inj unfolding bmap_inj_def by metis
    then show False using slot_offset_inj [of i j k l, unfolded off] \<open>k < 8\<close> \<open>l < 8\<close> ij n u(3) by simp
  qed
  show ?thesis
    unfolding swap_wf_def using s' n dis by (auto simp: n_def u32_upto_def)
qed

text \<open>The swap file in use: every operation, in any order.\<close>

inductive swap_step :: "swap \<Rightarrow> swap \<Rightarrow> bool" where
  turn_on: "bmap_inj bmap \<Longrightarrow> swap_on oe fa bmap dv s = (r, s') \<Longrightarrow> swap_step s s'"
| turn_off: "swap_step s (swap_release s)"
| alloc: "swap_step s (snd (swap_alloc s))"
| hold: "swap_step s (snd (swap_ref slot s))"
| drop: "swap_step s (swap_free slot s)"
| busy: "swap_step s (swap_set_busy slot b s)"
| wait: "swap_step s (snd (swap_wait_idle slot c s))"
| out: "swap_step s (fst (snd (swap_write slot page io_ok s d)))"
| in': "swap_step s (snd (swap_read slot io_ok s d))"

lemma swap_step_wf:
  assumes "swap_step s s'" and "swap_wf s"
  shows "swap_wf s'"
  using assms
proof (induction rule: swap_step.induct)
  case (turn_on bmap oe fa dv s r s')
  then show ?case using swap_on_wf by blast
next
  case (turn_off s)
  then show ?case by (cases "sw_on s") (simp_all add: swap_release_def swap_wf_def)
next
  case (busy s slot b)
  then show ?case by (rule swap_wf_cong) (simp_all add: swap_set_busy_def Let_def)
next
  case (wait s slot c)
  then show ?case by (rule swap_wf_cong) (simp_all add: swap_wait_idle_def)
next
  case (out s slot page io_ok d)
  then show ?case by (rule swap_wf_cong) (simp_all add: swap_write_def Let_def)
next
  case (in' s slot io_ok d)
  then show ?case by (rule swap_wf_cong) (simp_all add: swap_read_def Let_def)
qed (simp_all add: swap_alloc_wf swap_ref_wf swap_free_wf)

lemma swap_steps_wf:
  assumes "swap_step\<^sup>*\<^sup>* s0 s" and "\<not> sw_on s0"
  shows "swap_wf s"
  using assms(1)
proof (induction rule: rtranclp_induct)
  case base
  then show ?case using assms(2) by (simp add: swap_wf_def)
qed (rule swap_step_wf)

lemma take_drop_concat:
  assumes "length page = 4096"
  shows "concat (map (\<lambda>k. take 512 (drop (512 * k) page)) [0..<8]) = page"
proof -
  have "concat (map (\<lambda>k. take 512 (drop (512 * k) page)) [0..<n]) = take (512 * n) page" for n
    by (induction n) (simp_all add: take_add [symmetric] ac_simps)
  then show ?thesis using assms by (simp add: take_all)
qed

lemma disk_read_write: "length page = 4096 \<Longrightarrow> disk_read lba (disk_write lba page d) = page"
proof -
  assume len: "length page = 4096"
  have "map (\<lambda>k. disk_write lba page d (lba + of_nat k)) [0..<8] = map (\<lambda>k. take 512 (drop (512 * k) page)) [0..<8]"
    by (intro map_cong) (auto simp: disk_write_def SECTORS_PER_PAGE_def)
  then show "disk_read lba (disk_write lba page d) = page"
    using take_drop_concat [OF len] by (simp only: disk_read_def SECTORS_PER_PAGE_def)
qed

lemma disk_read_other:
  assumes "sectors lba \<inter> sectors lba' = {}"
  shows "disk_read lba' (disk_write lba page d) = disk_read lba' d"
proof -
  have "disk_write lba page d (lba' + of_nat k) = d (lba' + of_nat k)" if "k < SECTORS_PER_PAGE" for k
  proof -
    have "lba' + of_nat k \<notin> sectors lba" using assms that by (auto simp: sectors_def)
    moreover have "unat (x - lba) < SECTORS_PER_PAGE \<Longrightarrow> x \<in> sectors lba" for x
      by (auto simp: sectors_def intro!: exI [of _ "unat (x - lba)"])
    ultimately show ?thesis by (auto simp: disk_write_def)
  qed
  then have "map (\<lambda>k. disk_write lba page d (lba' + of_nat k)) [0..<SECTORS_PER_PAGE] =
      map (\<lambda>k. d (lba' + of_nat k)) [0..<SECTORS_PER_PAGE]" by (intro map_cong) auto
  then show ?thesis by (simp only: disk_read_def)
qed

text \<open>A swap file of two pages whose sectors follow one another on the disk.\<close>

definition demo_swap0 :: swap where
  "demo_swap0 = \<lparr>sw_on = False, sw_ino = 0, sw_nslots = 0, sw_lba = [], sw_refs = [], sw_busy = [],
     sw_table_pages = 0, sw_table_pa = 0, sw_hint = 0, st_slots = 0, st_used = 0, st_pageouts = 0,
     st_pageins = 0, busy_wait = [], swpool = demo_pool, swenv = \<lparr>made_ready = [], poll_wait = [], signals = []\<rparr>\<rparr>"

definition demo_bmap :: "u32 \<Rightarrow> u32 option" where
  "demo_bmap = map_of (map (\<lambda>k. (of_nat k * 512, of_nat k + 100)) [0..<16])"

definition demo_swap :: swap where
  "demo_swap = snd (swap_on None (Inr \<lparr>f_regular = True, f_size = 8192, f_key = 5\<rparr>) demo_bmap True demo_swap0)"

lemma demo_swap_facts:
  "swap_step\<^sup>*\<^sup>* demo_swap0 demo_swap" "\<not> sw_on demo_swap0" "sw_on demo_swap" "sw_nslots demo_swap = 2"
  "sw_lba demo_swap = [100, 108]" "sw_refs demo_swap = [0, 0]" "sw_hint demo_swap = 0"
proof -
  have inj: "bmap_inj demo_bmap"
    unfolding bmap_inj_def demo_bmap_def by (auto dest!: map_of_SomeD)
  have scan: "map (scan_slot demo_bmap) (u32_upto 2) = [Some 100, Some 108]" by code_simp
  have ar: "(8192 :: u32) div PAGE_SIZE = 2" "(2 * (4 + 2 * 1) + PAGE_SIZE - 1) div PAGE_SIZE = (1 :: u32)"
    "replicate (unat (2 :: u32)) (0 :: u8) = [0, 0]" "replicate (unat (2 :: u32)) False = [False, False]"
    by code_simp+
  obtain p where al: "pmm_alloc demo_pool = (0x2000, p)"
    using pmm_alloc_spec [OF demo_pool_facts(1), of 1] demo_pool_facts by (auto simp: page_pa_def PAGE_SIZE_def)
  have on: "swap_on None (Inr \<lparr>f_regular = True, f_size = 8192, f_key = 5\<rparr>) demo_bmap True demo_swap0 =
      (Inr 2, demo_swap0\<lparr>sw_lba := [100, 108], sw_refs := [0, 0], sw_busy := [False, False], swpool := p,
        sw_ino := 5, sw_nslots := 2, sw_table_pages := 1, sw_table_pa := 0x2000, sw_hint := 0, st_slots := 2,
        st_used := 0, st_pageouts := 0, st_pageins := 0, sw_on := True\<rparr>)"
    unfolding swap_on_def demo_swap0_def
    using scan al ar by (simp add: pmm_alloc_pages_def Let_def del: map_map)
  then have eq: "demo_swap = demo_swap0\<lparr>sw_lba := [100, 108], sw_refs := [0, 0], sw_busy := [False, False], swpool := p,
        sw_ino := 5, sw_nslots := 2, sw_table_pages := 1, sw_table_pa := 0x2000, sw_hint := 0, st_slots := 2,
        st_used := 0, st_pageouts := 0, st_pageins := 0, sw_on := True\<rparr>"
    by (simp add: demo_swap_def)
  have "swap_step demo_swap0 demo_swap"
    unfolding demo_swap_def by (rule swap_step.turn_on [OF inj surjective_pairing])
  then show "swap_step\<^sup>*\<^sup>* demo_swap0 demo_swap" by simp
  show "\<not> sw_on demo_swap0" by (simp add: demo_swap0_def)
  show "sw_on demo_swap" "sw_nslots demo_swap = 2" "sw_lba demo_swap = [100, 108]" "sw_refs demo_swap = [0, 0]"
    "sw_hint demo_swap = 0" by (simp_all add: eq)
qed

section \<open>Properties\<close>

text \<open>C25: first fit.  Whatever has been done with the swap file, \<open>swap_alloc\<close> gives out the
  lowest usable slot that nobody holds, although it starts looking at the hint, counts it as held
  once and leaves every other slot alone; it returns \<^verbatim>\<open>SWAP_NONE\<close>, changing nothing, exactly when
  there is no such slot, and the count of used slots stays the number of slots held.\<close>

theorem swap_alloc_first_fit:
  assumes "swap_step\<^sup>*\<^sup>* s0 s" and "\<not> sw_on s0" and "sw_on s" and "swap_alloc s = (slot, s')"
  shows "(if \<exists>i. free_slot s i
     then \<exists>i. free_slot s i \<and> \<not> (\<exists>j. j < i \<and> free_slot s j) \<and> slot = of_nat i \<and>
            sw_refs s' = (sw_refs s)[i := 1]
     else slot = SWAP_NONE \<and> s' = s) \<and>
    unat (st_used s') = card {i. i < unat (sw_nslots s') \<and> sw_refs s' ! i \<noteq> 0}"
proof -
  note wf = swap_steps_wf [OF assms(1,2)]
  have "swap_wf s'" "sw_on s'"
    using swap_alloc_wf [OF wf] assms(3,4) by (auto simp: swap_alloc_def split: option.splits)
  note used = swap_wfD(8) [OF this]
  show ?thesis
    using wf assms(3)
  proof (cases rule: swap_alloc_cases)
    case full
    then show ?thesis using assms(4) used by simp
  next
    case (slot i)
    then show ?thesis using assms(4) used by auto
  qed
qed

theorem swap_alloc_first_fit_witness:
  "swap_step\<^sup>*\<^sup>* demo_swap0 demo_swap \<and> sw_on demo_swap \<and> fst (swap_alloc demo_swap) = 0"
proof -
  note d = demo_swap_facts
  have free: "free_slot demo_swap 0" by (simp add: free_slot_def usable_def d SLOT_BAD_def)
  have "(if \<exists>i. free_slot demo_swap i
     then \<exists>i. free_slot demo_swap i \<and> \<not> (\<exists>j. j < i \<and> free_slot demo_swap j) \<and>
            fst (swap_alloc demo_swap) = of_nat i \<and> sw_refs (snd (swap_alloc demo_swap)) = (sw_refs demo_swap)[i := 1]
     else fst (swap_alloc demo_swap) = SWAP_NONE \<and> snd (swap_alloc demo_swap) = demo_swap)"
    using swap_alloc_first_fit [OF d(1-3) surjective_pairing] by (rule conjunct1)
  then obtain i where "\<not> (\<exists>j. j < i \<and> free_slot demo_swap j)" "fst (swap_alloc demo_swap) = of_nat i"
    using free by (auto split: if_splits)
  then show ?thesis using free d by (cases i) auto
qed

text \<open>C26: what was written to a slot is read back, and no write to another slot changes it, on
  any volume where different sectors of the swap file are different sectors of the disk.\<close>

theorem swap_roundtrip:
  assumes "swap_step\<^sup>*\<^sup>* s0 s" and "\<not> sw_on s0" and "length page = 4096"
    and "swap_write slot page True s d = (Inr (), s1, d1)"
  shows "fst (swap_read slot True s1 d1) = Inr page \<and>
    (slot' = slot \<or> fst (swap_read slot' True s1 d1) = fst (swap_read slot' True s d))"
proof -
  have w: "sw_on s" "slot < sw_nslots s" "sw_lba s ! unat slot \<noteq> SLOT_BAD"
    "d1 = disk_write (sw_lba s ! unat slot) page d" "s1 = s\<lparr>st_pageouts := st_pageouts s + 1\<rparr>"
    using assms(4) by (auto simp: swap_write_def Let_def not_le split: if_splits)
  note wf = swap_steps_wf [OF assms(1,2)]
  have "fst (swap_read slot' True s1 d1) = fst (swap_read slot' True s d)" if "slot' \<noteq> slot"
  proof (cases "slot' < sw_nslots s \<and> sw_lba s ! unat slot' \<noteq> SLOT_BAD")
    case True
    then have "sectors (sw_lba s ! unat slot) \<inter> sectors (sw_lba s ! unat slot') = {}"
      using w that by (intro swap_wfD(9) [OF wf w(1)]) (auto simp: usable_def word_less_nat_alt word_unat_eq_iff)
    then show ?thesis using w True by (simp add: swap_read_def disk_read_other)
  qed (use w in \<open>auto simp: swap_read_def\<close>)
  moreover have "fst (swap_read slot True s1 d1) = Inr page"
    using w disk_read_write [OF assms(3)] by (simp add: swap_read_def Let_def not_le)
  ultimately show ?thesis by blast
qed

theorem swap_roundtrip_witness:
  "\<exists>s1 d1. swap_write 1 (replicate 4096 7) True demo_swap (\<lambda>_. []) = (Inr (), s1, d1) \<and>
     fst (swap_read 1 True s1 d1) = Inr (replicate 4096 7)"
proof -
  note d = demo_swap_facts
  have "\<not> (2 :: u32) \<le> 1" by code_simp
  then obtain s1 d1 where w: "swap_write 1 (replicate 4096 7) True demo_swap (\<lambda>_. []) = (Inr (), s1, d1)"
    using that by (simp add: swap_write_def Let_def d SLOT_BAD_def)
  have "fst (swap_read 1 True s1 d1) = Inr (replicate 4096 7)"
    using swap_roundtrip [OF d(1,2) _ w, of 0] by simp
  then show ?thesis using w by blast
qed

end
