(* ===== verification/Futex.thy ===== *)
theory Futex
  imports Waitq
begin

text \<open>
  \<^verbatim>\<open>kernel/futex.c\<close>: waiting on a word of user memory.  The futexes in use share a table of
  \<^verbatim>\<open>FUTEX_BUCKETS\<close> entries, an entry being free when nobody is inside \<^verbatim>\<open>futex_wait\<close> with it; a
  pointer to an entry is its index and an address space a number, 0 for none.

  \<open>um\<close> is the caller's memory: the word at an address, or a fault.  \<^verbatim>\<open>futex_wait\<close> is split where
  it sleeps into \<open>futex_wait_enter\<close> and \<open>futex_wait_leave\<close>.

  The abstraction is one first-in first-out queue of sleeping tasks for every address of every
  address space, without a limit; the table implements it as long as it has a free entry.
\<close>

section \<open>Definitions\<close>

definition FUTEX_BUCKETS :: nat where "FUTEX_BUCKETS = 32"

record futex_bucket =
  b_as :: nat
  b_uaddr :: u32
  b_waiters :: int
  b_q :: "nat list"

record futexes =
  buckets :: "futex_bucket list"
  fenv :: env

definition futex_find :: "nat \<Rightarrow> u32 \<Rightarrow> futexes \<Rightarrow> nat option" where
  "futex_find as uaddr s = first_idx (\<lambda>b. 0 < b_waiters b \<and> b_as b = as \<and> b_uaddr b = uaddr) (buckets s)"

definition find_or_make :: "nat \<Rightarrow> u32 \<Rightarrow> futexes \<Rightarrow> nat option \<times> futexes" where
  "find_or_make as uaddr s =
     (case futex_find as uaddr s of
        Some i \<Rightarrow> (Some i, s)
      | None \<Rightarrow>
          case first_idx (\<lambda>b. b_waiters b = 0) (buckets s) of
            Some i \<Rightarrow> (Some i, s\<lparr>buckets := (buckets s)[i := (buckets s ! i)\<lparr>b_as := as, b_uaddr := uaddr, b_q := []\<rparr>]\<rparr>)
          | None \<Rightarrow> (None, s))"

text \<open>\<^verbatim>\<open>while (woken < n && b->q.head) wake_one(&b->q);\<close> from a queue: how many, what is left of the
  queue, and the environment.\<close>

fun wake_loop :: "nat \<Rightarrow> nat list \<Rightarrow> env \<Rightarrow> nat \<times> nat list \<times> env" where
  "wake_loop 0 q e = (0, q, e)"
| "wake_loop (Suc n) [] e = (0, [], e)"
| "wake_loop (Suc n) (t # q) e =
     (case wake_loop n q (wake_list [t] e) of (k, q', e') \<Rightarrow> (Suc k, q', e'))"

definition futex_wake_at :: "nat \<Rightarrow> u32 \<Rightarrow> int \<Rightarrow> futexes \<Rightarrow> int \<times> futexes" where
  "futex_wake_at as uaddr n s =
     (case futex_find as uaddr s of
        None \<Rightarrow> (0, s)
      | Some i \<Rightarrow>
          case wake_loop (nat n) (b_q (buckets s ! i)) (fenv s) of
            (k, q', e') \<Rightarrow> (int k, s\<lparr>buckets := (buckets s)[i := (buckets s ! i)\<lparr>b_q := q'\<rparr>], fenv := e'\<rparr>))"

definition read_word :: "(u32 \<Rightarrow> u32 option) \<Rightarrow> u32 \<Rightarrow> errno + u32" where
  "read_word um uaddr =
     (if uaddr AND 3 \<noteq> 0 then Inl EINVAL
      else case um uaddr of None \<Rightarrow> Inl EFAULT | Some w \<Rightarrow> Inr w)"

text \<open>The timeout: none, a fault, or seconds and nanoseconds.\<close>

datatype ftime = NoTimeout | TimeoutFault | Timeout u32 u32

definition read_timeout :: "ftime \<Rightarrow> errno + u32" where
  "read_timeout t =
     (case t of
        NoTimeout \<Rightarrow> Inr 0
      | TimeoutFault \<Rightarrow> Inl EFAULT
      | Timeout sec nsec \<Rightarrow>
          if 1000000000 \<le> nsec then Inl EINVAL
          else
            let ms = sec * 1000 + (nsec + 999999) div 1000000
            in Inr (if ms = 0 then 1 else ms))"

datatype fwait = FRet "errno + int" | FSleep nat u32

definition futex_wait_enter ::
    "nat \<Rightarrow> (u32 \<Rightarrow> u32 option) \<Rightarrow> u32 \<Rightarrow> u32 \<Rightarrow> ftime \<Rightarrow> bool \<Rightarrow> nat \<Rightarrow> futexes \<Rightarrow> fwait \<times> futexes" where
  "futex_wait_enter as um uaddr val t sig c s =
     (if as = 0 then (FRet (Inl EFAULT), s)
      else
        case read_timeout t of
          Inl err \<Rightarrow> (FRet (Inl err), s)
        | Inr ms \<Rightarrow>
            case read_word um uaddr of
              Inl err \<Rightarrow> (FRet (Inl err), s)
            | Inr now \<Rightarrow>
                if now \<noteq> val then (FRet (Inl EAGAIN), s)
                else if sig then (FRet (Inl EINTR), s)
                else
                  case find_or_make as uaddr s of
                    (None, s1) \<Rightarrow> (FRet (Inl ENOMEM), s1)
                  | (Some i, s1) \<Rightarrow>
                      let b = buckets s1 ! i
                      in (FSleep i ms,
                          s1\<lparr>buckets := (buckets s1)[i := b\<lparr>b_waiters := b_waiters b + 1, b_q := b_q b @ [c]\<rparr>]\<rparr>))"

text \<open>Running again: a task still queued takes itself off the queue, and if it slept with a timeout
  that means the timeout ended the sleep.\<close>

definition futex_wait_leave :: "nat \<Rightarrow> u32 \<Rightarrow> bool \<Rightarrow> nat \<Rightarrow> futexes \<Rightarrow> (errno + int) \<times> futexes" where
  "futex_wait_leave i ms sig c s =
     (let b = buckets s ! i;
          woken = (c \<notin> set (b_q b));
          s1 = s\<lparr>buckets := (buckets s)[i := b\<lparr>b_waiters := b_waiters b - 1, b_q := removeAll c (b_q b)\<rparr>]\<rparr>
      in if ms \<noteq> 0 \<and> \<not> woken then (Inl ETIMEDOUT, s1)
         else if sig then (Inl EINTR, s1)
         else (Inr 0, s1))"

text \<open>\<^verbatim>\<open>futex_call\<close>: the operations numbered as in \<^verbatim>\<open>uapi.h\<close>.  \<open>ok\<close> is what \<^verbatim>\<open>uaccess_check\<close> says
  of the address.\<close>

definition futex_call ::
    "nat \<Rightarrow> (u32 \<Rightarrow> u32 option) \<Rightarrow> bool \<Rightarrow> u32 \<Rightarrow> u32 \<Rightarrow> u32 \<Rightarrow> ftime \<Rightarrow> u32 \<Rightarrow> bool \<Rightarrow> nat \<Rightarrow> futexes \<Rightarrow> fwait \<times> futexes" where
  "futex_call as um ok uaddr fop val t val3 sig c s =
     (let cmd = fop AND NOT (128 OR 256);
          wake = (\<lambda>n. case futex_wake_at as uaddr n s of (k, s') \<Rightarrow> (FRet (Inr k), s'))
      in if as = 0 then (FRet (Inl EFAULT), s)
         else if cmd = 0 then futex_wait_enter as um uaddr val t sig c s
         else if cmd = 9 then
           if t \<noteq> NoTimeout then (FRet (Inl ENOSYS), s)
           else futex_wait_enter as um uaddr val NoTimeout sig c s
         else if cmd = 1 \<or> cmd = 10 then
           if uaddr AND 3 \<noteq> 0 then (FRet (Inl EINVAL), s)
           else if \<not> ok then (FRet (Inl EFAULT), s)
           else wake (if 0 < sint val then sint val else 0)
         else if cmd = 3 \<or> cmd = 4 then
           if cmd = 4 then
             case read_word um uaddr of
               Inl err \<Rightarrow> (FRet (Inl err), s)
             | Inr word \<Rightarrow> if word \<noteq> val3 then (FRet (Inl EAGAIN), s) else wake 0x7fffffff
           else wake 0x7fffffff
         else (FRet (Inl ENOSYS), s))"

text \<open>\<^verbatim>\<open>wake_signalled\<close> on a task asleep in entry \<open>i\<close>: it comes off the queue and will run.\<close>

definition futex_signalled :: "nat \<Rightarrow> nat \<Rightarrow> futexes \<Rightarrow> futexes" where
  "futex_signalled i c s =
     s\<lparr>buckets := (buckets s)[i := (buckets s ! i)\<lparr>b_q := removeAll c (b_q (buckets s ! i))\<rparr>]\<rparr>"

section \<open>Invariant and abstraction\<close>

text \<open>\<open>I t = Some i\<close>: task \<open>t\<close> is inside \<^verbatim>\<open>futex_wait\<close> with entry \<open>i\<close>, asleep or about to leave.\<close>

type_synonym fcfg = "futexes \<times> (nat \<rightharpoonup> nat)"

definition fut_inv :: "fcfg \<Rightarrow> bool" where
  "fut_inv c \<longleftrightarrow> (case c of (s, I) \<Rightarrow>
     finite (dom I) \<and> (\<forall>t i. I t = Some i \<longrightarrow> i < length (buckets s)) \<and>
     (\<forall>i < length (buckets s). b_waiters (buckets s ! i) = int (card {t. I t = Some i}) \<and>
        set (b_q (buckets s ! i)) \<subseteq> {t. I t = Some i} \<and> distinct (b_q (buckets s ! i))) \<and>
     (\<forall>i < length (buckets s). \<forall>j < length (buckets s).
        0 < b_waiters (buckets s ! i) \<and> 0 < b_waiters (buckets s ! j) \<and>
        b_as (buckets s ! i) = b_as (buckets s ! j) \<and> b_uaddr (buckets s ! i) = b_uaddr (buckets s ! j) \<longrightarrow> i = j))"

definition futex_q :: "futexes \<Rightarrow> nat \<times> u32 \<Rightarrow> nat list" where
  "futex_q s k = (case futex_find (fst k) (snd k) s of None \<Rightarrow> [] | Some i \<Rightarrow> b_q (buckets s ! i))"

inductive fut_step :: "fcfg \<Rightarrow> fcfg \<Rightarrow> bool" where
  enter: "I c = None \<Longrightarrow> futex_wait_enter as um uaddr val t sig c s = (FSleep i ms, s') \<Longrightarrow>
     fut_step (s, I) (s', I(c \<mapsto> i))"
| wake: "futex_wake_at as uaddr n s = (k, s') \<Longrightarrow> fut_step (s, I) (s', I)"
| signal: "I c = Some i \<Longrightarrow> fut_step (s, I) (futex_signalled i c s, I)"
| leave: "I c = Some i \<Longrightarrow> futex_wait_leave i ms sig c s = (r, s') \<Longrightarrow> fut_step (s, I) (s', I(c := None))"

lemma fut_invD:
  assumes "fut_inv (s, I)"
  shows "finite (dom I)" "I t = Some i \<Longrightarrow> i < length (buckets s)"
    "i < length (buckets s) \<Longrightarrow> b_waiters (buckets s ! i) = int (card {t. I t = Some i})"
    "i < length (buckets s) \<Longrightarrow> set (b_q (buckets s ! i)) \<subseteq> {t. I t = Some i}"
    "i < length (buckets s) \<Longrightarrow> distinct (b_q (buckets s ! i))"
    "i < length (buckets s) \<Longrightarrow> j < length (buckets s) \<Longrightarrow> 0 < b_waiters (buckets s ! i) \<Longrightarrow>
       0 < b_waiters (buckets s ! j) \<Longrightarrow> b_as (buckets s ! i) = b_as (buckets s ! j) \<Longrightarrow>
       b_uaddr (buckets s ! i) = b_uaddr (buckets s ! j) \<Longrightarrow> i = j"
  using assms unfolding fut_inv_def by auto

lemma inside_finite: "finite (dom I) \<Longrightarrow> finite {t. I t = Some i}"
  by (rule finite_subset [of _ "dom I"]) auto

lemma waiters_pos:
  assumes "fut_inv (s, I)" and "i < length (buckets s)"
  shows "0 < b_waiters (buckets s ! i) \<longleftrightarrow> {t. I t = Some i} \<noteq> {}"
  using fut_invD(3) [OF assms] inside_finite [OF fut_invD(1) [OF assms(1)], of i] by (simp add: card_gt_0_iff)

text \<open>The entry of a key: any live entry with the key is the one \<open>futex_find\<close> returns.\<close>

definition live_at :: "futexes \<Rightarrow> nat \<times> u32 \<Rightarrow> nat \<Rightarrow> bool" where
  "live_at s k i \<longleftrightarrow> i < length (buckets s) \<and> 0 < b_waiters (buckets s ! i) \<and>
     b_as (buckets s ! i) = fst k \<and> b_uaddr (buckets s ! i) = snd k"

lemma futex_find_iff:
  assumes "fut_inv (s, I)"
  shows "futex_find (fst k) (snd k) s = Some i \<longleftrightarrow> live_at s k i"
    and "futex_find (fst k) (snd k) s = None \<longleftrightarrow> \<not> (\<exists>i. live_at s k i)"
proof -
  show N: "futex_find (fst k) (snd k) s = None \<longleftrightarrow> \<not> (\<exists>i. live_at s k i)"
    unfolding futex_find_def first_idx_None live_at_def by (metis in_set_conv_nth)
  show "futex_find (fst k) (snd k) s = Some i \<longleftrightarrow> live_at s k i"
  proof
    assume "futex_find (fst k) (snd k) s = Some i"
    then show "live_at s k i"
      unfolding futex_find_def live_at_def using first_idx_SomeD(1,2) by fastforce
  next
    assume l: "live_at s k i"
    then obtain j where j: "futex_find (fst k) (snd k) s = Some j" using N by fastforce
    then have "live_at s k j"
      unfolding futex_find_def live_at_def using first_idx_SomeD(1,2) by fastforce
    then have "j = i" using l fut_invD(6) [OF assms, of j i] by (simp add: live_at_def)
    then show "futex_find (fst k) (snd k) s = Some i" using j by simp
  qed
qed

lemma futex_q_live: "fut_inv (s, I) \<Longrightarrow> live_at s k i \<Longrightarrow> futex_q s k = b_q (buckets s ! i)"
  using futex_find_iff(1) [of s I k i] by (simp add: futex_q_def)

lemma futex_q_none: "fut_inv (s, I) \<Longrightarrow> \<not> (\<exists>i. live_at s k i) \<Longrightarrow> futex_q s k = []"
  using futex_find_iff(2) [of s I k] by (simp add: futex_q_def)

lemma wake_loop_eq: "wake_loop n q e = (min n (length q), drop n q, wake_list (take n q) e)"
  by (induction n q e rule: wake_loop.induct) (simp_all add: wake_list_def)

text \<open>Taking tasks off the queue of one entry.\<close>

lemma shrink_queue:
  assumes inv: "fut_inv (s, I)" and i: "i < length (buckets s)"
    and q: "set q \<subseteq> set (b_q (buckets s ! i))" "distinct q"
    and s': "buckets s' = (buckets s)[i := (buckets s ! i)\<lparr>b_q := q\<rparr>]"
  shows "fut_inv (s', I)" and "live_at s' k j = live_at s k j"
    and "futex_q s' k = (if live_at s k i then q else futex_q s k)"
proof -
  have b: "b_waiters (buckets s' ! j) = b_waiters (buckets s ! j)" "b_as (buckets s' ! j) = b_as (buckets s ! j)"
    "b_uaddr (buckets s' ! j) = b_uaddr (buckets s ! j)"
    "b_q (buckets s' ! j) = (if j = i then q else b_q (buckets s ! j))" for j
    using s' i by (auto simp: nth_list_update_if)
  have len: "length (buckets s') = length (buckets s)" by (simp add: s')
  show inv': "fut_inv (s', I)"
    using inv q fut_invD(4) [OF inv i] unfolding fut_inv_def prod.case len b by (auto split: if_splits)
  show live: "live_at s' k j = live_at s k j" for k j by (simp add: live_at_def b len)
  show "futex_q s' k = (if live_at s k i then q else futex_q s k)"
  proof (cases "\<exists>j. live_at s k j")
    case True
    then obtain j where j: "live_at s k j" ..
    then have "futex_q s' k = b_q (buckets s' ! j)" "futex_q s k = b_q (buckets s ! j)"
      using futex_q_live [OF inv'] futex_q_live [OF inv] live by auto
    moreover have "live_at s k i \<longleftrightarrow> j = i"
      using j fut_invD(6) [OF inv, of i j] by (auto simp: live_at_def)
    ultimately show ?thesis using b(4) by simp
  next
    case False
    then show ?thesis using futex_q_none [OF inv'] futex_q_none [OF inv] live by simp
  qed
qed

lemma futex_wake_at_spec:
  assumes inv: "fut_inv (s, I)" and w: "futex_wake_at as u n s = (k, s')"
  shows "fut_inv (s', I)" and "k = min (max 0 n) (int (length (futex_q s (as, u))))"
    and "futex_q s' = (futex_q s)((as, u) := drop (nat n) (futex_q s (as, u)))"
    and "made_ready (fenv s') = made_ready (fenv s) @ take (nat n) (futex_q s (as, u))"
proof -
  have "fut_inv (s', I) \<and> k = min (max 0 n) (int (length (futex_q s (as, u)))) \<and>
    futex_q s' = (futex_q s)((as, u) := drop (nat n) (futex_q s (as, u))) \<and>
    made_ready (fenv s') = made_ready (fenv s) @ take (nat n) (futex_q s (as, u))"
  proof (cases "futex_find as u s")
    case None
    then have "futex_q s (as, u) = []" by (simp add: futex_q_def)
    then show ?thesis using None w inv by (auto simp: futex_wake_at_def)
  next
    case (Some i)
    let ?b = "buckets s ! i"
    have live: "live_at s (as, u) i" using futex_find_iff(1) [OF inv, of "(as, u)" i] Some by simp
    then have i: "i < length (buckets s)" and q: "futex_q s (as, u) = b_q ?b"
      using futex_q_live [OF inv] by (auto simp: live_at_def)
    have s': "buckets s' = (buckets s)[i := ?b\<lparr>b_q := drop (nat n) (b_q ?b)\<rparr>]"
      and e: "fenv s' = wake_list (take (nat n) (b_q ?b)) (fenv s)" and k: "k = int (min (nat n) (length (b_q ?b)))"
      using w Some by (auto simp: futex_wake_at_def wake_loop_eq)
    note sh = shrink_queue [OF inv i set_drop_subset distinct_drop [OF fut_invD(5) [OF inv i]] s']
    have "futex_q s' x = ((futex_q s)((as, u) := drop (nat n) (futex_q s (as, u)))) x" for x
    proof (cases "live_at s x i")
      case True
      then have "x = (as, u)" using live by (auto simp: live_at_def prod_eq_iff)
      then show ?thesis using sh(3) True q by simp
    next
      case False
      then show ?thesis using sh(3) live by auto
    qed
    then show ?thesis using sh(1) e k q by (auto simp: wake_list_def min_def max_def)
  qed
  then show "fut_inv (s', I)" "k = min (max 0 n) (int (length (futex_q s (as, u))))"
    "futex_q s' = (futex_q s)((as, u) := drop (nat n) (futex_q s (as, u)))"
    "made_ready (fenv s') = made_ready (fenv s) @ take (nat n) (futex_q s (as, u))" by auto
qed

lemma distinct_removeAll: "distinct xs \<Longrightarrow> distinct (removeAll x xs)"
  by (simp add: removeAll_filter_not_eq)

lemma other_queue:
  assumes inv: "fut_inv (s, I)" and c: "I c = Some i" and "\<not> live_at s k i"
  shows "removeAll c (futex_q s k) = futex_q s k"
proof (cases "\<exists>j. live_at s k j")
  case True
  then obtain j where j: "live_at s k j" ..
  then have "c \<notin> set (futex_q s k)"
    using fut_invD(4) [OF inv, of j] c assms(3) by (auto simp: live_at_def futex_q_live [OF inv j])
  then show ?thesis by simp
qed (simp add: futex_q_none [OF inv])

lemma futex_signalled_spec:
  assumes inv: "fut_inv (s, I)" and c: "I c = Some i"
  shows "fut_inv (futex_signalled i c s, I)" and "futex_q (futex_signalled i c s) k = removeAll c (futex_q s k)"
proof -
  have i: "i < length (buckets s)" using fut_invD(2) [OF inv c] .
  have s': "buckets (futex_signalled i c s) = (buckets s)[i := (buckets s ! i)\<lparr>b_q := removeAll c (b_q (buckets s ! i))\<rparr>]"
    by (simp add: futex_signalled_def)
  note sh = shrink_queue [OF inv i _ distinct_removeAll [OF fut_invD(5) [OF inv i]] s']
  show "fut_inv (futex_signalled i c s, I)" by (rule sh) auto
  have "futex_q (futex_signalled i c s) k = (if live_at s k i then removeAll c (b_q (buckets s ! i)) else futex_q s k)"
    by (rule sh(3)) auto
  then show "futex_q (futex_signalled i c s) k = removeAll c (futex_q s k)"
    using futex_q_live [OF inv, of k i] other_queue [OF inv c, of k] by (cases "live_at s k i") auto
qed

text \<open>A task comes into entry \<open>i\<close>, which is live for its key or free.\<close>

lemma card_inside_add:
  "finite (dom I) \<Longrightarrow> I c = None \<Longrightarrow>
   card {t. (I(c \<mapsto> i)) t = Some j} = card {t. I t = Some j} + (if j = i then 1 else 0)"
proof -
  assume "finite (dom I)" "I c = None"
  then have "{t. (I(c \<mapsto> i)) t = Some j} = (if j = i then insert c {t. I t = Some j} else {t. I t = Some j})"
    by auto
  then show ?thesis using inside_finite [OF \<open>finite (dom I)\<close>] \<open>I c = None\<close> by simp
qed

lemma enter_spec:
  assumes inv: "fut_inv (s, I)" and c: "I c = None" and i: "i < length (buckets s)"
    and key: "live_at s (as, u) i \<or> \<not> (\<exists>j. live_at s (as, u) j) \<and> b_waiters (buckets s ! i) = 0"
    and s': "buckets s' = (buckets s)[i := (buckets s ! i)\<lparr>b_as := as, b_uaddr := u,
      b_waiters := b_waiters (buckets s ! i) + 1, b_q := b_q (buckets s ! i) @ [c]\<rparr>]"
  shows "fut_inv (s', I(c \<mapsto> i))" and "futex_q s' = (futex_q s)((as, u) := futex_q s (as, u) @ [c])"
proof -
  let ?b = "buckets s ! i"
  have len: "length (buckets s') = length (buckets s)" by (simp add: s')
  have b: "b_waiters (buckets s' ! j) = b_waiters (buckets s ! j) + (if j = i then 1 else 0)"
    "b_as (buckets s' ! j) = (if j = i then as else b_as (buckets s ! j))"
    "b_uaddr (buckets s' ! j) = (if j = i then u else b_uaddr (buckets s ! j))"
    "b_q (buckets s' ! j) = b_q (buckets s ! j) @ (if j = i then [c] else [])" for j
    using s' i by (auto simp: nth_list_update_if)
  have nn: "0 \<le> b_waiters (buckets s ! j)" if "j < length (buckets s)" for j
    using fut_invD(3) [OF inv that] by simp
  have live: "live_at s' k j \<longleftrightarrow> (if j = i then k = (as, u) else live_at s k j)" for k j
    using i nn [OF i] by (auto simp: live_at_def b len prod_eq_iff)
  have uniq: "live_at s k a \<Longrightarrow> live_at s k b \<Longrightarrow> a = b" for k a b
    using fut_invD(6) [OF inv, of a b] by (auto simp: live_at_def)
  have only: "live_at s (as, u) a \<Longrightarrow> a = i" for a using key uniq by blast
  have cnq: "c \<notin> set (b_q (buckets s ! j))" if "j < length (buckets s)" for j
    using fut_invD(4) [OF inv that] c by auto
  show inv': "fut_inv (s', I(c \<mapsto> i))"
    unfolding fut_inv_def prod.case
  proof (intro conjI allI impI)
    show "finite (dom (I(c \<mapsto> i)))" using fut_invD(1) [OF inv] by simp
    show "j < length (buckets s')" if "(I(c \<mapsto> i)) t = Some j" for t j
      using that i fut_invD(2) [OF inv] len by (auto split: if_splits)
    fix j
    assume j: "j < length (buckets s')"
    then have j': "j < length (buckets s)" by (simp add: len)
    show "b_waiters (buckets s' ! j) = int (card {t. (I(c \<mapsto> i)) t = Some j})"
      using fut_invD(3) [OF inv j'] by (simp add: b card_inside_add [OF fut_invD(1) [OF inv] c] del: fun_upd_apply)
    show "set (b_q (buckets s' ! j)) \<subseteq> {t. (I(c \<mapsto> i)) t = Some j}"
      using fut_invD(4) [OF inv j'] c by (auto simp: b)
    show "distinct (b_q (buckets s' ! j))" using fut_invD(5) [OF inv j'] cnq [OF j'] by (cases "j = i") (simp_all add: b)
    show "j = l" if "l < length (buckets s')" "0 < b_waiters (buckets s' ! j) \<and> 0 < b_waiters (buckets s' ! l) \<and>
        b_as (buckets s' ! j) = b_as (buckets s' ! l) \<and> b_uaddr (buckets s' ! j) = b_uaddr (buckets s' ! l)" for l
    proof -
      let ?k = "(b_as (buckets s' ! j), b_uaddr (buckets s' ! j))"
      have "live_at s' ?k j" "live_at s' ?k l" using that j by (auto simp: live_at_def)
      then show ?thesis
        unfolding live using only uniq by (cases "j = i"; cases "l = i") auto
    qed
  qed
  have old: "futex_q s (as, u) = b_q ?b"
  proof (cases "live_at s (as, u) i")
    case False
    then have "b_waiters ?b = 0" "\<not> (\<exists>j. live_at s (as, u) j)" using key by auto
    then have "{t. I t = Some i} = {}" using waiters_pos [OF inv i] by simp
    then have "b_q ?b = []" using fut_invD(4) [OF inv i] by simp
    then show ?thesis using futex_q_none [OF inv \<open>\<not> (\<exists>j. _ j)\<close>] by simp
  qed (rule futex_q_live [OF inv])
  show "futex_q s' = (futex_q s)((as, u) := futex_q s (as, u) @ [c])"
  proof
    fix k
    show "futex_q s' k = ((futex_q s)((as, u) := futex_q s (as, u) @ [c])) k"
    proof (cases "k = (as, u)")
      case True
      then have "live_at s' k i" using live by simp
      then show ?thesis using futex_q_live [OF inv'] old True b(4) by simp
    next
      case False
      have same: "live_at s' k j = live_at s k j" if "j \<noteq> i" for j using live that by simp
      have ni: "\<not> live_at s' k i" "\<not> live_at s k i" using live False key by (auto simp: live_at_def prod_eq_iff)
      show ?thesis
      proof (cases "\<exists>j. live_at s k j")
        case True
        then obtain j where j: "live_at s k j" ..
        then have "live_at s' k j" "j \<noteq> i" using same ni by metis+
        then show ?thesis using futex_q_live [OF inv'] futex_q_live [OF inv j] b(4) False by simp
      next
        case none: False
        then have "\<not> (\<exists>j. live_at s' k j)" using same ni by metis
        then show ?thesis using futex_q_none [OF inv'] futex_q_none [OF inv none] False by simp
      qed
    qed
  qed
qed

lemma find_or_make_cases:
  assumes inv: "fut_inv (s, I)" and f: "find_or_make as u s = (Some i, s1)"
  shows "i < length (buckets s)"
    and "live_at s (as, u) i \<or> \<not> (\<exists>j. live_at s (as, u) j) \<and> b_waiters (buckets s ! i) = 0"
    and "buckets s1 = (buckets s)[i := (buckets s ! i)\<lparr>b_as := as, b_uaddr := u\<rparr>]"
proof -
  have "i < length (buckets s) \<and>
    (live_at s (as, u) i \<or> \<not> (\<exists>j. live_at s (as, u) j) \<and> b_waiters (buckets s ! i) = 0) \<and>
    buckets s1 = (buckets s)[i := (buckets s ! i)\<lparr>b_as := as, b_uaddr := u\<rparr>]"
  proof (cases "futex_find as u s")
    case (Some j)
    then have "j = i" "s1 = s" "live_at s (as, u) i"
      using f futex_find_iff(1) [OF inv, of "(as, u)" j] by (auto simp: find_or_make_def)
    then show ?thesis by (auto simp: live_at_def intro!: list_update_same_conv [THEN iffD2, symmetric])
  next
    case None
    then have fi: "first_idx (\<lambda>b. b_waiters b = 0) (buckets s) = Some i"
      and s1: "buckets s1 = (buckets s)[i := (buckets s ! i)\<lparr>b_as := as, b_uaddr := u, b_q := []\<rparr>]"
      using f by (auto simp: find_or_make_def split: option.splits)
    note i = first_idx_SomeD [OF fi]
    have "{t. I t = Some i} = {}" using waiters_pos [OF inv i(1)] i(2) by simp
    then have "b_q (buckets s ! i) = []" using fut_invD(4) [OF inv i(1)] by simp
    then have "(buckets s ! i)\<lparr>b_as := as, b_uaddr := u, b_q := []\<rparr> = (buckets s ! i)\<lparr>b_as := as, b_uaddr := u\<rparr>"
      by (cases "buckets s ! i") simp
    then show ?thesis using i s1 futex_find_iff(2) [OF inv, of "(as, u)"] None by simp
  qed
  then show "i < length (buckets s)"
    "live_at s (as, u) i \<or> \<not> (\<exists>j. live_at s (as, u) j) \<and> b_waiters (buckets s ! i) = 0"
    "buckets s1 = (buckets s)[i := (buckets s ! i)\<lparr>b_as := as, b_uaddr := u\<rparr>]" by auto
qed

lemma futex_wait_enter_spec:
  assumes inv: "fut_inv (s, I)" and c: "I c = None"
    and w: "futex_wait_enter as um u val t sig c s = (FSleep i ms, s')"
  shows "fut_inv (s', I(c \<mapsto> i))" and "futex_q s' = (futex_q s)((as, u) := futex_q s (as, u) @ [c])"
    and "um u = Some val"
proof -
  obtain s1 where f: "find_or_make as u s = (Some i, s1)" and um: "um u = Some val"
    and s': "buckets s' = (buckets s1)[i := (buckets s1 ! i)\<lparr>b_waiters := b_waiters (buckets s1 ! i) + 1,
                b_q := b_q (buckets s1 ! i) @ [c]\<rparr>]"
    using w by (auto simp: futex_wait_enter_def read_word_def Let_def split: if_splits sum.splits option.splits prod.splits)
  note fm = find_or_make_cases [OF inv f]
  have "buckets s' = (buckets s)[i := (buckets s ! i)\<lparr>b_as := as, b_uaddr := u,
      b_waiters := b_waiters (buckets s ! i) + 1, b_q := b_q (buckets s ! i) @ [c]\<rparr>]"
    using s' fm(1,3) by simp
  note e = enter_spec [OF inv c fm(1,2) this]
  show "fut_inv (s', I(c \<mapsto> i))" "futex_q s' = (futex_q s)((as, u) := futex_q s (as, u) @ [c])" "um u = Some val"
    using e um by auto
qed

lemma futex_wait_leave_spec:
  assumes inv: "fut_inv (s, I)" and c: "I c = Some i" and w: "futex_wait_leave i ms sig c s = (r, s')"
  shows "fut_inv (s', I(c := None))" and "futex_q s' k = removeAll c (futex_q s k)"
proof -
  note sg = futex_signalled_spec [OF inv c]
  define s1 where "s1 = futex_signalled i c s"
  have i: "i < length (buckets s)" using fut_invD(2) [OF inv c] .
  have s': "buckets s' = (buckets s1)[i := (buckets s1 ! i)\<lparr>b_waiters := b_waiters (buckets s1 ! i) - 1\<rparr>]"
    using w i by (cases "buckets s ! i") (auto simp: futex_wait_leave_def futex_signalled_def s1_def Let_def split: if_splits)
  have i1: "i < length (buckets s1)" using i by (simp add: s1_def futex_signalled_def)
  have len: "length (buckets s') = length (buckets s1)" by (simp add: s')
  have inv1: "fut_inv (s1, I)" using sg(1) by (simp add: s1_def)
  have b: "b_waiters (buckets s' ! j) = b_waiters (buckets s1 ! j) - (if j = i then 1 else 0)"
    "b_as (buckets s' ! j) = b_as (buckets s1 ! j)" "b_uaddr (buckets s' ! j) = b_uaddr (buckets s1 ! j)"
    "b_q (buckets s' ! j) = b_q (buckets s1 ! j)" for j
    using s' i1 by (auto simp: nth_list_update_if)
  have cq: "c \<notin> set (b_q (buckets s1 ! j))" if "j < length (buckets s1)" for j
    using fut_invD(4) [OF inv1 that] c i by (cases "j = i") (auto simp: s1_def futex_signalled_def)
  have card: "int (card {t. (I(c := None)) t = Some j}) = int (card {t. I t = Some j}) - (if j = i then 1 else 0)" for j
  proof -
    have "{t. (I(c := None)) t = Some j} = {t. I t = Some j} - {c}" by auto
    moreover have "0 < card {t. I t = Some i}"
      using inside_finite [OF fut_invD(1) [OF inv]] c by (auto simp: card_gt_0_iff)
    ultimately show ?thesis using inside_finite [OF fut_invD(1) [OF inv]] c by (auto simp: card_Diff_singleton_if)
  qed
  have sub: "0 < b_waiters (buckets s' ! j) \<Longrightarrow> 0 < b_waiters (buckets s1 ! j)" for j by (simp add: b split: if_splits)
  show inv': "fut_inv (s', I(c := None))"
    unfolding fut_inv_def prod.case
  proof (intro conjI allI impI)
    show "finite (dom (I(c := None)))" using fut_invD(1) [OF inv] by simp
    show "j < length (buckets s')" if "(I(c := None)) t = Some j" for t j
      using that fut_invD(2) [OF inv1] len by (auto split: if_splits)
    fix j
    assume "j < length (buckets s')"
    then have j: "j < length (buckets s1)" by (simp add: len)
    show "b_waiters (buckets s' ! j) = int (card {t. (I(c := None)) t = Some j})"
      using fut_invD(3) [OF inv1 j] by (simp add: b card del: fun_upd_apply)
    show "set (b_q (buckets s' ! j)) \<subseteq> {t. (I(c := None)) t = Some j}"
      using fut_invD(4) [OF inv1 j] cq [OF j] by (auto simp: b)
    show "distinct (b_q (buckets s' ! j))" using fut_invD(5) [OF inv1 j] by (simp add: b)
    show "j = l" if "l < length (buckets s')" "0 < b_waiters (buckets s' ! j) \<and> 0 < b_waiters (buckets s' ! l) \<and>
        b_as (buckets s' ! j) = b_as (buckets s' ! l) \<and> b_uaddr (buckets s' ! j) = b_uaddr (buckets s' ! l)" for l
      using fut_invD(6) [OF inv1 j, of l] that sub by (simp add: b(2,3) len)
  qed
  have "futex_q s' k = futex_q s1 k"
  proof (cases "\<exists>j. live_at s' k j")
    case True
    then obtain j where j: "live_at s' k j" ..
    then have "live_at s1 k j" using sub by (auto simp: live_at_def b len)
    then show ?thesis using futex_q_live [OF inv' j] futex_q_live [OF inv1] b(4) by simp
  next
    case none: False
    show ?thesis
    proof (cases "\<exists>j. live_at s1 k j")
      case True
      then obtain j where j: "live_at s1 k j" ..
      then have "j < length (buckets s')" "\<not> 0 < b_waiters (buckets s' ! j)"
        using none by (auto simp: live_at_def b(2,3) len)
      then have "{t. (I(c := None)) t = Some j} = {}" using waiters_pos [OF inv', of j] by simp
      then have "b_q (buckets s' ! j) = []" using fut_invD(4) [OF inv' \<open>j < length (buckets s')\<close>] by simp
      then show ?thesis using futex_q_live [OF inv1 j] futex_q_none [OF inv' none] b(4) by simp
    qed (simp add: futex_q_none [OF inv' none] futex_q_none [OF inv1])
  qed
  then show "futex_q s' k = removeAll c (futex_q s k)" using sg(2) by (simp add: s1_def)
qed

lemma fut_step_inv: "fut_step c c' \<Longrightarrow> fut_inv c \<Longrightarrow> fut_inv c'"
  by (induction rule: fut_step.induct)
    (auto intro: futex_wait_enter_spec futex_wake_at_spec futex_signalled_spec futex_wait_leave_spec)

lemma fut_steps_inv:
  assumes "fut_step\<^sup>*\<^sup>* (s0, Map.empty) c" and "list_all (\<lambda>b. b_waiters b = 0 \<and> b_q b = []) (buckets s0)"
  shows "fut_inv c"
  using assms(1)
proof (induction rule: rtranclp_induct)
  case base
  then show ?case using assms(2) by (auto simp: fut_inv_def list_all_length)
qed (rule fut_step_inv)

section \<open>Properties\<close>

text \<open>C16: the table is one queue per address.  After any waits, wakes, signals and timeouts: a task
  that goes to sleep found the value it expected and is last in the queue of its own address and of
  no other; \<open>futex_wake_at\<close> makes ready the first \<open>n\<close> sleepers of exactly that address, in the order
  they came, and returns how many; a task that leaves, woken or not, is on no queue.  So no wake is
  lost and none goes to a sleeper of another address, although entries are shared and reused.\<close>

theorem futex_queue_per_address:
  assumes "fut_step\<^sup>*\<^sup>* (s0, Map.empty) (s, I)"
    and "list_all (\<lambda>b. b_waiters b = 0 \<and> b_q b = []) (buckets s0)"
  shows "(futex_wake_at as u n s = (k, s1) \<longrightarrow>
      k = min (max 0 n) (int (length (futex_q s (as, u)))) \<and>
      made_ready (fenv s1) = made_ready (fenv s) @ take (nat n) (futex_q s (as, u)) \<and>
      futex_q s1 = (futex_q s)((as, u) := drop (nat n) (futex_q s (as, u)))) \<and>
    (I c = None \<and> futex_wait_enter as um u val t sig c s = (FSleep i ms, s2) \<longrightarrow>
      um u = Some val \<and> futex_q s2 = (futex_q s)((as, u) := futex_q s (as, u) @ [c])) \<and>
    (I c = Some i \<and> futex_wait_leave i ms sig c s = (r, s3) \<longrightarrow>
      futex_q s3 = (\<lambda>x. removeAll c (futex_q s x)))"
proof -
  note inv = fut_steps_inv [OF assms]
  show ?thesis
    using futex_wake_at_spec [OF inv, of as u n k s1] futex_wait_enter_spec [OF inv, of c as um u val t sig i ms s2]
      futex_wait_leave_spec(2) [OF inv, of c i ms sig r s3] by (auto simp: fun_eq_iff)
qed

definition no_futexes :: futexes where
  "no_futexes = \<lparr>buckets = replicate FUTEX_BUCKETS \<lparr>b_as = 0, b_uaddr = 0, b_waiters = 0, b_q = []\<rparr>,
     fenv = \<lparr>made_ready = [], poll_wait = [], signals = []\<rparr>\<rparr>"

definition one_sleeper :: futexes where
  "one_sleeper = snd (futex_wait_enter 1 (\<lambda>_. Some 5) 16 5 NoTimeout False 9 no_futexes)"

theorem futex_queue_per_address_witness:
  "fut_step\<^sup>*\<^sup>* (no_futexes, Map.empty) (one_sleeper, [9 \<mapsto> 0]) \<and>
   fst (futex_wake_at 1 16 3 one_sleeper) = 1 \<and>
   made_ready (fenv (snd (futex_wake_at 1 16 3 one_sleeper))) = [9]"
proof -
  have e: "futex_wait_enter 1 (\<lambda>_. Some 5) 16 5 NoTimeout False 9 no_futexes = (FSleep 0 0, one_sleeper)"
    unfolding one_sleeper_def by (rule prod_eqI) (code_simp, simp)
  have step: "fut_step\<^sup>*\<^sup>* (no_futexes, Map.empty) (one_sleeper, [9 \<mapsto> 0])"
    using fut_step.enter [OF _ e, of Map.empty] by auto
  have free: "list_all (\<lambda>b. b_waiters b = 0 \<and> b_q b = []) (buckets no_futexes)" by code_simp
  have q: "futex_q one_sleeper (1, 16) = [9]" "made_ready (fenv one_sleeper) = []" by code_simp+
  show ?thesis
    using futex_queue_per_address [OF step free, of 1 16 3 "fst (futex_wake_at 1 16 3 one_sleeper)"
        "snd (futex_wake_at 1 16 3 one_sleeper)"] step q by simp
qed

text \<open>C31: \<open>read_timeout\<close> is exact while the duration fits: the milliseconds are the seconds and
  nanoseconds rounded up, and at least 1 since 0 means no timeout; nanoseconds of a whole second or
  more are refused.  The product is computed modulo \<open>2 ^ 32\<close>, so a duration of 4294968 seconds
  becomes one of 704 milliseconds.\<close>

theorem read_timeout_exact:
  "(unat sec * 1000 + (unat nsec + 999999) div 1000000 < 2 ^ 32 \<and> nsec < 1000000000 \<longrightarrow>
     (\<exists>ms. read_timeout (Timeout sec nsec) = Inr ms \<and>
        unat ms = max 1 (unat sec * 1000 + (unat nsec + 999999) div 1000000))) \<and>
   (1000000000 \<le> nsec \<longrightarrow> read_timeout (Timeout sec nsec) = Inl EINVAL) \<and>
   read_timeout (Timeout 4294968 0) = Inr 704"
proof (intro conjI impI)
  assume a: "unat sec * 1000 + (unat nsec + 999999) div 1000000 < 2 ^ 32 \<and> nsec < 1000000000"
  then have n: "unat nsec < 1000000000" by (simp add: word_less_nat_alt)
  then have r: "unat ((nsec + 999999) div 1000000) = (unat nsec + 999999) div 1000000"
    by (simp add: unat_div unat_add_u32)
  have p: "unat (sec * 1000) = unat sec * 1000" using a by (simp add: unat_word_ariths)
  let ?ms = "sec * 1000 + (nsec + 999999) div 1000000"
  have u: "unat ?ms = unat sec * 1000 + (unat nsec + 999999) div 1000000"
    using a r p by (simp add: unat_add_u32)
  have "?ms = 0 \<longleftrightarrow> unat ?ms = 0" by (simp add: unat_eq_0)
  then show "\<exists>ms. read_timeout (Timeout sec nsec) = Inr ms \<and>
        unat ms = max 1 (unat sec * 1000 + (unat nsec + 999999) div 1000000)"
    using a u by (cases "?ms = 0") (auto simp: read_timeout_def Let_def max_def)
next
  assume "1000000000 \<le> nsec"
  then show "read_timeout (Timeout sec nsec) = Inl EINVAL" by (simp add: read_timeout_def)
next
  show "read_timeout (Timeout 4294968 0) = Inr 704" by code_simp
qed

theorem read_timeout_exact_witness:
  "\<exists>ms. read_timeout (Timeout 2 1) = Inr ms \<and> unat ms = 2001"
  using read_timeout_exact [of 2 1] by simp

end
