(* ===== verification/Bytes.thy ===== *)
theory Bytes imports Kprelude
begin

text \<open>
  Big-endian words in byte memory, as the 68040 loads and stores them.  The address type is a
  parameter: user-space allocators are modelled over natural addresses, kernel memory over \<open>u32\<close>.
\<close>

definition ld32 :: "('a::semiring_1 \<Rightarrow> u8) \<Rightarrow> 'a \<Rightarrow> u32" where
  "ld32 m a = push_bit 24 (ucast (m a)) OR push_bit 16 (ucast (m (a + 1))) OR
     push_bit 8 (ucast (m (a + 2))) OR ucast (m (a + 3))"

definition st32 :: "'a::semiring_1 \<Rightarrow> u32 \<Rightarrow> ('a \<Rightarrow> u8) \<Rightarrow> 'a \<Rightarrow> u8" where
  "st32 a v m = m(a := ucast (drop_bit 24 v), a + 1 := ucast (drop_bit 16 v),
     a + 2 := ucast (drop_bit 8 v), a + 3 := ucast v)"

lemma word_bytes:
  "push_bit 24 (ucast (ucast (drop_bit 24 v) :: u8)) OR push_bit 16 (ucast (ucast (drop_bit 16 v) :: u8)) OR
     push_bit 8 (ucast (ucast (drop_bit 8 v) :: u8)) OR ucast (ucast v :: u8) = v" for v :: u32
proof (rule bit_word_eqI)
  fix n :: nat
  assume "n < LENGTH(32)"
  then consider "n < 8" | "8 \<le> n" "n < 16" | "16 \<le> n" "n < 24" | "24 \<le> n" "n < 32" by fastforce
  then show "bit (push_bit 24 (ucast (ucast (drop_bit 24 v) :: u8)) OR push_bit 16 (ucast (ucast (drop_bit 16 v) :: u8)) OR
     push_bit 8 (ucast (ucast (drop_bit 8 v) :: u8)) OR ucast (ucast v :: u8) :: u32) n = bit v n"
    by cases (auto simp: bit_simps)
qed

lemma st32_at:
  "st32 a v m x = (if x = a + 3 then ucast v else if x = a + 2 then ucast (drop_bit 8 v)
     else if x = a + 1 then ucast (drop_bit 16 v) else if x = a then ucast (drop_bit 24 v) else m x)"
  by (simp add: st32_def)

lemma ld32_st32 [simp]: "ld32 (st32 a v m) a = v" for a :: nat
  by (simp add: ld32_def st32_at word_bytes)

lemma ld32_st32_disjoint: "a + 4 \<le> b \<or> b + 4 \<le> a \<Longrightarrow> ld32 (st32 a v m) b = ld32 m b" for a b :: nat
  by (auto simp: ld32_def st32_at)

lemma st32_same: "x < a \<or> a + 4 \<le> x \<Longrightarrow> st32 a v m x = m x" for a x :: nat
  by (auto simp: st32_at)

lemma ld32_st32_aligned:
  "a mod 4 = 0 \<Longrightarrow> b mod 4 = 0 \<Longrightarrow> ld32 (st32 a v m) b = (if b = a then v else ld32 m b)" for a b :: nat
proof -
  assume "a mod 4 = 0" "b mod 4 = 0"
  then have "b = a \<or> a + 4 \<le> b \<or> b + 4 \<le> a" by presburger
  then show ?thesis by (auto simp: ld32_st32_disjoint)
qed

lemma ld32_cong: "(\<And>x. a \<le> x \<Longrightarrow> x < a + 4 \<Longrightarrow> m x = m' x) \<Longrightarrow> ld32 m a = ld32 m' a" for a :: nat
  by (simp add: ld32_def)

end
