(* ===== verification/Malloc.thy ===== *)
theory Malloc
  imports Bytes "HOL-Library.Monad_Syntax"
begin

text \<open>
  \<^verbatim>\<open>lib/malloc.c\<close>: the user-space allocator, with \<^verbatim>\<open>sbrk\<close> and \<^verbatim>\<open>brk\<close> of \<^verbatim>\<open>lib/ulib.c\<close>.  The heap
  is a byte memory; headers, footers, list links and segment headers are big-endian words in it, as
  the C code keeps them, and the flags of a header are bits of its word.  A pointer is a natural
  number, 0 the null pointer: user addresses end at \<open>USER_BRK_LIMIT\<close>, far below \<open>2 ^ 32\<close>, so the
  pointer arithmetic of the code never wraps on a heap that satisfies the invariant.

  The kernel is the record \<open>sys\<close>: whether it lets the break move to an address and where it puts a
  new mapping.  \<open>sys_brk\<close> and \<open>sys_mmap\<close> turn these choices into answers that keep the contract
  documented in \<^verbatim>\<open>kernel/mmap.c\<close>: the break stays between its start and its limit and never grows
  over a mapping, and a mapping is whole pages, above the break and away from other mappings.  The
  bytes of memory that the kernel hands out are whatever the memory holds there: the allocator
  relies on no value.

  Walks along pointers are \<open>partial_function (option)\<close>: \<open>None\<close> is a walk that never ends.
\<close>

section \<open>The program's address space and the kernel\<close>

record heap =
  hmem :: "nat \<Rightarrow> u8"
  bins :: "nat list"
  segments :: nat
  arena_bytes :: u32
  mmap_bytes :: u32
  mmap_count :: u32
  cur_brk :: nat
  kbrk_start :: nat
  kbrk :: nat
  maps :: "(nat \<times> nat) list"

record sys =
  brk_ok :: "nat \<Rightarrow> bool"
  mmap_at :: "nat \<Rightarrow> nat option"

definition USER_BRK_LIMIT :: nat where "USER_BRK_LIMIT = 0x20000000 - 257 * 4096"

definition sys_brk :: "sys \<Rightarrow> nat \<Rightarrow> heap \<Rightarrow> nat \<times> heap" where
  "sys_brk sys addr h =
     (if kbrk_start h \<le> addr \<and> addr \<le> USER_BRK_LIMIT \<and> brk_ok sys addr \<and>
         list_all (\<lambda>(a, n). addr \<le> a \<or> a + n \<le> kbrk h) (maps h)
      then (addr, h\<lparr>kbrk := addr\<rparr>) else (kbrk h, h))"

definition sys_mmap :: "sys \<Rightarrow> nat \<Rightarrow> heap \<Rightarrow> nat option \<times> heap" where
  "sys_mmap sys len h =
     (case mmap_at sys len of
        None \<Rightarrow> (None, h)
      | Some m \<Rightarrow>
          if m mod 4096 = 0 \<and> kbrk h \<le> m \<and> 0 < m \<and> m + len \<le> USER_BRK_LIMIT \<and>
             list_all (\<lambda>(a, n). m + len \<le> a \<or> a + n \<le> m) (maps h)
          then (Some m, h\<lparr>maps := (m, len) # maps h\<rparr>) else (None, h))"

definition sys_munmap :: "nat \<Rightarrow> nat \<Rightarrow> heap \<Rightarrow> heap" where
  "sys_munmap a len h =
     h\<lparr>maps := filter (\<lambda>(m, n). \<not> (a \<le> m \<and> m + n \<le> a + (len + 4095) div 4096 * 4096)) (maps h)\<rparr>"

text \<open>\<^verbatim>\<open>brk\<close> and \<^verbatim>\<open>sbrk\<close> of \<^verbatim>\<open>lib/ulib.c\<close>; \<open>None\<close> is the answer \<^verbatim>\<open>(void *)-1\<close>.\<close>

definition brk :: "sys \<Rightarrow> nat \<Rightarrow> heap \<Rightarrow> bool \<times> heap" where
  "brk sys addr h =
     (let (got, h1) = sys_brk sys addr h
      in (got = addr, h1\<lparr>cur_brk := got\<rparr>))"

definition sbrk :: "sys \<Rightarrow> int \<Rightarrow> heap \<Rightarrow> nat option \<times> heap" where
  "sbrk sys incr h0 =
     (let h = (if cur_brk h0 = 0 then h0\<lparr>cur_brk := kbrk h0\<rparr> else h0);
          old = cur_brk h
      in if incr = 0 then (Some old, h)
      else
        let want = nat ((int old + incr) mod 2 ^ 32)
        in if 0 < incr \<and> want < old \<or> incr < 0 \<and> old < want then (None, h)
        else
          let (ok, h1) = brk sys want h
          in (if ok then Some old else None, h1))"

section \<open>Block arithmetic\<close>

definition ALIGN :: nat where "ALIGN = 8"
definition MIN_BLOCK :: nat where "MIN_BLOCK = 16"
definition SEG_HDR :: nat where "SEG_HDR = 12"
definition SEG_MIN :: nat where "SEG_MIN = 64 * 1024"
definition MMAP_THRESHOLD :: nat where "MMAP_THRESHOLD = 128 * 1024"
definition TRIM_THRESHOLD :: nat where "TRIM_THRESHOLD = 256 * 1024"
definition PAGE :: nat where "PAGE = 4096"
definition INUSE :: u32 where "INUSE = 1"
definition PREV_INUSE :: u32 where "PREV_INUSE = 2"
definition MMAPPED :: u32 where "MMAPPED = 4"
definition FLAGS :: u32 where "FLAGS = 7"
definition NBINS :: nat where "NBINS = 24"

lemmas malloc_consts = ALIGN_def MIN_BLOCK_def SEG_HDR_def SEG_MIN_def MMAP_THRESHOLD_def
  TRIM_THRESHOLD_def PAGE_def INUSE_def PREV_INUSE_def MMAPPED_def FLAGS_def NBINS_def

type_synonym umem = "nat \<Rightarrow> u8"

definition bsize :: "umem \<Rightarrow> nat \<Rightarrow> nat" where "bsize m b = unat (ld32 m b AND NOT FLAGS)"
definition inuse :: "umem \<Rightarrow> nat \<Rightarrow> bool" where "inuse m b \<longleftrightarrow> ld32 m b AND INUSE \<noteq> 0"
definition prev_inuse :: "umem \<Rightarrow> nat \<Rightarrow> bool" where "prev_inuse m b \<longleftrightarrow> ld32 m b AND PREV_INUSE \<noteq> 0"
definition next_block :: "umem \<Rightarrow> nat \<Rightarrow> nat" where "next_block m b = b + bsize m b"
definition payload :: "nat \<Rightarrow> nat" where "payload b = b + 4"
definition from_payload :: "nat \<Rightarrow> nat" where "from_payload p = p - 4"
definition footer :: "umem \<Rightarrow> nat \<Rightarrow> nat" where "footer m b = b + bsize m b - 4"

definition prev_block :: "umem \<Rightarrow> nat \<Rightarrow> nat" where
  "prev_block m b = b - unat (ld32 m (b - 4))"

text \<open>The links of a free block.\<close>

definition bnext :: "umem \<Rightarrow> nat \<Rightarrow> nat" where "bnext m b = unat (ld32 m (b + 4))"
definition bprev :: "umem \<Rightarrow> nat \<Rightarrow> nat" where "bprev m b = unat (ld32 m (b + 8))"

definition set_prev_inuse :: "nat \<Rightarrow> bool \<Rightarrow> umem \<Rightarrow> umem" where
  "set_prev_inuse b on m =
     (if on then st32 b (ld32 m b OR PREV_INUSE) m else st32 b (ld32 m b AND NOT PREV_INUSE) m)"

definition request_size :: "u32 \<Rightarrow> u32" where
  "request_size n =
     (if 0x7fffff00 < n then 0
      else
        let s = (n + 4 + of_nat ALIGN - 1) AND NOT (of_nat (ALIGN - 1))
        in if s < of_nat MIN_BLOCK then of_nat MIN_BLOCK else s)"

section \<open>The free lists\<close>

function bin_loop :: "nat \<Rightarrow> nat \<Rightarrow> nat" where
  "bin_loop sz i = (if sz \<noteq> 0 \<and> i < NBINS - 1 then bin_loop (sz div 2) (i + 1) else i)"
  by pat_completeness auto
termination
  by (relation "measure (\<lambda>(sz, i). sz)") auto

definition bin_of :: "nat \<Rightarrow> nat" where "bin_of sz = bin_loop (sz div 32) 0"

definition unlink_free :: "nat \<Rightarrow> heap \<Rightarrow> heap" where
  "unlink_free b h =
     (let i = bin_of (bsize (hmem h) b);
          h1 = (if bprev (hmem h) b \<noteq> 0
                then h\<lparr>hmem := st32 (bprev (hmem h) b + 4) (of_nat (bnext (hmem h) b)) (hmem h)\<rparr>
                else h\<lparr>bins := (bins h)[i := bnext (hmem h) b]\<rparr>)
      in if bnext (hmem h1) b \<noteq> 0
         then h1\<lparr>hmem := st32 (bnext (hmem h1) b + 8) (of_nat (bprev (hmem h1) b)) (hmem h1)\<rparr>
         else h1)"

definition make_free :: "nat \<Rightarrow> nat \<Rightarrow> heap \<Rightarrow> heap" where
  "make_free b sz h =
     (let i = bin_of sz;
          m1 = st32 b (of_nat sz OR (ld32 (hmem h) b AND PREV_INUSE)) (hmem h);
          m2 = st32 (footer m1 b) (of_nat sz) m1;
          m3 = set_prev_inuse (next_block m2 b) False m2;
          m4 = st32 (b + 8) 0 m3;
          m5 = st32 (b + 4) (of_nat (bins h ! i)) m4;
          m6 = (if bins h ! i \<noteq> 0 then st32 (bins h ! i + 8) (of_nat b) m5 else m5)
      in h\<lparr>hmem := m6, bins := (bins h)[i := b]\<rparr>)"

definition carve_block :: "nat \<Rightarrow> nat \<Rightarrow> heap \<Rightarrow> heap" where
  "carve_block b sz h =
     (let m = hmem h; room = bsize m b
      in if MIN_BLOCK \<le> room - sz
         then
           let rest = b + sz;
               m1 = st32 b (of_nat sz OR INUSE OR (ld32 m b AND PREV_INUSE)) m;
               m2 = st32 rest PREV_INUSE m1
           in make_free rest (room - sz) (h\<lparr>hmem := m2\<rparr>)
         else
           let m1 = st32 b (of_nat room OR INUSE OR (ld32 m b AND PREV_INUSE)) m
           in h\<lparr>hmem := set_prev_inuse (next_block m1 b) True m1\<rparr>)"

definition coalesce :: "nat \<Rightarrow> heap \<Rightarrow> nat \<times> heap" where
  "coalesce b h =
     (let n = next_block (hmem h) b;
          (size1, h1) =
            (if \<not> inuse (hmem h) n
             then (bsize (hmem h) b + bsize (hmem (unlink_free n h)) n, unlink_free n h)
             else (bsize (hmem h) b, h));
          (b2, size2, h2) =
            (if \<not> prev_inuse (hmem h1) b
             then
               let p = prev_block (hmem h1) b; h' = unlink_free p h1
               in (p, size1 + bsize (hmem h') p, h')
             else (b, size1, h1))
      in (b2, make_free b2 size2 h2))"

section \<open>Getting memory from the system\<close>

definition seg_next :: "umem \<Rightarrow> nat \<Rightarrow> nat" where "seg_next m s = unat (ld32 m s)"
definition seg_len :: "umem \<Rightarrow> nat \<Rightarrow> nat" where "seg_len m s = unat (ld32 m (s + 4))"

partial_function (option) seg_walk :: "umem \<Rightarrow> nat \<Rightarrow> nat \<Rightarrow> nat option" where
  "seg_walk m b s =
     (if s = 0 then Some 0
      else if s < b \<and> b < s + seg_len m s then Some s
      else seg_walk m b (seg_next m s))"

definition segment_of :: "nat \<Rightarrow> heap \<Rightarrow> nat option" where
  "segment_of b h = seg_walk (hmem h) b (segments h)"

definition page_round :: "nat \<Rightarrow> nat" where
  "page_round n = (n + PAGE - 1) div PAGE * PAGE"

definition grow_top :: "sys \<Rightarrow> nat \<Rightarrow> heap \<Rightarrow> bool \<times> heap" where
  "grow_top sys len h =
     (let (got, h1) = sbrk sys (int len) h
      in case got of
           None \<Rightarrow> (False, h1)
         | Some _ \<Rightarrow>
             let s = segments h1; m = hmem h1;
                 b = s + seg_len m s - 4;
                 m1 = st32 (s + 4) (ld32 m (s + 4) + of_nat len) m;
                 m2 = st32 (s + seg_len m1 s - 4) INUSE m1;
                 m3 = st32 b (of_nat len OR (ld32 m2 b AND PREV_INUSE)) m2
             in (True, snd (coalesce b (h1\<lparr>hmem := m3, arena_bytes := arena_bytes h1 + of_nat len\<rparr>))))"

definition grow_new :: "sys \<Rightarrow> nat \<Rightarrow> nat \<Rightarrow> heap \<Rightarrow> bool \<times> heap" where
  "grow_new sys tp len h =
     (let pad = (ALIGN - tp mod ALIGN) mod ALIGN;
          (got, h1) = sbrk sys (int (len + pad)) h
      in case got of
           None \<Rightarrow> (False, h1)
         | Some g \<Rightarrow>
             let s = g + pad;
                 first = s + SEG_HDR;
                 epi = s + len - 4;
                 m1 = st32 (s + 4) (of_nat len) (hmem h1);
                 m2 = st32 s (of_nat (segments h1)) m1;
                 m3 = st32 first PREV_INUSE m2;
                 m4 = st32 epi INUSE m3
             in (True, make_free first (len - SEG_HDR - 4)
                         (h1\<lparr>hmem := m4, segments := s, arena_bytes := arena_bytes h1 + of_nat len\<rparr>)))"

definition grow :: "sys \<Rightarrow> nat \<Rightarrow> heap \<Rightarrow> bool \<times> heap" where
  "grow sys need h0 =
     (let len0 = page_round (need + SEG_HDR + 4);
          (tp, h) = sbrk sys 0 h0;
          len = (if len0 < SEG_MIN then SEG_MIN else len0)
      in if segments h \<noteq> 0 \<and> Some (segments h + seg_len (hmem h) (segments h)) = tp
         then grow_top sys len h else grow_new sys (the tp) len h)"

definition trim :: "sys \<Rightarrow> nat \<Rightarrow> heap \<Rightarrow> heap" where
  "trim sys b h =
     (let s = segments h; m = hmem h
      in if s = 0 \<or> bsize m b < TRIM_THRESHOLD then h
      else if next_block m b \<noteq> s + seg_len m s - 4 then h
      else
        let (tp, h0) = sbrk sys 0 h
        in if tp \<noteq> Some (s + seg_len m s) then h0
        else
          let give = (bsize m b - PAGE) div PAGE * PAGE
          in if give = 0 then h0
          else
            case sbrk sys (- int give) h0 of
              (None, h1) \<Rightarrow> h1
            | (Some _, h1) \<Rightarrow>
                let h2 = unlink_free b h1;
                    keep = bsize (hmem h2) b - give;
                    m1 = st32 (s + 4) (ld32 (hmem h2) (s + 4) - of_nat give) (hmem h2);
                    m2 = st32 (s + seg_len m1 s - 4) INUSE m1;
                    m3 = st32 b (of_nat keep OR (ld32 m2 b AND PREV_INUSE)) m2
                in make_free b keep (h2\<lparr>hmem := m3, arena_bytes := arena_bytes h2 - of_nat give\<rparr>))"

section \<open>Large blocks\<close>

definition big_alloc :: "sys \<Rightarrow> nat \<Rightarrow> heap \<Rightarrow> nat \<times> heap" where
  "big_alloc sys sz h =
     (let len = page_round (sz + 4)
      in case sys_mmap sys len h of
           (None, h1) \<Rightarrow> (0, h1)
         | (Some m, h1) \<Rightarrow>
             let b = m + 4
             in (payload b, h1\<lparr>hmem := st32 b (of_nat (len - 4) OR INUSE OR MMAPPED) (hmem h1),
                               mmap_bytes := mmap_bytes h1 + of_nat len, mmap_count := mmap_count h1 + 1\<rparr>))"

definition big_free :: "nat \<Rightarrow> heap \<Rightarrow> heap" where
  "big_free b h =
     (let len = bsize (hmem h) b + 4
      in sys_munmap (b - 4) len (h\<lparr>mmap_bytes := mmap_bytes h - of_nat len, mmap_count := mmap_count h - 1\<rparr>))"

section \<open>The interface\<close>

text \<open>A call returns \<open>Inr\<close> of its result, or \<open>Inl 134\<close> when \<^verbatim>\<open>bad_pointer\<close> ends the program.\<close>

definition bad_pointer :: "nat + 'a" where "bad_pointer = Inl 134"

definition mmapped :: "umem \<Rightarrow> nat \<Rightarrow> bool" where "mmapped m b \<longleftrightarrow> ld32 m b AND MMAPPED \<noteq> 0"

definition plausible :: "nat \<Rightarrow> heap \<Rightarrow> bool option" where
  "plausible p h =
     (if p = 0 \<or> p mod ALIGN \<noteq> 0 then Some False
      else
        let b = from_payload p
        in if \<not> inuse (hmem h) b then Some False
        else if mmapped (hmem h) b then Some True
        else do { s \<leftarrow> segment_of b h; Some (s \<noteq> 0) })"

partial_function (option) bin_walk :: "umem \<Rightarrow> nat \<Rightarrow> nat \<Rightarrow> nat option" where
  "bin_walk m sz b =
     (if b = 0 then Some 0
      else if sz \<le> bsize m b then Some b
      else bin_walk m sz (bnext m b))"

fun scan_bins :: "umem \<Rightarrow> nat \<Rightarrow> nat list \<Rightarrow> nat option" where
  "scan_bins m sz [] = Some 0"
| "scan_bins m sz (b # bs) =
     do { r \<leftarrow> bin_walk m sz b; if r \<noteq> 0 then Some r else scan_bins m sz bs }"

partial_function (option) malloc_loop :: "sys \<Rightarrow> nat \<Rightarrow> heap \<Rightarrow> (nat \<times> heap) option" where
  "malloc_loop sys sz h =
     do { b \<leftarrow> scan_bins (hmem h) sz (drop (bin_of sz) (bins h));
          if b \<noteq> 0 then Some (payload b, carve_block b sz (unlink_free b h))
          else
            (let (ok, h1) = grow sys sz h
             in if \<not> ok then Some (0, h1) else malloc_loop sys sz h1) }"

definition malloc :: "sys \<Rightarrow> u32 \<Rightarrow> heap \<Rightarrow> (nat \<times> heap) option" where
  "malloc sys n h =
     (let sz = unat (request_size n)
      in if sz = 0 then Some (0, h)
      else if MMAP_THRESHOLD \<le> sz then Some (big_alloc sys sz h)
      else malloc_loop sys sz h)"

definition free :: "sys \<Rightarrow> nat \<Rightarrow> heap \<Rightarrow> (nat + heap) option" where
  "free sys p h =
     (if p = 0 then Some (Inr h)
      else
        do { ok \<leftarrow> plausible p h;
             Some (if \<not> ok then bad_pointer
                   else
                     let b = from_payload p
                     in if mmapped (hmem h) b then Inr (big_free b h)
                        else
                          let h1 = h\<lparr>hmem := st32 b (ld32 (hmem h) b AND NOT INUSE) (hmem h)\<rparr>;
                              (c, h2) = coalesce b h1
                          in Inr (trim sys c h2)) })"

text \<open>\<^verbatim>\<open>memset\<close> and \<^verbatim>\<open>memcpy\<close> between areas that do not overlap.\<close>

definition fill_bytes :: "nat \<Rightarrow> u8 \<Rightarrow> nat \<Rightarrow> umem \<Rightarrow> umem" where
  "fill_bytes p v n m = (\<lambda>x. if p \<le> x \<and> x < p + n then v else m x)"

definition copy_bytes :: "nat \<Rightarrow> nat \<Rightarrow> nat \<Rightarrow> umem \<Rightarrow> umem" where
  "copy_bytes q p n m = (\<lambda>x. if q \<le> x \<and> x < q + n then m (p + (x - q)) else m x)"

definition calloc :: "sys \<Rightarrow> u32 \<Rightarrow> u32 \<Rightarrow> heap \<Rightarrow> (nat \<times> heap) option" where
  "calloc sys count sz h =
     (if sz \<noteq> 0 \<and> 0xffffffff div sz < count then Some (0, h)
      else
        do { (p, h1) \<leftarrow> malloc sys (count * sz) h;
             Some (if p \<noteq> 0 then (p, h1\<lparr>hmem := fill_bytes p 0 (unat (count * sz)) (hmem h1)\<rparr>) else (p, h1)) })"

definition realloc_move :: "sys \<Rightarrow> nat \<Rightarrow> u32 \<Rightarrow> heap \<Rightarrow> (nat + nat \<times> heap) option" where
  "realloc_move sys p n h =
     do { (q, h1) \<leftarrow> malloc sys n h;
          if q = 0 then Some (Inr (0, h1))
          else
            let room = bsize (hmem h1) (from_payload p) - 4;
                h2 = h1\<lparr>hmem := copy_bytes q p (if room < unat n then room else unat n) (hmem h1)\<rparr>
            in do { r \<leftarrow> free sys p h2;
                    Some (case r of Inl e \<Rightarrow> Inl e | Inr h3 \<Rightarrow> Inr (q, h3)) } }"

definition cut_tail :: "nat \<Rightarrow> nat \<Rightarrow> heap \<Rightarrow> heap" where
  "cut_tail b sz h =
     (let m = hmem h; room = bsize m b
      in if MIN_BLOCK \<le> room - sz
         then
           let rest = b + sz;
               m1 = st32 b (of_nat sz OR INUSE OR (ld32 m b AND PREV_INUSE)) m;
               m2 = st32 rest (of_nat (room - sz) OR PREV_INUSE) m1
           in snd (coalesce rest (h\<lparr>hmem := m2\<rparr>))
         else h)"

definition absorb_next :: "nat \<Rightarrow> nat \<Rightarrow> heap \<Rightarrow> heap" where
  "absorb_next b nx h =
     (let h1 = unlink_free nx h;
          m1 = st32 b (ld32 (hmem h1) b + of_nat (bsize (hmem h1) nx)) (hmem h1)
      in h1\<lparr>hmem := set_prev_inuse (next_block m1 b) True m1\<rparr>)"

partial_function (option) realloc :: "sys \<Rightarrow> nat \<Rightarrow> u32 \<Rightarrow> heap \<Rightarrow> (nat + nat \<times> heap) option" where
  "realloc sys p n h =
     (let sz = unat (request_size n); m = hmem h; b = from_payload p; nx = next_block m b
      in if p = 0 then do { r \<leftarrow> malloc sys n h; Some (Inr r) }
      else if n = 0 then
        do { r \<leftarrow> free sys p h; Some (case r of Inl e \<Rightarrow> Inl e | Inr h1 \<Rightarrow> Inr (0, h1)) }
      else do {
        ok \<leftarrow> plausible p h;
        if \<not> ok then Some bad_pointer
        else if sz = 0 then Some (Inr (0, h))
        else if mmapped m b then
          (if sz \<le> bsize m b then Some (Inr (p, h)) else realloc_move sys p n h)
        else if sz \<le> bsize m b then Some (Inr (p, cut_tail b sz h))
        else if \<not> inuse m nx \<and> sz \<le> bsize m b + bsize m nx then
          Some (Inr (p, cut_tail b sz (absorb_next b nx h)))
        else if bsize m nx = 0 \<and> segments h \<noteq> 0 then
          do {
            s \<leftarrow> segment_of b h;
            if s = segments h \<and> sz < MMAP_THRESHOLD
            then
              let (tp, h0) = sbrk sys 0 h
              in if Some (segments h + seg_len m (segments h)) = tp
              then
                let (ok, h1) = grow sys (sz - bsize m b) h0; nx1 = next_block (hmem h1) b
                in if ok \<and> \<not> inuse (hmem h1) nx1 \<and> sz \<le> bsize (hmem h1) b + bsize (hmem h1) nx1
                   then realloc sys p n h1 else realloc_move sys p n h1
              else realloc_move sys p n h0
            else realloc_move sys p n h }
        else realloc_move sys p n h })"

section \<open>Checking and reporting\<close>

datatype complaint = BadFirst | BadSize | BadPrevInuse | AdjacentFree | BadFooter | BadEpilogue
  | BadEpiloguePrev | ListedInUse | WrongList | BadBackLink | OutsideSegments | TooManyListed | MissingFree

partial_function (option) check_blocks ::
    "umem \<Rightarrow> nat \<Rightarrow> nat \<Rightarrow> bool \<Rightarrow> nat \<Rightarrow> (complaint + bool \<times> nat) option" where
  "check_blocks m b epi prev_free walked =
     (if b = epi then Some (Inr (prev_free, walked))
      else
        let sz = bsize m b
        in if sz < MIN_BLOCK \<or> sz mod ALIGN \<noteq> 0 \<or> epi < b \<or> epi < b + sz then Some (Inl BadSize)
        else if prev_inuse m b = prev_free then Some (Inl BadPrevInuse)
        else if \<not> inuse m b \<and> prev_free then Some (Inl AdjacentFree)
        else if \<not> inuse m b \<and> unat (ld32 m (footer m b)) \<noteq> sz then Some (Inl BadFooter)
        else check_blocks m (next_block m b) epi (\<not> inuse m b) (if \<not> inuse m b then walked + 1 else walked))"

partial_function (option) check_segs :: "umem \<Rightarrow> nat \<Rightarrow> nat \<Rightarrow> (complaint + nat) option" where
  "check_segs m s walked =
     (if s = 0 then Some (Inr walked)
      else
        let b = s + SEG_HDR; epi = s + seg_len m s - 4
        in if \<not> prev_inuse m b then Some (Inl BadFirst)
        else do {
          r \<leftarrow> check_blocks m b epi False walked;
          case r of
            Inl c \<Rightarrow> Some (Inl c)
          | Inr (prev_free, walked1) \<Rightarrow>
              if \<not> inuse m epi \<or> bsize m epi \<noteq> 0 then Some (Inl BadEpilogue)
              else if prev_inuse m epi = prev_free then Some (Inl BadEpiloguePrev)
              else check_segs m (seg_next m s) walked1 })"

partial_function (option) check_list ::
    "heap \<Rightarrow> nat \<Rightarrow> nat \<Rightarrow> nat \<Rightarrow> nat \<Rightarrow> nat \<Rightarrow> (complaint + nat) option" where
  "check_list h i b prev walked listed =
     (if b = 0 then Some (Inr listed)
      else if inuse (hmem h) b then Some (Inl ListedInUse)
      else if bin_of (bsize (hmem h) b) \<noteq> i then Some (Inl WrongList)
      else if bprev (hmem h) b \<noteq> prev then Some (Inl BadBackLink)
      else do {
        s \<leftarrow> segment_of b h;
        if s = 0 then Some (Inl OutsideSegments)
        else if walked < listed + 1 then Some (Inl TooManyListed)
        else check_list h i (bnext (hmem h) b) b walked (listed + 1) })"

fun check_bins :: "heap \<Rightarrow> nat list \<Rightarrow> nat \<Rightarrow> nat \<Rightarrow> (complaint + nat) option" where
  "check_bins h [] walked listed = Some (Inr listed)"
| "check_bins h (i # js) walked listed =
     do { r \<leftarrow> check_list h i (bins h ! i) 0 walked listed;
          case r of Inl c \<Rightarrow> Some (Inl c) | Inr listed1 \<Rightarrow> check_bins h js walked listed1 }"

definition malloc_check :: "heap \<Rightarrow> (complaint + unit) option" where
  "malloc_check h =
     do { r \<leftarrow> check_segs (hmem h) (segments h) 0;
          case r of
            Inl c \<Rightarrow> Some (Inl c)
          | Inr walked \<Rightarrow>
              do { l \<leftarrow> check_bins h [0..<NBINS] walked 0;
                   Some (case l of Inl c \<Rightarrow> Inl c
                         | Inr listed \<Rightarrow> if listed \<noteq> walked then Inl MissingFree else Inr ()) } }"

text \<open>The report; an \<^verbatim>\<open>int\<close> of it is a 32-bit word.\<close>

record mallinfo =
  arena :: u32
  ordblks :: u32
  smblks :: u32
  hblks :: u32
  hblkhd :: u32
  usmblks :: u32
  fsmblks :: u32
  uordblks :: u32
  fordblks :: u32
  keepcost :: u32

partial_function (option) info_list :: "umem \<Rightarrow> nat \<Rightarrow> u32 \<Rightarrow> u32 \<Rightarrow> (u32 \<times> u32) option" where
  "info_list m b cnt bytes =
     (if b = 0 then Some (cnt, bytes) else info_list m (bnext m b) (cnt + 1) (bytes + of_nat (bsize m b)))"

fun info_bins :: "umem \<Rightarrow> nat list \<Rightarrow> u32 \<Rightarrow> u32 \<Rightarrow> (u32 \<times> u32) option" where
  "info_bins m [] cnt bytes = Some (cnt, bytes)"
| "info_bins m (b # bs) cnt bytes =
     do { (cnt1, bytes1) \<leftarrow> info_list m b cnt bytes; info_bins m bs cnt1 bytes1 }"

partial_function (option) info_segs :: "umem \<Rightarrow> nat \<Rightarrow> u32 \<Rightarrow> u32 option" where
  "info_segs m s u = (if s = 0 then Some u else info_segs m (seg_next m s) (u - of_nat (SEG_HDR + 4)))"

definition mallinfo :: "heap \<Rightarrow> mallinfo option" where
  "mallinfo h =
     do { (cnt, bytes) \<leftarrow> info_bins (hmem h) (bins h) 0 0;
          u \<leftarrow> info_segs (hmem h) (segments h) (arena_bytes h - bytes);
          Some \<lparr>arena = arena_bytes h, ordblks = cnt, smblks = 0, hblks = mmap_count h, hblkhd = mmap_bytes h,
                usmblks = 0, fsmblks = 0, uordblks = u, fordblks = bytes, keepcost = 0\<rparr> }"

end
