(* ===== verification/MallocLayout.thy ===== *)
theory MallocLayout
  imports Malloc
begin

text \<open>
  The layout of a heap of \<^verbatim>\<open>lib/malloc.c\<close> and the operations on its free lists.  A ghost map gives every
  block its size and state; the invariant \<open>heap_inv\<close> says that the blocks tile the segments, that
  headers, footers and previous-in-use bits in memory agree with the map, and that each list links
  exactly the free blocks of its sizes.  A block in the hands of an operation is a hole: it is on no
  list and its tags may be wrong.  \<open>unlink_free\<close>, \<open>make_free\<close> and \<open>coalesce\<close> are shown to move between
  such states without touching a byte of the program's blocks.
\<close>

section \<open>Headers as numbers\<close>

text \<open>A header word holds a size that is a multiple of 8, the block's own flag and the flag of the
  block before it.\<close>

definition hdr :: "nat \<Rightarrow> bool \<Rightarrow> bool \<Rightarrow> u32" where
  "hdr n u p = of_nat (n + of_bool u + 2 * of_bool p)"

lemma bit_mult8:
  assumes "n mod 8 = 0" and "bit (n :: nat) k"
  shows "3 \<le> k"
proof (rule ccontr)
  assume "\<not> 3 \<le> k"
  moreover have "take_bit 3 n = 0" using assms(1) by (simp add: take_bit_eq_mod)
  ultimately show False using assms(2) by (metis bit_0_eq bit_take_bit_iff bot_apply bot_bool_def not_le)
qed

lemma bit_flagged:
  assumes "n mod 8 = 0"
  shows "bit (n + of_bool u + 2 * of_bool p :: nat) k \<longleftrightarrow> k = 0 \<and> u \<or> k = Suc 0 \<and> p \<or> 3 \<le> k \<and> bit n k"
proof -
  obtain q where n: "n = 8 * q" using assms by auto
  consider "k = 0" | "k = 1" | j where "k = Suc (Suc j)" by (metis One_nat_def not0_implies_Suc)
  then show ?thesis
  proof cases
    case (3 j)
    have "x div 2 ^ k = x div 4 div 2 ^ j" for x :: nat by (simp add: 3 div_mult2_eq [symmetric])
    moreover have "(n + of_bool u + 2 * of_bool p) div 4 = n div 4" by (auto simp: n)
    ultimately have "bit (n + of_bool u + 2 * of_bool p) k = bit n k" by (simp only: bit_iff_odd)
    then show ?thesis using 3 bit_mult8 [OF assms, of k] by auto
  qed (auto simp: n bit_iff_odd)
qed

lemma bit_hdr:
  assumes "n mod 8 = 0"
  shows "bit (hdr n u p) k \<longleftrightarrow> k = 0 \<and> u \<or> k = Suc 0 \<and> p \<or> 3 \<le> k \<and> k < 32 \<and> bit n k"
proof -
  have "bit (hdr n u p) k \<longleftrightarrow> k < 32 \<and> bit (n + of_bool u + 2 * of_bool p) k"
    unfolding hdr_def by (simp only: bit_of_nat_iff possible_bit_word) simp
  then show ?thesis using bit_flagged [OF assms] by auto
qed

lemma bit_size: "n mod 8 = 0 \<Longrightarrow> bit (of_nat n :: u32) k \<longleftrightarrow> 3 \<le> k \<and> k < 32 \<and> bit n k"
  using bit_hdr [of n False False k] by (simp add: hdr_def)

lemma flag_bits:
  "bit INUSE k \<longleftrightarrow> k = 0" "bit PREV_INUSE k \<longleftrightarrow> k = Suc 0" "bit MMAPPED k \<longleftrightarrow> k = 2"
  "bit FLAGS k \<longleftrightarrow> k < 3"
proof -
  have e: "bit (2 ^ j :: u32) k \<longleftrightarrow> k = j" if "j < 32" for j using that by (auto simp: bit_exp_iff)
  show "bit INUSE k \<longleftrightarrow> k = 0" using e [of 0] by (simp add: malloc_consts)
  show "bit PREV_INUSE k \<longleftrightarrow> k = Suc 0" using e [of 1] by (simp add: malloc_consts)
  show "bit MMAPPED k \<longleftrightarrow> k = 2" using e [of 2] by (simp add: malloc_consts)
  have f: "FLAGS = mask 3" unfolding FLAGS_def by code_simp
  show "bit FLAGS k \<longleftrightarrow> k < 3" unfolding f by (auto simp: bit_mask_iff)
qed

lemmas hdr_bits = bit_or_iff bit_and_iff bit_not_iff possible_bit_word flag_bits

lemma word_0_bits: "w = 0 \<longleftrightarrow> (\<forall>k. \<not> bit w k)" for w :: u32
  by (metis bit_0_eq bot_apply bot_bool_def bit_word_eqI)

lemma hdr_eqs:
  assumes n: "n mod 8 = 0"
  shows "hdr n u p OR PREV_INUSE = hdr n u True"
    and "hdr n u p AND NOT PREV_INUSE = hdr n u False"
    and "hdr n u p AND NOT INUSE = hdr n False p"
    and "of_nat n OR (w AND PREV_INUSE) = hdr n False (w AND PREV_INUSE \<noteq> 0)"
    and "of_nat n OR INUSE OR (w AND PREV_INUSE) = hdr n True (w AND PREV_INUSE \<noteq> 0)"
    and "of_nat n OR PREV_INUSE = hdr n False True"
    and "hdr n u p AND NOT FLAGS = of_nat n"
  by (rule bit_word_eqI; auto simp: hdr_bits word_0_bits bit_hdr [OF n] bit_size [OF n])+

lemma hdr_flags:
  assumes n: "n mod 8 = 0"
  shows "hdr n u p AND INUSE \<noteq> 0 \<longleftrightarrow> u" and "hdr n u p AND PREV_INUSE \<noteq> 0 \<longleftrightarrow> p"
    and "hdr n u p AND MMAPPED = 0"
  unfolding word_0_bits by (auto simp: hdr_bits bit_hdr [OF n])

lemma hdr_consts: "PREV_INUSE = hdr 0 False True" "INUSE = hdr 0 True False"
  by (simp_all add: hdr_def malloc_consts)

lemma hdr_add: "hdr n u p + of_nat k = hdr (n + k) u p"
  by (simp add: hdr_def)

text \<open>What the code reads from a header.\<close>

lemma hdr_reads:
  assumes "ld32 m b = hdr n u p" and "n mod 8 = 0" and "n < 4294967296"
  shows "bsize m b = n" and "inuse m b = u" and "prev_inuse m b = p" and "\<not> mmapped m b"
    and "next_block m b = b + n" and "footer m b = b + n - 4"
  using assms(1,3) hdr_eqs(7) [OF assms(2)] hdr_flags [OF assms(2)]
  by (simp_all add: bsize_def inuse_def prev_inuse_def mmapped_def next_block_def footer_def)

lemma set_prev_inuse_hdr:
  assumes "ld32 m b = hdr n u p" and "n mod 8 = 0"
  shows "set_prev_inuse b on m = st32 b (hdr n u on) m"
  using assms(1) hdr_eqs(1,2) [OF assms(2)] by (simp add: set_prev_inuse_def)

text \<open>Addresses that are 4 modulo 8, as all headers are.\<close>

lemma at4_ex:
  assumes "x mod 8 = (4::nat)"
  obtains j where "x = 8 * j + 4"
  using that [of "x div 8"] mult_div_mod_eq [of 8 x] assms by simp

lemma at4_simps:
  assumes "x mod 8 = (4 :: nat)"
  shows "x mod 4 = 0" "(x + 4) mod 8 = 0" "(x + 8) mod 8 = 4" "(x + 4) mod 4 = 0" "(x + 8) mod 4 = 0" "x \<noteq> 0"
proof -
  obtain j where "x = 8 * j + 4" using assms by (rule at4_ex)
  then show "x mod 4 = 0" "(x + 4) mod 8 = 0" "(x + 8) mod 8 = 4" "(x + 4) mod 4 = 0" "(x + 8) mod 4 = 0" "x \<noteq> 0"
    by (simp_all add: mod_simps)
qed

lemma at4_ne: 
  assumes "x mod 8 = (4 :: nat)" and "y mod 8 = 4" shows "x + 4 \<noteq> y \<and> x + 8 \<noteq> y + 4 \<and> x + 4 \<noteq> y + 8"
  using at4_simps [OF assms(1)] at4_simps [OF assms(2)] assms by (metis zero_neq_numeral)
lemma at4_apart:
  assumes "x mod 8 = (4 :: nat)" and "y mod 8 = 4" and "x \<noteq> y"
  shows "x + 8 \<le> y \<or> y + 8 \<le> x"
proof -
  obtain i j where "x = 8 * i + 4" "y = 8 * j + 4" using assms(1,2) at4_ex by metis
  moreover from this have "i < j \<or> j < i" using assms(3) by auto
  ultimately show ?thesis by linarith
qed

lemma word_of_link:
  assumes "w mod 4 = 0" "x mod 8 = (4 :: nat)" "x < w" "w < x + 12"
  shows "w = x + 4 \<or> w = x + 8"
proof -
  obtain i where i: "w = 4 * i" using assms(1) by auto
  obtain j where j: "x = 8 * j + 4" using assms(2) by (rule at4_ex)
  have "i = 2 * j + 2 \<or> i = 2 * j + 3" using assms(3,4) i j by linarith
  then show ?thesis using i j by auto
qed

section \<open>The layout of a heap\<close>

text \<open>
  What a heap looks like, apart from the bytes: the blocks by the address of their header, with size
  and state, the epilogues as used blocks of size 0, and the segments, newest first.  \<open>Hole\<close> is the
  state of the one block that an operation has taken out of the lists and not yet put back.
\<close>

datatype bstate = Used | Free | Hole

type_synonym blocks = "nat \<rightharpoonup> nat \<times> bstate"
type_synonym segs = "(nat \<times> nat) list"

definition in_seg :: "segs \<Rightarrow> nat \<Rightarrow> nat \<Rightarrow> bool" where
  "in_seg S lo hi \<longleftrightarrow> (\<exists>(s, len)\<in>set S. s + 12 \<le> lo \<and> hi + 4 \<le> s + len)"

definition seg_end :: "segs \<Rightarrow> nat \<Rightarrow> bool" where
  "seg_end S a \<longleftrightarrow> (\<exists>(s, len)\<in>set S. a + 4 = s + len)"

definition blk_ok :: "blocks \<Rightarrow> segs \<Rightarrow> nat \<Rightarrow> nat \<Rightarrow> bstate \<Rightarrow> bool" where
  "blk_ok B S a n st \<longleftrightarrow> a mod 8 = 4 \<and> n mod 8 = 0 \<and> in_seg S a (a + n) \<and>
     (if n = 0 then st = Used \<and> seg_end S a else 16 \<le> n \<and> a + n \<in> dom B)"

definition tiles :: "blocks \<Rightarrow> segs \<Rightarrow> bool" where
  "tiles B S \<longleftrightarrow>
     (\<forall>a n st. B a = Some (n, st) \<longrightarrow> blk_ok B S a n st) \<and>
     (\<forall>a n st a' n' st'. B a = Some (n, st) \<longrightarrow> B a' = Some (n', st') \<longrightarrow> a < a' \<longrightarrow> a + n \<le> a') \<and>
     (\<forall>(s, len)\<in>set S. s + 12 \<in> dom B \<and> B (s + len - 4) = Some (0, Used))"

definition seg_ok :: "nat \<Rightarrow> nat \<Rightarrow> segs \<Rightarrow> bool" where
  "seg_ok lo hi S \<longleftrightarrow>
     (\<forall>(s, len)\<in>set S. 0 < s \<and> s mod 8 = 0 \<and> lo \<le> s \<and> s + len \<le> hi \<and> len mod 4096 = 0 \<and> 0 < len) \<and>
     sorted_wrt (\<lambda>(s, _) (s', len'). s' + len' \<le> s) S"

fun seg_chain :: "umem \<Rightarrow> nat \<Rightarrow> segs \<Rightarrow> bool" where
  "seg_chain m p [] \<longleftrightarrow> p = 0"
| "seg_chain m p ((s, len) # S) \<longleftrightarrow> p = s \<and> seg_len m s = len \<and> seg_chain m (seg_next m s) S"

definition before :: "bstate \<Rightarrow> blocks \<Rightarrow> nat \<Rightarrow> bool" where
  "before st B a \<longleftrightarrow> (\<exists>p n. B p = Some (n, st) \<and> p + n = a)"

text \<open>The boundary tags: headers, the previous-in-use bits, and the footers of free blocks, no two of
  which are neighbours.  The header of a hole and the bit of the block after it are not yet right.\<close>

definition tags :: "umem \<Rightarrow> blocks \<Rightarrow> bool" where
  "tags m B \<longleftrightarrow>
     (\<forall>a n st. B a = Some (n, st) \<longrightarrow>
        (st \<noteq> Hole \<longrightarrow> (\<exists>p. ld32 m a = hdr n (st = Used) p)) \<and>
        (\<not> before Hole B a \<longrightarrow> prev_inuse m a = (\<not> before Free B a)) \<and>
        (st = Free \<longrightarrow> ld32 m (a + n - 4) = of_nat n \<and> (\<forall>k. B (a + n) \<noteq> Some (k, Free))))"

fun dll :: "umem \<Rightarrow> nat \<Rightarrow> nat \<Rightarrow> nat list \<Rightarrow> bool" where
  "dll m q p [] \<longleftrightarrow> p = 0"
| "dll m q p (x # xs) \<longleftrightarrow> p = x \<and> bprev m x = q \<and> dll m x (bnext m x) xs"

definition listed :: "umem \<Rightarrow> nat list \<Rightarrow> blocks \<Rightarrow> (nat \<Rightarrow> nat list) \<Rightarrow> bool" where
  "listed m bs B L \<longleftrightarrow> length bs = NBINS \<and>
     (\<forall>i<NBINS. distinct (L i) \<and> dll m 0 (bs ! i) (L i) \<and>
        set (L i) = {a. \<exists>n. B a = Some (n, Free) \<and> bin_of n = i})"

text \<open>The blocks that are mappings of their own.\<close>

definition mapped_ok :: "heap \<Rightarrow> (nat \<times> nat) set \<Rightarrow> bool" where
  "mapped_ok h MM \<longleftrightarrow> MM \<subseteq> set (maps h) \<and>
     (\<forall>(a, len)\<in>MM. a mod 4096 = 0 \<and> len mod 4096 = 0 \<and> ld32 (hmem h) (a + 4) = of_nat (len - 3)) \<and>
     (\<forall>(a, len)\<in>set (maps h). 0 < a \<and> 0 < len \<and> kbrk h \<le> a \<and> a + len \<le> USER_BRK_LIMIT) \<and>
     sorted_wrt (\<lambda>(a, n) (a', n'). a + n \<le> a' \<or> a' + n' \<le> a) (maps h)"

definition sys_wf :: "heap \<Rightarrow> bool" where
  "sys_wf h \<longleftrightarrow> (cur_brk h = 0 \<or> cur_brk h = kbrk h) \<and> 0 < kbrk_start h \<and> kbrk_start h \<le> kbrk h \<and>
     kbrk h \<le> USER_BRK_LIMIT"

definition heap_inv :: "heap \<Rightarrow> blocks \<Rightarrow> segs \<Rightarrow> (nat \<Rightarrow> nat list) \<Rightarrow> (nat \<times> nat) set \<Rightarrow> bool" where
  "heap_inv h B S L MM \<longleftrightarrow> tiles B S \<and> seg_ok (kbrk_start h) (kbrk h) S \<and> seg_chain (hmem h) (segments h) S \<and>
     tags (hmem h) B \<and> listed (hmem h) (bins h) B L \<and> mapped_ok h MM \<and> sys_wf h"

text \<open>The blocks the program holds: payload address and room, four bytes less than the block's own size.\<close>

definition live :: "blocks \<Rightarrow> (nat \<times> nat) set \<Rightarrow> (nat \<times> nat) set" where
  "live B MM = {(a + 4, n - 4) |a n. B a = Some (n, Used) \<and> n \<noteq> 0} \<union> {(a + 8, len - 12) |a len. (a, len) \<in> MM}"

definition heap_ok :: "heap \<Rightarrow> (nat \<times> nat) set \<Rightarrow> bool" where
  "heap_ok h A \<longleftrightarrow> (\<exists>B S L MM. heap_inv h B S L MM \<and> (\<forall>a n. B a \<noteq> Some (n, Hole)) \<and> A = live B MM)"

subsection \<open>Geometry\<close>

lemma in_seg_mono: "in_seg S lo hi \<Longrightarrow> lo \<le> lo' \<Longrightarrow> hi' \<le> hi \<Longrightarrow> in_seg S lo' hi'"
  unfolding in_seg_def by (elim bexE, rule bexI) auto

lemma tiles_blk: "tiles B S \<Longrightarrow> B a = Some (n, st) \<Longrightarrow> blk_ok B S a n st"
  unfolding tiles_def by blast

lemma tilesD:
  assumes "tiles B S" and "B a = Some (n, st)"
  shows "a mod 8 = 4" and "n mod 8 = 0" and "n \<noteq> 0 \<Longrightarrow> 16 \<le> n" and "n \<noteq> 0 \<Longrightarrow> a + n \<in> dom B"
    and "n = 0 \<Longrightarrow> st = Used" and "\<exists>(s, len)\<in>set S. s + 12 \<le> a \<and> a + n + 4 \<le> s + len"
    and "n = 0 \<Longrightarrow> seg_end S a" and "in_seg S a (a + n)"
  using tiles_blk [OF assms] unfolding blk_ok_def in_seg_def by (auto split: if_splits)

lemma tiles_apart: "tiles B S \<Longrightarrow> B a = Some (n, st) \<Longrightarrow> B a' = Some (n', st') \<Longrightarrow> a < a' \<Longrightarrow> a + n \<le> a'"
  unfolding tiles_def by blast

lemma tilesI:
  assumes "\<And>a n st. B a = Some (n, st) \<Longrightarrow> blk_ok B S a n st"
    and "\<And>a n st a' n' st'. B a = Some (n, st) \<Longrightarrow> B a' = Some (n', st') \<Longrightarrow> a < a' \<Longrightarrow> a + n \<le> a'"
    and "\<And>s len. (s, len) \<in> set S \<Longrightarrow> s + 12 \<in> dom B \<and> B (s + len - 4) = Some (0, Used)"
  shows "tiles B S"
  using assms unfolding tiles_def by blast

lemma tiles_seg: "tiles B S \<Longrightarrow> (s, len) \<in> set S \<Longrightarrow> s + 12 \<in> dom B \<and> B (s + len - 4) = Some (0, Used)"
  unfolding tiles_def by auto

text \<open>Two blocks never overlap, headers included.\<close>

lemma tiles_disjoint:
  assumes "tiles B S" and "B a = Some (n, st)" and "B b = Some (k, su)" and "a \<noteq> b"
  shows "a + n \<le> b \<and> (a + 4 \<le> b) \<or> b + k \<le> a \<and> b + 4 \<le> a"
proof -
  have "a mod 8 = 4" "b mod 8 = 4" using assms(2,3) tilesD(1) [OF assms(1)] by blast+
  then have "a + 4 \<le> b \<or> b + 4 \<le> a" using assms(4) at4_apart [of a b] by linarith
  then show ?thesis
    using tiles_apart [OF assms(1-3)] tiles_apart [OF assms(1,3,2)] by linarith
qed

lemma seg_okD:
  assumes "seg_ok lo hi S" and "(s, len) \<in> set S"
  shows "0 < s" "s mod 8 = 0" "lo \<le> s" "s + len \<le> hi" "len mod 4096 = 0" "4096 \<le> len"
proof -
  show l: "0 < s" "s mod 8 = 0" "lo \<le> s" "s + len \<le> hi" "len mod 4096 = 0"
    using assms unfolding seg_ok_def by auto
  have "0 < len" using assms unfolding seg_ok_def by auto
  then show "4096 \<le> len" using l(5) by (intro dvd_imp_le) auto
qed

lemma seg_disjoint:
  assumes "seg_ok lo hi S" and "(s, len) \<in> set S" and "(s', len') \<in> set S" and "(s, len) \<noteq> (s', len')"
  shows "s' + len' \<le> s \<or> s + len \<le> s'"
proof -
  have "sorted_wrt (\<lambda>(s, _) (s', len'). s' + len' \<le> s) S" using assms(1) by (simp add: seg_ok_def)
  then show ?thesis using assms(2-4)
    by (induction S) auto
qed

lemma blk_seg_apart:
  assumes "tiles B S" and "seg_ok lo hi S" and "B a = Some (n, st)" and "(s, len) \<in> set S"
  shows "a + n + 4 \<le> s \<or> s + 12 \<le> a \<and> a + n + 4 \<le> s + len \<or> s + len + 12 \<le> a"
proof -
  obtain s' len' where s': "(s', len') \<in> set S" "s' + 12 \<le> a" "a + n + 4 \<le> s' + len'"
    using tilesD(6) [OF assms(1,3)] by auto
  have "(s, len) = (s', len') \<or> s' + len' \<le> s \<or> s + len \<le> s'"
    using seg_disjoint [OF assms(2,4) s'(1)] by blast
  moreover have "12 \<le> len" using seg_okD(6) [OF assms(2,4)] by simp
  ultimately show ?thesis using s' by auto
qed

subsection \<open>Relabelling, splitting and joining blocks\<close>

lemma tiles_state:
  assumes t: "tiles B S" and b: "B b = Some (n, st)" and n: "n \<noteq> 0"
  shows "tiles (B(b \<mapsto> (n, st'))) S"
proof (rule tilesI)
  show "blk_ok (B(b \<mapsto> (n, st'))) S a k su" if "(B(b \<mapsto> (n, st'))) a = Some (k, su)" for a k su
    using tiles_blk [OF t b] tiles_blk [OF t, of a k su] that n by (cases "a = b") (auto simp: blk_ok_def)
  show "a + k \<le> a'" if "(B(b \<mapsto> (n, st'))) a = Some (k, su)" "(B(b \<mapsto> (n, st'))) a' = Some (k', su')" "a < a'" for a k su a' k' su'
    using that tiles_apart [OF t b] tiles_apart [OF t _ b] tiles_apart [OF t, of a k su a'] by (auto split: if_splits)
  show "s + 12 \<in> dom (B(b \<mapsto> (n, st'))) \<and> (B(b \<mapsto> (n, st'))) (s + len - 4) = Some (0, Used)"
    if "(s, len) \<in> set S" for s len
    using tiles_seg [OF t that] b n by auto
qed

lemma tiles_split:
  assumes t: "tiles B S" and b: "B b = Some (n, st)" and k: "16 \<le> k" "k mod 8 = 0" "k + 16 \<le> n"
  shows "tiles (B(b \<mapsto> (k, s1), b + k \<mapsto> (n - k, s2))) S" (is "tiles ?B S")
proof (rule tilesI)
  note bb = tiles_blk [OF t b]
  have n: "(n - k) mod 8 = 0" "(b + k) mod 8 = 4"
    using bb k by (auto simp: blk_ok_def mod_eq_0_iff_dvd mod_add_right_eq [of b k 8, symmetric])
  have fresh: "B (b + k) = None" using tiles_apart [OF t b, of "b + k"] k by (cases "B (b + k)") auto
  show "blk_ok ?B S a j su" if a: "?B a = Some (j, su)" for a j su
  proof -
    consider "a = b + k" "j = n - k" | "a = b" "j = k" | "a \<noteq> b" "B a = Some (j, su)"
      using a k by (auto split: if_splits)
    then show ?thesis
    proof cases
      case 1
      then show ?thesis using bb n k in_seg_mono [of S b "b + n" "b + k" "b + n"] by (auto simp: blk_ok_def)
    next
      case 2
      then show ?thesis using bb k in_seg_mono [of S b "b + n" b "b + k"] by (auto simp: blk_ok_def)
    next
      case 3
      then show ?thesis using tiles_blk [OF t 3(2)] by (auto simp: blk_ok_def)
    qed
  qed
  show "a + j \<le> a'" if "?B a = Some (j, su)" "?B a' = Some (j', su')" "a < a'" for a j su a' j' su'
    using that tiles_apart [OF t b, of a' j' su'] tiles_apart [OF t _ b, of a j su] tiles_apart [OF t, of a j su a' j' su']
      tiles_apart [OF t b, of a j su] k
    by (cases "a = b + k"; cases a b rule: linorder_cases; cases "a' = b + k"; cases "a' = b") auto
  show "s + 12 \<in> dom ?B \<and> ?B (s + len - 4) = Some (0, Used)" if "(s, len) \<in> set S" for s len
    using tiles_seg [OF t that] b k fresh by auto
qed

lemma tiles_merge:
  assumes t: "tiles B S" and g: "seg_ok lo hi S" and b: "B b = Some (n, st)" and c: "B (b + n) = Some (k, su)"
    and nk: "n \<noteq> 0" "k \<noteq> 0"
  shows "tiles ((B(b + n := None))(b \<mapsto> (n + k, sv))) S" (is "tiles ?B S")
proof (rule tilesI)
  note bb = tiles_blk [OF t b] and cc = tiles_blk [OF t c]
  obtain s len where s: "(s, len) \<in> set S" "s + 12 \<le> b" "b + n + 4 \<le> s + len" using tilesD(6) [OF t b] by auto
  have "in_seg S b (b + (n + k))"
    using blk_seg_apart [OF t g c s(1)] s nk unfolding in_seg_def by (intro bexI [OF _ s(1)]) auto
  then show "blk_ok ?B S a j sw" if a: "?B a = Some (j, sw)" for a j sw
  proof -
    consider "a = b" "j = n + k" | "a \<noteq> b" "a \<noteq> b + n" "B a = Some (j, sw)" using a by (auto split: if_splits)
    then show ?thesis
    proof cases
      case 1
      then show ?thesis using bb cc nk \<open>in_seg S b (b + (n + k))\<close> by (auto simp: blk_ok_def add.assoc)
    next
      case 2
      have "a + j \<noteq> b + n" if "j \<noteq> 0" using tiles_disjoint [OF t 2(3) b 2(1)] tiles_disjoint [OF t 2(3) c 2(2)] nk that by auto
      then show ?thesis using tiles_blk [OF t 2(3)] by (auto simp: blk_ok_def)
    qed
  qed
  show "a + j \<le> a'" if "?B a = Some (j, sw)" "?B a' = Some (j', sw')" "a < a'" for a j sw a' j' sw'
  proof (cases "a = b")
    case True
    then have a': "B a' = Some (j', sw')" "a' \<noteq> b + n" "j = n + k" using that by (auto split: if_splits)
    then have "b + n \<le> a'" using tiles_apart [OF t b a'(1)] that(3) True by simp
    then show ?thesis using tiles_apart [OF t c a'(1)] a'(2,3) True by simp
  next
    case False
    then have a: "B a = Some (j, sw)" using that(1) by (auto split: if_splits)
    show ?thesis
      using tiles_apart [OF t a b] tiles_apart [OF t a, of a' j' sw'] that(2,3) by (cases "a' = b") (auto split: if_splits)
  qed
  show "s + 12 \<in> dom ?B \<and> ?B (s + len - 4) = Some (0, Used)" if "(s, len) \<in> set S" for s len
  proof -
    have "s + 12 \<noteq> b + n" using blk_seg_apart [OF t g b that] nk(1) by linarith
    moreover have "s + len - 4 \<noteq> b" "s + len - 4 \<noteq> b + n" using tiles_seg [OF t that] b c nk by auto
    ultimately show ?thesis using tiles_seg [OF t that] b by auto
  qed
qed

subsection \<open>What each part of the invariant reads\<close>

lemma prev_inuse_cong: "ld32 m' a = ld32 m a \<Longrightarrow> prev_inuse m' a = prev_inuse m a"
  by (simp add: prev_inuse_def)

lemma tags_cong:
  assumes "tags m B" and "\<And>a. a \<in> dom B \<Longrightarrow> ld32 m' a = ld32 m a"
    and "\<And>a n. B a = Some (n, Free) \<Longrightarrow> ld32 m' (a + n - 4) = ld32 m (a + n - 4)"
  shows "tags m' B"
  using assms(1) unfolding tags_def by (auto simp: assms(2,3) prev_inuse_cong [OF assms(2)] domIff)

lemma dll_cong:
  "(\<And>x. x \<in> set xs \<Longrightarrow> bnext m' x = bnext m x \<and> bprev m' x = bprev m x) \<Longrightarrow> dll m' q p xs = dll m q p xs"
  by (induction xs arbitrary: q p) auto

lemma seg_chain_cong:
  "(\<And>s. s \<in> fst ` set S \<Longrightarrow> seg_len m' s = seg_len m s \<and> seg_next m' s = seg_next m s) \<Longrightarrow>
     seg_chain m' p S = seg_chain m p S"
  by (induction S arbitrary: p) auto

lemma mapped_ok_cong:
  assumes "mapped_ok h MM" and "\<And>a len. (a, len) \<in> MM \<Longrightarrow> ld32 (hmem h') (a + 4) = ld32 (hmem h) (a + 4)"
    and "maps h' = maps h" and "kbrk h' \<le> kbrk h"
  shows "mapped_ok h' MM"
  using assms unfolding mapped_ok_def by fastforce

lemma listed_cong:
  assumes "listed m bs B L" and "\<And>a n. B a = Some (n, Free) \<Longrightarrow> ld32 m' (a + 4) = ld32 m (a + 4) \<and> ld32 m' (a + 8) = ld32 m (a + 8)"
  shows "listed m' bs B L"
proof -
  have "dll m' 0 (bs ! i) (L i) = dll m 0 (bs ! i) (L i)" if "i < NBINS" for i
    using assms that unfolding listed_def by (intro dll_cong) (auto simp: bnext_def bprev_def)
  then show ?thesis using assms(1) unfolding listed_def by simp
qed

subsection \<open>Doubly linked lists\<close>

lemma bnext_less [simp]: "bnext m x < 4294967296" "bprev m x < 4294967296"
  by (simp_all add: bnext_def bprev_def)

lemma dll_links:
  "dll m q p (xs @ b # ys) \<Longrightarrow> bprev m b = last (q # xs) \<and> bnext m b = (if ys = [] then 0 else hd ys)"
proof (induction xs arbitrary: q p)
  case Nil
  then show ?case by (cases ys) auto
qed simp

lemma dll_remove:
  assumes "dll m q p (xs @ b # ys)" and "distinct (xs @ b # ys)"
    and "\<And>x. x \<in> set (xs @ ys) \<Longrightarrow> bnext m' x = (if xs \<noteq> [] \<and> x = last xs then bnext m b else bnext m x)"
    and "\<And>x. x \<in> set (xs @ ys) \<Longrightarrow> bprev m' x = (if ys \<noteq> [] \<and> x = hd ys then bprev m b else bprev m x)"
  shows "dll m' q (if xs = [] then bnext m b else p) (xs @ ys)"
  using assms
proof (induction xs arbitrary: q p)
  case Nil
  show ?case
  proof (cases ys)
    case (Cons y zs)
    have "dll m' y (bnext m y) zs = dll m y (bnext m y) zs"
      using Nil.prems(2-4) Cons by (intro dll_cong) auto
    then show ?thesis using Nil.prems Cons by simp
  qed (use Nil.prems in simp)
next
  case (Cons x xs)
  have last: "last (x # xs) \<noteq> x" if "xs \<noteq> []" using Cons.prems(2) that by auto
  have "dll m' x (if xs = [] then bnext m b else bnext m x) (xs @ ys)"
  proof (rule Cons.IH)
    show "dll m x (bnext m x) (xs @ b # ys)" "distinct (xs @ b # ys)" using Cons.prems(1,2) by auto
    show "bnext m' y = (if xs \<noteq> [] \<and> y = last xs then bnext m b else bnext m y)" if "y \<in> set (xs @ ys)" for y
      using Cons.prems(2) Cons.prems(3) [of y] that by (auto split: if_splits)
    show "bprev m' y = (if ys \<noteq> [] \<and> y = hd ys then bprev m b else bprev m y)" if "y \<in> set (xs @ ys)" for y
      using Cons.prems(4) [of y] that by auto
  qed
  moreover have "bnext m' x = (if xs = [] then bnext m b else bnext m x)"
    using Cons.prems(3) [of x] last by auto
  moreover have "bprev m' x = q"
    using Cons.prems(1,2) Cons.prems(4) [of x] by auto
  ultimately show ?case using Cons.prems(1) by simp
qed

lemma dll_push:
  assumes "dll m 0 p xs" and "b \<notin> set xs" and "bprev m' b = 0" and "bnext m' b = p"
    and "\<And>x. x \<in> set xs \<Longrightarrow> bnext m' x = bnext m x"
    and "\<And>x. x \<in> set xs \<Longrightarrow> bprev m' x = (if x = p then b else bprev m x)" and "distinct xs"
  shows "dll m' 0 b (b # xs)"
proof (cases xs)
  case (Cons y ys)
  have "dll m' y (bnext m y) ys = dll m y (bnext m y) ys"
    using assms Cons by (intro dll_cong) auto
  then show ?thesis using assms Cons by simp
qed (use assms in simp)

subsection \<open>Taking a block off its list\<close>

text \<open>The list links of the free blocks other than \<open>b\<close>: the only bytes that \<open>unlink_free b\<close> writes.\<close>

definition links :: "blocks \<Rightarrow> nat \<Rightarrow> nat set" where
  "links B b = {y. \<exists>x n. x \<noteq> b \<and> B x = Some (n, Free) \<and> x + 4 \<le> y \<and> y < x + 12}"

lemma ld32_off_links:
  assumes "\<And>y. y \<notin> links B b \<Longrightarrow> m' y = m y" and "w mod 4 = 0"
    and "\<And>x n. B x = Some (n, Free) \<Longrightarrow> x mod 8 = 4"
    and "\<And>x n. B x = Some (n, Free) \<Longrightarrow> x \<noteq> b \<Longrightarrow> w \<noteq> x + 4 \<and> w \<noteq> x + 8"
  shows "ld32 m' w = ld32 m w"
proof (rule ld32_cong)
  fix y
  assume y: "w \<le> y" "y < w + 4"
  have "y \<notin> links B b"
  proof
    assume "y \<in> links B b"
    then obtain x n where x: "x \<noteq> b" "B x = Some (n, Free)" "x + 4 \<le> y" "y < x + 12" by (auto simp: links_def)
    then have "w = x + 4 \<or> w = x + 8" using word_of_link [OF assms(2) assms(3) [OF x(2)]] y assms(2) by linarith
    then show False using assms(4) [OF x(2,1)] by simp
  qed
  then show "m' y = m y" by (rule assms(1))
qed

lemma free_aligned: "tiles B S \<Longrightarrow> B x = Some (n, Free) \<Longrightarrow> x mod 8 = 4 \<and> 16 \<le> n \<and> n mod 8 = 0 \<and> x \<noteq> 0"
  using tilesD(1,2,3,5) [of B S x n Free] by (cases "n = 0") auto

lemma listedD:
  assumes "listed m bs B L" and "i < NBINS"
  shows "length bs = NBINS" "distinct (L i)" "dll m 0 (bs ! i) (L i)"
    "set (L i) = {a. \<exists>n. B a = Some (n, Free) \<and> bin_of n = i}"
  using assms unfolding listed_def by auto

declare bin_loop.simps [simp del]

lemma bin_loop_less: "i < NBINS \<Longrightarrow> bin_loop k i < NBINS"
proof (induction k i rule: bin_loop.induct)
  case (1 k i)
  then show ?case by (cases "k \<noteq> 0 \<and> i < NBINS - 1") (auto simp: bin_loop.simps [of k i])
qed

lemma bin_of_less [simp]: "bin_of n < NBINS"
  unfolding bin_of_def by (rule bin_loop_less) (simp add: NBINS_def)

definition same_env :: "heap \<Rightarrow> heap \<Rightarrow> bool" where
  "same_env h h' \<longleftrightarrow> segments h' = segments h \<and> cur_brk h' = cur_brk h \<and> kbrk_start h' = kbrk_start h \<and>
     kbrk h' = kbrk h \<and> maps h' = maps h"

lemma unlink_writes:
  assumes "dll (hmem h) 0 (bins h ! bin_of n) (xs @ b # ys)" and "distinct (xs @ b # ys)" and "bsize (hmem h) b = n"
    and al: "\<forall>x\<in>set (xs @ b # ys). x mod 8 = 4"
  defines "m' \<equiv> hmem (unlink_free b h)"
  shows "bins (unlink_free b h) = (if xs = [] then (bins h)[bin_of n := bnext (hmem h) b] else bins h)"
    and "same_env h (unlink_free b h)"
    and "\<And>x. x mod 8 = 4 \<Longrightarrow> bnext m' x = (if xs \<noteq> [] \<and> x = last xs then bnext (hmem h) b else bnext (hmem h) x)"
    and "\<And>x. x mod 8 = 4 \<Longrightarrow> bprev m' x = (if ys \<noteq> [] \<and> x = hd ys then bprev (hmem h) b else bprev (hmem h) x)"
    and "\<And>y. (\<And>x. x \<in> set (xs @ ys) \<Longrightarrow> y < x + 4 \<or> x + 12 \<le> y) \<Longrightarrow> m' y = hmem h y"
proof -
  let ?m = "hmem h"
  define m1 where "m1 = (if xs \<noteq> [] then st32 (last xs + 4) (of_nat (bnext ?m b)) ?m else ?m)"
  have lk: "bprev ?m b = last (0 # xs)" "bnext ?m b = (if ys = [] then 0 else hd ys)"
    using dll_links [OF assms(1)] by auto
  have xs0: "xs \<noteq> [] \<Longrightarrow> last xs \<in> set xs" "xs \<noteq> [] \<Longrightarrow> last xs mod 8 = 4" "xs \<noteq> [] \<Longrightarrow> last xs \<noteq> b"
    and ys0: "ys \<noteq> [] \<Longrightarrow> hd ys \<in> set ys" "ys \<noteq> [] \<Longrightarrow> hd ys mod 8 = 4"
    using al assms(2) by (auto intro: last_in_set dest: last_in_set hd_in_set)
  have nz: "xs \<noteq> [] \<Longrightarrow> last xs \<noteq> 0" "ys \<noteq> [] \<Longrightarrow> hd ys \<noteq> 0" using xs0(2) ys0(2) by auto
  have b: "b mod 8 = 4" using al by simp
  have m1: "bnext m1 x = (if xs \<noteq> [] \<and> x = last xs then bnext ?m b else bnext ?m x)" "bprev m1 x = bprev ?m x"
    if "x mod 8 = 4" for x
    using at4_simps [OF that] at4_simps [OF xs0(2)] at4_ne [OF that xs0(2)]
    by (auto simp: m1_def bnext_def bprev_def ld32_st32_aligned)
  have h1: "(if bprev ?m b \<noteq> 0 then h\<lparr>hmem := st32 (bprev ?m b + 4) (of_nat (bnext ?m b)) ?m\<rparr>
      else h\<lparr>bins := (bins h)[bin_of n := bnext ?m b]\<rparr>) =
      h\<lparr>hmem := m1, bins := (if xs = [] then (bins h)[bin_of n := bnext ?m b] else bins h)\<rparr>"
    using lk(1) nz(1) by (simp add: m1_def)
  have m1b: "bnext m1 b = bnext ?m b" "bprev m1 b = bprev ?m b" using m1 [OF b] xs0(3) by auto
  have u: "unlink_free b h = h\<lparr>hmem := (if ys \<noteq> [] then st32 (hd ys + 8) (of_nat (bprev ?m b)) m1 else m1),
      bins := (if xs = [] then (bins h)[bin_of n := bnext ?m b] else bins h)\<rparr>"
    unfolding unlink_free_def Let_def assms(3) h1 using m1b lk(2) nz(2) by simp
  then have m': "m' = (if ys \<noteq> [] then st32 (hd ys + 8) (of_nat (bprev ?m b)) m1 else m1)" by (simp add: m'_def)
  show "bins (unlink_free b h) = (if xs = [] then (bins h)[bin_of n := bnext ?m b] else bins h)" "same_env h (unlink_free b h)"
    by (simp_all add: u same_env_def)
  show "bnext m' x = (if xs \<noteq> [] \<and> x = last xs then bnext ?m b else bnext ?m x)"
    "bprev m' x = (if ys \<noteq> [] \<and> x = hd ys then bprev ?m b else bprev ?m x)" if x: "x mod 8 = 4" for x
    using at4_simps [OF x] at4_simps [OF ys0(2)] at4_ne [OF x ys0(2)] m1 [OF x]
    by (auto simp: m' bnext_def bprev_def ld32_st32_aligned)
  show "m' y = ?m y" if "\<And>x. x \<in> set (xs @ ys) \<Longrightarrow> y < x + 4 \<or> x + 12 \<le> y" for y
    using that [of "last xs"] that [of "hd ys"] xs0(1) ys0(1) by (auto simp: m' m1_def st32_same)
qed

lemma unlink_free_spec:
  assumes t: "tiles B S" and l: "listed (hmem h) (bins h) B L" and b: "B b = Some (n, Free)"
    and sz: "bsize (hmem h) b = n"
  defines "h' \<equiv> unlink_free b h"
  shows "same_env h h'"
    and "y \<notin> links B b \<Longrightarrow> hmem h' y = hmem h y"
    and "w mod 4 = 0 \<Longrightarrow> (\<And>x k. B x = Some (k, Free) \<Longrightarrow> x \<noteq> b \<Longrightarrow> w \<noteq> x + 4 \<and> w \<noteq> x + 8) \<Longrightarrow>
           ld32 (hmem h') w = ld32 (hmem h) w"
    and "listed (hmem h') (bins h') (B(b \<mapsto> (n, Hole))) (L(bin_of n := remove1 b (L (bin_of n))))"
proof -
  let ?i = "bin_of n"
  note li = listedD [OF l bin_of_less [of n]]
  have "b \<in> set (L ?i)" using li(4) b by blast
  then obtain xs ys where L: "L ?i = xs @ b # ys" by (meson split_list)
  have free: "x mod 8 = 4" "B x = Some (k, Free) \<Longrightarrow> x \<noteq> b \<Longrightarrow> y < x + 4 \<or> x + 12 \<le> y \<or> y \<in> links B b"
    if "x \<in> set (L j)" "j < NBINS" for x y j k
    using that listedD(4) [OF l that(2)] free_aligned [OF t] by (auto simp: links_def)
  have d: "distinct (xs @ b # ys)" "dll (hmem h) 0 (bins h ! ?i) (xs @ b # ys)" using li L by auto
  have al: "\<forall>x\<in>set (xs @ b # ys). x mod 8 = 4" using free(1) [of _ ?i] L by auto
  note u = unlink_writes [OF d(2,1) sz al, folded h'_def]
  show "same_env h h'" by (rule u(2))
  show off: "hmem h' y = hmem h y" if "y \<notin> links B b" for y
  proof (rule u(5))
    fix x
    assume x: "x \<in> set (xs @ ys)"
    then obtain k where "B x = Some (k, Free)" "x \<noteq> b" using li(4) L d(1) by auto
    then show "y < x + 4 \<or> x + 12 \<le> y" using free(2) [of x ?i k y] x L that by auto
  qed
  show "ld32 (hmem h') w = ld32 (hmem h) w"
    if "w mod 4 = 0" "\<And>x k. B x = Some (k, Free) \<Longrightarrow> x \<noteq> b \<Longrightarrow> w \<noteq> x + 4 \<and> w \<noteq> x + 8"
    using ld32_off_links [of B b "hmem h'" "hmem h" w] off that free_aligned [OF t] by blast
  show "listed (hmem h') (bins h') (B(b \<mapsto> (n, Hole))) (L(?i := remove1 b (L ?i)))"
    unfolding listed_def
  proof (intro conjI allI impI)
    show "length (bins h') = NBINS" using u(1) li(1) by simp
    fix j
    assume j: "j < NBINS"
    note lj = listedD [OF l j]
    have r: "remove1 b (L ?i) = xs @ ys" using L d(1) by (simp add: remove1_append)
    show "distinct ((L(?i := remove1 b (L ?i))) j)" using lj(2) by auto
    show "set ((L(?i := remove1 b (L ?i))) j) = {a. \<exists>k. (B(b \<mapsto> (n, Hole))) a = Some (k, Free) \<and> bin_of k = j}"
      using lj(4) li(2) b by (auto simp: set_remove1_eq)
    show "dll (hmem h') 0 (bins h' ! j) ((L(?i := remove1 b (L ?i))) j)"
    proof (cases "j = ?i")
      case True
      have "dll (hmem h') 0 (if xs = [] then bnext (hmem h) b else bins h ! ?i) (xs @ ys)"
        using d al u(3,4) by (intro dll_remove) auto
      then show ?thesis using True r u(1) li(1) by (simp split: if_splits)
    next
      case False
      have "x \<notin> set (xs @ b # ys)" if "x \<in> set (L j)" for x
        using lj(4) li(4) False that L by auto
      then have "bnext (hmem h') x = bnext (hmem h) x \<and> bprev (hmem h') x = bprev (hmem h) x" if "x \<in> set (L j)" for x
        using that u(3,4) [OF free(1) [OF that j]] by (auto intro: last_in_set dest: last_in_set hd_in_set)
      then show ?thesis using False lj(3) u(1) dll_cong [of "L j" "hmem h'" "hmem h"] by simp
    qed
  qed
qed

subsection \<open>Blocks stay clear of each other and of everything else\<close>

lemma blk_below:
  assumes "tiles B S" and "seg_ok lo hi S" and "B a = Some (n, st)"
  shows "a + n + 4 \<le> hi" and "lo + 12 \<le> a"
proof -
  obtain s len where s: "(s, len) \<in> set S" "s + 12 \<le> a" "a + n + 4 \<le> s + len"
    using tilesD(6) [OF assms(1,3)] by auto
  then show "a + n + 4 \<le> hi" "lo + 12 \<le> a" using seg_okD(3,4) [OF assms(2) s(1)] by linarith+
qed

lemma not_header_inside: "tiles B S \<Longrightarrow> B a = Some (n, st) \<Longrightarrow> a < x \<Longrightarrow> x < a + n \<Longrightarrow> x \<notin> dom B"
  using tiles_apart [of B S a n st x] by fastforce

lemma heap_invD:
  assumes "heap_inv h B S L MM"
  shows "tiles B S" "seg_ok (kbrk_start h) (kbrk h) S" "seg_chain (hmem h) (segments h) S"
    "tags (hmem h) B" "listed (hmem h) (bins h) B L" "mapped_ok h MM" "sys_wf h"
  using assms unfolding heap_inv_def by blast+

lemma tagsD:
  assumes "tags m B" and "B a = Some (n, st)"
  shows "st \<noteq> Hole \<Longrightarrow> \<exists>p. ld32 m a = hdr n (st = Used) p"
    and "\<not> before Hole B a \<Longrightarrow> prev_inuse m a = (\<not> before Free B a)"
    and "st = Free \<Longrightarrow> ld32 m (a + n - 4) = of_nat n"
    and "st = Free \<Longrightarrow> B (a + n) \<noteq> Some (k, Free)"
  using assms unfolding tags_def by blast+

lemma brk_limit_u32: "sys_wf h \<Longrightarrow> kbrk h < 4294967296"
  by (simp add: sys_wf_def USER_BRK_LIMIT_def)

lemma blk_u32:
  assumes "heap_inv h B S L MM" and "B a = Some (n, st)"
  shows "a < 4294967296" "n < 4294967296" "a + n < 4294967296"
  using blk_below(1) [OF heap_invD(1,2) [OF assms(1)] assms(2)] brk_limit_u32 [OF heap_invD(7) [OF assms(1)]] by linarith+

lemma bin_head:
  assumes "heap_inv h B S L MM" and "i < NBINS" and "bins h ! i \<noteq> 0"
  obtains n where "B (bins h ! i) = Some (n, Free)" and "bin_of n = i" and "bins h ! i \<in> set (L i)"
proof -
  note l = listedD [OF heap_invD(5) [OF assms(1)] assms(2)]
  have "bins h ! i \<in> set (L i)" using l(3) assms(3) by (cases "L i") auto
  then show ?thesis using l(4) that by blast
qed

subsection \<open>Listing a free block\<close>

text \<open>A heap with one hole, between blocks in use: what \<open>make_free\<close> expects.\<close>

definition hole_at :: "blocks \<Rightarrow> nat \<Rightarrow> nat \<Rightarrow> bool" where
  "hole_at B b n \<longleftrightarrow> B b = Some (n, Hole) \<and> (\<forall>a k. B a = Some (k, Hole) \<longrightarrow> a = b)"

lemma hole_atD:
  assumes "hole_at B b n"
  shows "B b = Some (n, Hole)" and "B a = Some (k, Hole) \<Longrightarrow> a = b \<and> k = n"
    and "before Hole B a \<longleftrightarrow> a = b + n"
  using assms unfolding hole_at_def before_def by auto

lemma make_free_ld:
  assumes inv: "heap_inv h B S L MM" and hole: "hole_at B b n" and nx: "B (b + n) = Some (k, Used)"
  defines "m \<equiv> hmem h" and "m' \<equiv> hmem (make_free b n h)" and "hd0 \<equiv> bins h ! bin_of n"
  shows "w mod 4 = 0 \<Longrightarrow> ld32 m' w =
      (if hd0 \<noteq> 0 \<and> w = hd0 + 8 then of_nat b else if w = b + 4 then of_nat hd0 else if w = b + 8 then 0
       else if w = b + n then hdr k True False else if w = b + n - 4 then of_nat n
       else if w = b then hdr n False (prev_inuse m b) else ld32 m w)"
    and "\<not> (b \<le> y \<and> y < b + n + 4) \<Longrightarrow> \<not> (hd0 \<noteq> 0 \<and> hd0 + 8 \<le> y \<and> y < hd0 + 12) \<Longrightarrow> m' y = m y"
    and "bins (make_free b n h) = (bins h)[bin_of n := b]"
    and "same_env h (make_free b n h)"
proof -
  note t = heap_invD(1) [OF inv]
  have b: "B b = Some (n, Hole)" using hole by (simp add: hole_at_def)
  have al: "b mod 8 = 4" "n mod 8 = 0" "16 \<le> n" "n < 4294967296" "(b + n) mod 8 = 4" "k mod 8 = 0" "k < 4294967296"
    using tilesD(1,2,3,5) [OF t b] tilesD(1,2) [OF t nx] blk_u32 [OF inv b] blk_u32 [OF inv nx] by auto
  obtain j where j: "b + n = 8 * j + 4" using al(5) by (rule at4_ex)
  have al4: "b mod 4 = 0" "(b + 4) mod 4 = 0" "(b + 8) mod 4 = 0" "(b + n) mod 4 = 0" "(b + n - 4) mod 4 = 0"
    using at4_simps [OF al(1)] at4_simps(1) [OF al(5)] j by (auto simp: mod_simps)
  have h0: "hd0 \<noteq> 0 \<Longrightarrow> (hd0 + 8) mod 4 = 0"
    using bin_head [OF inv bin_of_less [of n]] free_aligned [OF t] at4_simps(5) unfolding hd0_def by metis
  define m1 where "m1 = st32 b (hdr n False (prev_inuse m b)) m"
  define m2 where "m2 = st32 (b + n - 4) (of_nat n) m1"
  define m3 where "m3 = st32 (b + n) (hdr k True False) m2"
  obtain p where p: "ld32 m (b + n) = hdr k True p" using tagsD(1) [OF heap_invD(4) [OF inv] nx] by (auto simp: m_def)
  have e1: "st32 b (of_nat n OR (ld32 m b AND PREV_INUSE)) m = m1"
    by (simp add: m1_def hdr_eqs(4) [OF al(2)] prev_inuse_def)
  have ne: "b \<noteq> b + n - 4" "b + n \<noteq> b + n - 4" "b + n \<noteq> b" using al(3) by auto
  have r1: "ld32 m1 b = hdr n False (prev_inuse m b)" by (simp add: m1_def)
  have r2: "ld32 m2 b = hdr n False (prev_inuse m b)" using ne al4 r1 by (simp add: m2_def ld32_st32_aligned)
  have r2n: "ld32 m2 (b + n) = hdr k True p" using ne al4 p by (simp add: m2_def m1_def ld32_st32_aligned)
  have e: "footer m1 b = b + n - 4" "next_block m2 b = b + n" "set_prev_inuse (b + n) False m2 = m3"
    using hdr_reads(6) [OF r1 al(2,4)] hdr_reads(5) [OF r2 al(2,4)] set_prev_inuse_hdr [OF r2n al(6)] by (auto simp: m3_def)
  have mf: "make_free b n h = h\<lparr>hmem := (if hd0 \<noteq> 0 then st32 (hd0 + 8) (of_nat b) (st32 (b + 4) (of_nat hd0) (st32 (b + 8) 0 m3))
      else st32 (b + 4) (of_nat hd0) (st32 (b + 8) 0 m3)), bins := (bins h)[bin_of n := b]\<rparr>"
    unfolding make_free_def Let_def m_def [symmetric] e1 hd0_def [symmetric] m2_def [symmetric] e
    by (simp add: m2_def [symmetric])
  have m': "m' = (if hd0 \<noteq> 0 then st32 (hd0 + 8) (of_nat b) (st32 (b + 4) (of_nat hd0) (st32 (b + 8) 0 m3))
      else st32 (b + 4) (of_nat hd0) (st32 (b + 8) 0 m3))" by (simp add: m'_def mf)
  show "bins (make_free b n h) = (bins h)[bin_of n := b]" "same_env h (make_free b n h)"
    by (simp_all add: mf same_env_def)
  show "ld32 m' w = (if hd0 \<noteq> 0 \<and> w = hd0 + 8 then of_nat b else if w = b + 4 then of_nat hd0 else if w = b + 8 then 0
       else if w = b + n then hdr k True False else if w = b + n - 4 then of_nat n
       else if w = b then hdr n False (prev_inuse m b) else ld32 m w)" if "w mod 4 = 0"
    using that al4 h0 by (simp add: m' m3_def m2_def m1_def ld32_st32_aligned)
  show "m' y = m y" if "\<not> (b \<le> y \<and> y < b + n + 4)" "\<not> (hd0 \<noteq> 0 \<and> hd0 + 8 \<le> y \<and> y < hd0 + 12)"
    using that al(3) by (auto simp: m' m3_def m2_def m1_def st32_same)
qed

text \<open>The bytes that belong to the program.\<close>

definition pay :: "blocks \<Rightarrow> nat set" where
  "pay B = {y. \<exists>a n. B a = Some (n, Used) \<and> a + 4 \<le> y \<and> y < a + n}"

lemma pay_apart:
  assumes "tiles B S" and "y \<in> pay B" and "B a = Some (n, st)"
  shows "y < a \<or> a + 4 \<le> y" and "st \<noteq> Used \<Longrightarrow> y < a \<or> a + n \<le> y"
proof -
  obtain c k where c: "B c = Some (k, Used)" "c + 4 \<le> y" "y < c + k" using assms(2) by (auto simp: pay_def)
  have "c = a \<or> c + k \<le> a \<or> a + n \<le> c \<and> a + 4 \<le> c" using tiles_disjoint [OF assms(1) c(1) assms(3)] by blast
  then show "y < a \<or> a + 4 \<le> y" "st \<noteq> Used \<Longrightarrow> y < a \<or> a + n \<le> y" using c assms(3) by auto
qed

lemma before_upd:
  "before st (B(b \<mapsto> (k, s1))) a \<longleftrightarrow> (\<exists>p n. p \<noteq> b \<and> B p = Some (n, st) \<and> p + n = a) \<or> s1 = st \<and> b + k = a"
proof
  assume "(\<exists>p n. p \<noteq> b \<and> B p = Some (n, st) \<and> p + n = a) \<or> s1 = st \<and> b + k = a"
  then show "before st (B(b \<mapsto> (k, s1))) a"
  proof
    assume "\<exists>p n. p \<noteq> b \<and> B p = Some (n, st) \<and> p + n = a"
    then obtain p n where "p \<noteq> b" "B p = Some (n, st)" "p + n = a" by blast
    then show ?thesis unfolding before_def by (intro exI [of _ p] exI [of _ n]) simp
  next
    assume "s1 = st \<and> b + k = a"
    then show ?thesis unfolding before_def by (intro exI [of _ b] exI [of _ k]) simp
  qed
qed (auto simp: before_def split: if_splits)

lemma before_upd_other:
  assumes "B b = Some (n, s0)" and "s0 \<noteq> st"
  shows "before st (B(b \<mapsto> (k, s1))) a \<longleftrightarrow> before st B a \<or> s1 = st \<and> b + k = a"
proof -
  have "p \<noteq> b" if "B p = Some (j, st)" for p j using assms that by auto
  then show ?thesis unfolding before_upd unfolding before_def by blast
qed

lemma same_env_inv: "same_env h h' \<Longrightarrow> sys_wf h' = sys_wf h"
  by (simp add: same_env_def sys_wf_def)

text \<open>Words outside the block at \<open>b\<close> and its successor's header, and other than a link of a free block,
  stay as they are; so the parts of the invariant that do not read them stay true.\<close>

lemma seg_chain_words:
  assumes "\<And>s len w. (s, len) \<in> set S \<Longrightarrow> w = s \<or> w = s + 4 \<Longrightarrow> ld32 m' w = ld32 m w"
  shows "seg_chain m' p S = seg_chain m p S"
proof (rule seg_chain_cong)
  fix s
  assume "s \<in> fst ` set S"
  then obtain len where "(s, len) \<in> set S" by auto
  then show "seg_len m' s = seg_len m s \<and> seg_next m' s = seg_next m s"
    using assms [of s len s] assms [of s len "s + 4"] by (simp add: seg_len_def seg_next_def)
qed

lemma seg_words:
  assumes "tiles B S" and "seg_ok lo hi S" and "(s, len) \<in> set S" and "B a = Some (n, st)"
  shows "a \<le> w \<Longrightarrow> w \<le> a + n \<Longrightarrow> w \<noteq> s \<and> w \<noteq> s + 4"
  using blk_seg_apart [OF assms(1,2,4,3)] by auto

lemma make_free_spec:
  assumes inv: "heap_inv h B S L MM" and hole: "hole_at B b n" and nx: "B (b + n) = Some (k, Used)"
    and pv: "\<not> before Free B b"
  defines "h' \<equiv> make_free b n h"
  shows "heap_inv h' (B(b \<mapsto> (n, Free))) S (L(bin_of n := b # L (bin_of n))) MM"
    and "y \<in> pay B \<or> kbrk h \<le> y \<Longrightarrow> hmem h' y = hmem h y" and "same_env h h'"
proof -
  let ?B = "B(b \<mapsto> (n, Free))" and ?i = "bin_of n" and ?m = "hmem h" and ?m' = "hmem h'"
  define hd0 where "hd0 = bins h ! bin_of n"
  define f where "f = b + n - 4"
  define e where "e = b + n"
  note i = heap_invD [OF inv]
  note mf = make_free_ld [OF inv hole nx, folded h'_def hd0_def, folded f_def e_def]
  note nx = nx [folded e_def]
  show env: "same_env h h'" by (rule mf(4))
  have b: "B b = Some (n, Hole)" using hole by (simp add: hole_at_def)
  have n: "16 \<le> n" "n mod 8 = 0" "b mod 8 = 4" "n \<noteq> 0" using tilesD(1,2,3,5) [OF i(1) b] by auto
  obtain q where q: "b = 8 * q + 4" using n(3) by (rule at4_ex)
  obtain r where r: "n = 8 * r" using n(2) by auto
  have fe: "f mod 8 = 0" "f mod 4 = 0" "e mod 8 = 4" "e mod 4 = 0" "f = e - 4" "e = f + 4" "b + 12 \<le> f"
    using q r n(1) unfolding f_def e_def by (simp_all add: mod_simps)
  have hd: "\<exists>k. B hd0 = Some (k, Free) \<and> 16 \<le> k \<and> hd0 mod 8 = 4 \<and> hd0 \<noteq> b" if "hd0 \<noteq> 0"
    using bin_head [OF inv bin_of_less [of n]] that free_aligned [OF i(1)] b unfolding hd0_def
    by (metis bstate.distinct(5) option.inject prod.inject)
  have apart: "a \<noteq> b \<Longrightarrow> B a = Some (j, st) \<Longrightarrow> a + j \<le> b \<or> e \<le> a" for a j st
    using tiles_disjoint [OF i(1) _ b] unfolding e_def by fastforce
  have t': "tiles ?B S" by (rule tiles_state [OF i(1) b n(4)])
  have hdr_same: "ld32 ?m' a = (if a = e then hdr k True False else if a = b then hdr n False (prev_inuse ?m b) else ld32 ?m a)"
    if a: "a \<in> dom B" for a
  proof -
    have a4: "a mod 8 = 4" using a tilesD(1) [OF i(1)] by auto
    have "\<not> (b < a \<and> a < e)" using not_header_inside [OF i(1) b, of a] a unfolding e_def by blast
    then have "a \<noteq> b + 4" "a \<noteq> f" "a \<noteq> b + 8" using fe(6,7) by linarith+
    moreover have "\<not> (hd0 \<noteq> 0 \<and> a = hd0 + 8)"
      using hd not_header_inside [OF i(1), of hd0 _ Free a] a by fastforce
    ultimately show ?thesis using mf(1) [OF at4_simps(1) [OF a4]] by auto
  qed
  have foot_same: "ld32 ?m' (a + j - 4) = ld32 ?m (a + j - 4)" if a: "B a = Some (j, Free)" for a j
  proof -
    note fa = free_aligned [OF i(1) a]
    define w where "w = a + j - 4"
    obtain p where p: "a = 8 * p + 4" using fa at4_ex by blast
    obtain q where q: "j = 8 * q" using fa by auto
    have al: "w mod 8 = 0" "w mod 4 = 0" "w + 4 = a + j" using p q fa by (simp_all add: mod_simps w_def)
    have "a \<noteq> b" using a b by auto
    then have ab: "a + j \<le> b \<or> e \<le> a" using apart a by blast
    moreover have j: "16 \<le> j" using fa by simp
    ultimately have "w \<noteq> b + 4" "w \<noteq> f" "w \<noteq> b" "w \<noteq> b + 8" using al(3) fe(6,7) by linarith+
    moreover have "w \<noteq> e" using al(1) fe(3) by auto
    moreover have "\<not> (hd0 \<noteq> 0 \<and> w = hd0 + 8)" using al(1) hd at4_simps(3) [of hd0] by auto
    ultimately show ?thesis using mf(1) [OF al(2)] by (auto simp: w_def)
  qed
  have link_same: "bnext ?m' a = bnext ?m a" "bprev ?m' a = (if a = hd0 then b else bprev ?m a)"
    if a: "B a = Some (j, Free)" for a j
  proof -
    note fa = free_aligned [OF i(1) a]
    have a4: "a mod 8 = 4" using fa by simp
    have "a \<noteq> b" using a b by auto
    then have ab: "a + j \<le> b \<or> e \<le> a" using apart a by blast
    moreover have j: "16 \<le> j" using fa by simp
    ultimately have ne: "a + 4 \<noteq> f" "a + 8 \<noteq> b" "a + 8 \<noteq> e" "a + 8 \<noteq> f" using fe(6,7) by linarith+
    have ne1: "a + 8 \<noteq> b + 4" "a + 4 \<noteq> b + 4" "a + 8 \<noteq> b + 8" using \<open>a \<noteq> b\<close> at4_ne [OF a4 n(3)] by auto
    have ne2: "a + 4 \<noteq> b" "a + 4 \<noteq> e" "a + 4 \<noteq> b + 8"
      using at4_ne [OF a4 n(3)] at4_ne [OF a4 fe(3)] by auto
    have ne3: "\<not> (hd0 \<noteq> 0 \<and> a + 4 = hd0 + 8)" "(hd0 \<noteq> 0 \<and> a + 8 = hd0 + 8) = (a = hd0)" using hd at4_ne [OF a4, of hd0] fa by auto
    have "b < 4294967296" using blk_u32 [OF inv b] by simp
    then show "bnext ?m' a = bnext ?m a" "bprev ?m' a = (if a = hd0 then b else bprev ?m a)"
      unfolding bnext_def bprev_def mf(1) [OF at4_simps(4) [OF a4]] mf(1) [OF at4_simps(5) [OF a4]] using ne ne1 ne2 ne3 by auto
  qed
  show bytes: "hmem h' y = hmem h y" if y: "y \<in> pay B \<or> kbrk h \<le> y" for y
  proof (rule mf(2))
    have "y < b \<or> e + 4 \<le> y"
      using pay_apart [OF i(1) _ b, of y] pay_apart [OF i(1) _ nx, of y] blk_below(1) [OF i(1,2) b] y unfolding e_def by auto
    then show "\<not> (b \<le> y \<and> y < e + 4)" by linarith
    show "\<not> (hd0 \<noteq> 0 \<and> hd0 + 8 \<le> y \<and> y < hd0 + 12)"
    proof
      assume a: "hd0 \<noteq> 0 \<and> hd0 + 8 \<le> y \<and> y < hd0 + 12"
      then obtain j where j: "B hd0 = Some (j, Free)" "16 \<le> j" using hd by auto
      show False using pay_apart(2) [OF i(1) _ j(1), of y] blk_below(1) [OF i(1,2) j(1)] y a j(2) by auto
    qed
  qed
  have bf: "before Free ?B a \<longleftrightarrow> before Free B a \<or> a = e" for a using before_upd_other [of B b n Hole Free n Free a] b by (auto simp: e_def)
  have k8: "k mod 8 = 0" "k < 4294967296" "n < 4294967296"
    using tilesD(2) [OF i(1) nx] blk_u32 [OF inv nx] blk_u32 [OF inv b] by auto
  have tags': "tags ?m' ?B"
    unfolding tags_def
  proof (intro allI impI conjI)
    fix a j st
    assume a: "?B a = Some (j, st)"
    then have ad: "a \<in> dom B" using b by (auto split: if_splits)
    show "\<exists>p. ld32 ?m' a = hdr j (st = Used) p" if "st \<noteq> Hole"
      using hdr_same [OF ad] a nx b tagsD(1) [OF i(4), of a j st] that by (auto split: if_splits)
    show "prev_inuse ?m' a = (\<not> before Free ?B a)"
    proof -
      have "prev_inuse ?m a = (\<not> before Free B a)" if "a \<noteq> e"
        using hole_atD(3) [OF hole, of a] tagsD(2) [OF i(4), of a] ad that by (auto simp: e_def)
      then show ?thesis
        using hdr_same [OF ad] hdr_reads(3) [of ?m' a k True False] hdr_reads(3) [of ?m' a n False "prev_inuse ?m b"] k8 n(2)
          prev_inuse_cong [of ?m' a ?m] bf [of a] by (auto split: if_splits)
    qed
    assume st: "st = Free"
    show "ld32 ?m' (a + j - 4) = of_nat j"
    proof (cases "a = b")
      case True
      have "\<not> (hd0 \<noteq> 0 \<and> f = hd0 + 8)" using fe(1) hd at4_simps(3) [of hd0] by auto
      moreover have "f \<noteq> b + 4" "f \<noteq> b + 8" "f \<noteq> e" using fe(6,7) by linarith+
      ultimately show ?thesis using mf(1) [OF fe(2)] a True by (auto simp: f_def)
    next
      case False
      then show ?thesis using foot_same tagsD(3) [OF i(4)] a st by auto
    qed
    show "?B (a + j) \<noteq> Some (l, Free)" for l
      using a st tagsD(4) [OF i(4), of a j Free l] pv nx n(4) by (auto simp: before_def e_def split: if_splits)
  qed
  have listed': "listed ?m' (bins h') ?B (L(?i := b # L ?i))"
    unfolding listed_def
  proof (intro conjI allI impI)
    note li = listedD [OF i(5) bin_of_less [of n]]
    show "length (bins h') = NBINS" using mf(3) li(1) by simp
    fix j
    assume j: "j < NBINS"
    note lj = listedD [OF i(5) j]
    have bL: "b \<notin> set (L j)" using lj(4) b by auto
    show "distinct ((L(?i := b # L ?i)) j)" using lj(2) bL by auto
    show "set ((L(?i := b # L ?i)) j) = {a. \<exists>k. ?B a = Some (k, Free) \<and> bin_of k = j}"
      using lj(4) b by auto
    have lk: "bnext ?m' x = bnext ?m x" "bprev ?m' x = (if x = hd0 then b else bprev ?m x)" if "x \<in> set (L j)" for x
      using link_same that lj(4) by blast+
    show "dll ?m' 0 (bins h' ! j) ((L(?i := b # L ?i)) j)"
    proof (cases "j = ?i")
      case True
      have al: "(b + 4) mod 4 = 0" "(b + 8) mod 4 = 0" using at4_simps [OF n(3)] by auto
      have "\<not> (hd0 \<noteq> 0 \<and> b + 4 = hd0 + 8)" "\<not> (hd0 \<noteq> 0 \<and> b + 8 = hd0 + 8)" using hd at4_ne [OF n(3), of hd0] by auto
      moreover have "hd0 < 4294967296" using hd blk_u32(1) [OF inv, of hd0] by (cases "hd0 = 0") auto
      ultimately have "bnext ?m' b = hd0" "bprev ?m' b = 0"
        using mf(1) [OF al(1)] mf(1) [OF al(2)] by (auto simp: bnext_def bprev_def)
      then have "dll ?m' 0 b (b # L j)"
        using lj(2,3) bL lk True by (intro dll_push [of ?m hd0]) (auto simp: hd0_def)
      then show ?thesis using True mf(3) li(1) j by simp
    next
      case False
      have "hd0 \<notin> set (L j)"
      proof
        assume "hd0 \<in> set (L j)"
        then obtain j' where j': "B hd0 = Some (j', Free)" "bin_of j' = j" using lj(4) by auto
        then have "bins h ! ?i \<noteq> 0" using free_aligned [OF i(1) j'(1)] by (simp add: hd0_def)
        then obtain n1 where "B hd0 = Some (n1, Free)" "bin_of n1 = ?i"
          using bin_head [OF inv bin_of_less [of n]] by (auto simp: hd0_def)
        then show False using j' False by simp
      qed
      then have "dll ?m' 0 (bins h ! j) (L j) = dll ?m 0 (bins h ! j) (L j)" using lk by (intro dll_cong) auto
      then show ?thesis using False mf(3) lj(3) by simp
    qed
  qed
  have "seg_chain ?m' (segments h) S"
  proof -
    have "ld32 ?m' w = ld32 ?m w" if s: "(s, len) \<in> set S" and w: "w = s \<or> w = s + 4" for s len w
    proof -
      have al: "w mod 4 = 0" using seg_okD(2) [OF i(2) s] w by presburger
      have "w \<noteq> b + 4 \<and> w \<noteq> b + 8 \<and> w \<noteq> e \<and> w \<noteq> f \<and> w \<noteq> b"
        using blk_seg_apart [OF i(1,2) b s] w fe(6,7) e_def by linarith
      moreover have "\<not> (hd0 \<noteq> 0 \<and> w = hd0 + 8)" 
        using hd blk_seg_apart [OF i(1,2) _ s, of hd0] w by fastforce
      ultimately show ?thesis using mf(1) [OF al] by auto
    qed
    then show ?thesis using i(3) seg_chain_words [of S ?m' ?m] by blast
  qed
  moreover have "mapped_ok h' MM"
  proof (rule mapped_ok_cong [OF i(6)])
    fix a len
    assume "(a, len) \<in> MM"
    then have "kbrk h \<le> a" using i(6) by (auto simp: mapped_ok_def)
    then show "ld32 ?m' (a + 4) = ld32 ?m (a + 4)" using bytes by (intro ld32_cong) simp
  qed (use env in \<open>auto simp: same_env_def\<close>)
  ultimately show "heap_inv h' ?B S (L(?i := b # L ?i)) MM"
    using t' i(2,7) tags' listed' env same_env_inv [OF env] by (simp add: heap_inv_def same_env_def)
qed

subsection \<open>Taking a free block out of the structure\<close>

lemma listed_free_cong:
  assumes "\<And>a n. B' a = Some (n, Free) \<longleftrightarrow> B a = Some (n, Free)"
  shows "listed m bs B' L = listed m bs B L"
  unfolding listed_def by (simp add: assms)

lemma blk_reads:
  assumes inv: "heap_inv h B S L MM" and a: "B a = Some (n, st)" and st: "st \<noteq> Hole"
  shows "bsize (hmem h) a = n" and "inuse (hmem h) a = (st = Used)" and "next_block (hmem h) a = a + n"
    and "\<not> mmapped (hmem h) a" and "\<exists>p. ld32 (hmem h) a = hdr n (st = Used) p"
proof -
  obtain p where p: "ld32 (hmem h) a = hdr n (st = Used) p" using tagsD(1) [OF heap_invD(4) [OF inv] a st] by blast
  note r = hdr_reads [OF p tilesD(2) [OF heap_invD(1) [OF inv] a] blk_u32(2) [OF inv a]]
  show "bsize (hmem h) a = n" "inuse (hmem h) a = (st = Used)" "next_block (hmem h) a = a + n" "\<not> mmapped (hmem h) a"
    "\<exists>p. ld32 (hmem h) a = hdr n (st = Used) p"
    using r p by auto
qed

text \<open>Header, footer and segment words are no list links.\<close>

lemma header_not_link:
  assumes "tiles B S" and "a \<in> dom B" and "B x = Some (k, Free)"
  shows "a \<noteq> x + 4 \<and> a \<noteq> x + 8"
proof -
  have "16 \<le> k" using free_aligned [OF assms(1,3)] by simp
  then show ?thesis using not_header_inside [OF assms(1,3), of a] assms(2) by auto
qed

lemma footer_not_link:
  assumes "tiles B S" and "B a = Some (j, Free)" and "B x = Some (k, Free)"
  shows "a + j - 4 \<noteq> x + 4 \<and> a + j - 4 \<noteq> x + 8" and "(a + j - 4) mod 4 = 0"
proof -
  note fa = free_aligned [OF assms(1,2)] and fx = free_aligned [OF assms(1,3)]
  obtain p where p: "a = 8 * p + 4" using fa at4_ex by blast
  obtain q where q: "j = 8 * q" using fa by auto
  define w where "w = a + j - 4"
  have w: "w mod 8 = 0" "w mod 4 = 0" "w + 4 = a + j" using p q fa by (simp_all add: w_def mod_simps)
  have "w \<noteq> x + 8" using w(1) at4_simps(3) [of x] fx by auto
  moreover have "16 \<le> j" "16 \<le> k" using fa fx by auto
  then have "w \<noteq> x + 4" using w(3) tiles_disjoint [OF assms] by (cases "a = x") auto
  ultimately show "a + j - 4 \<noteq> x + 4 \<and> a + j - 4 \<noteq> x + 8" "(a + j - 4) mod 4 = 0" using w(2) by (simp_all add: w_def)
qed

lemma unlink_inv:
  assumes inv: "heap_inv h B S L MM" and c: "B c = Some (k, Free)"
    and t': "tiles B' S" and g': "tags (hmem h) B'" and dom': "dom B' \<subseteq> dom B"
    and fr: "\<And>a j. B' a = Some (j, Free) \<longleftrightarrow> B a = Some (j, Free) \<and> a \<noteq> c"
  defines "h' \<equiv> unlink_free c h"
  shows "heap_inv h' B' S (L(bin_of k := remove1 c (L (bin_of k)))) MM"
    and "a \<in> dom B \<Longrightarrow> ld32 (hmem h') a = ld32 (hmem h) a"
    and "y \<in> pay B \<or> kbrk h \<le> y \<Longrightarrow> hmem h' y = hmem h y" and "same_env h h'"
proof -
  note i = heap_invD [OF inv]
  note u = unlink_free_spec [OF i(1,5) c blk_reads(1) [OF inv c], folded h'_def, simplified]
  show env: "same_env h h'" by (rule u(1))
  show hdrs: "ld32 (hmem h') a = ld32 (hmem h) a" if "a \<in> dom B" for a
  proof (rule u(3))
    show "a mod 4 = 0" using at4_simps(1) [of a] tilesD(1) [OF i(1), of a] that by auto
    show "a \<noteq> x + 4 \<and> a \<noteq> x + 8" if "B x = Some (j, Free)" for x j
      using header_not_link [OF i(1) \<open>a \<in> dom B\<close> that] .
  qed
  show bytes: "hmem h' y = hmem h y" if y: "y \<in> pay B \<or> kbrk h \<le> y" for y
  proof (rule u(2), rule)
    assume "y \<in> links B c"
    then obtain x n where x: "B x = Some (n, Free)" "x + 4 \<le> y" "y < x + 12" by (auto simp: links_def)
    moreover have "16 \<le> n" using free_aligned [OF i(1) x(1)] by simp
    ultimately show False using pay_apart(2) [OF i(1) _ x(1), of y] blk_below(1) [OF i(1,2) x(1)] y by auto
  qed
  have "tags (hmem h') B'"
  proof (rule tags_cong [OF g'])
    show "ld32 (hmem h') a = ld32 (hmem h) a" if "a \<in> dom B'" for a using hdrs that dom' by blast
    show "ld32 (hmem h') (a + n - 4) = ld32 (hmem h) (a + n - 4)" if "B' a = Some (n, Free)" for a n
    proof (rule u(3))
      have a: "B a = Some (n, Free)" using fr that by blast
      show "(a + n - 4) mod 4 = 0" by (rule footer_not_link(2) [OF i(1) a c])
      show "a + n - 4 \<noteq> x + 4 \<and> a + n - 4 \<noteq> x + 8" if "B x = Some (j, Free)" for x j
        by (rule footer_not_link(1) [OF i(1) a that])
    qed
  qed
  moreover have "listed (hmem h') (bins h') B' (L(bin_of k := remove1 c (L (bin_of k))))"
  proof -
    have "B' a = Some (n, Free) \<longleftrightarrow> (B(c \<mapsto> (k, Hole))) a = Some (n, Free)" for a n using fr [of a n] by auto
    then show ?thesis using u(4) listed_free_cong by blast
  qed
  moreover have "seg_chain (hmem h') (segments h) S"
  proof -
    have "ld32 (hmem h') w = ld32 (hmem h) w" if s: "(s, len) \<in> set S" and w: "w = s \<or> w = s + 4" for s len w
    proof (rule u(3))
      show "w mod 4 = 0" using seg_okD(2) [OF i(2) s] w by presburger
      show "w \<noteq> x + 4 \<and> w \<noteq> x + 8" if x: "B x = Some (j, Free)" for x j
        using blk_seg_apart [OF i(1,2) x s] free_aligned [OF i(1) x] w by auto
    qed
    then show ?thesis using i(3) seg_chain_words [of S "hmem h'" "hmem h"] by blast
  qed
  moreover have "mapped_ok h' MM"
  proof (rule mapped_ok_cong [OF i(6)])
    fix a len
    assume "(a, len) \<in> MM"
    then have "kbrk h \<le> a" using i(6) by (auto simp: mapped_ok_def)
    then show "ld32 (hmem h') (a + 4) = ld32 (hmem h) (a + 4)" using bytes by (intro ld32_cong) simp
  qed (use env in \<open>auto simp: same_env_def\<close>)
  ultimately show "heap_inv h' B' S (L(bin_of k := remove1 c (L (bin_of k)))) MM"
    using t' i(2,7) env same_env_inv [OF env] by (simp add: heap_inv_def same_env_def)
qed

subsection \<open>Boundary tags when blocks change state or join\<close>

lemma beforeI: "B p = Some (n, st) \<Longrightarrow> p + n = a \<Longrightarrow> before st B a"
  unfolding before_def by blast

lemma beforeE:
  assumes "before st B a"
  obtains p n where "B p = Some (n, st)" and "p + n = a"
  using assms unfolding before_def by blast

lemma tagsI:
  assumes "\<And>a n st. B a = Some (n, st) \<Longrightarrow> st \<noteq> Hole \<Longrightarrow> \<exists>p. ld32 m a = hdr n (st = Used) p"
    and "\<And>a n st. B a = Some (n, st) \<Longrightarrow> \<not> before Hole B a \<Longrightarrow> prev_inuse m a = (\<not> before Free B a)"
    and "\<And>a n. B a = Some (n, Free) \<Longrightarrow> ld32 m (a + n - 4) = of_nat n"
    and "\<And>a n k. B a = Some (n, Free) \<Longrightarrow> B (a + n) \<noteq> Some (k, Free)"
  shows "tags m B"
  using assms unfolding tags_def by blast

lemma tags_hole:
  assumes g: "tags m B" and c: "B c = Some (k, Free)" and nh: "\<And>a n. B a \<noteq> Some (n, Hole)"
  shows "tags m (B(c \<mapsto> (k, Hole)))"
proof -
  have bh: "before Hole (B(c \<mapsto> (k, Hole))) a \<longleftrightarrow> a = c + k" for a
    using before_upd_other [of B c k Free Hole k Hole a] c nh by (auto simp: before_def)
  have bf: "before Free (B(c \<mapsto> (k, Hole))) a \<longleftrightarrow> before Free B a" if "a \<noteq> c + k" for a
  proof
    assume "before Free B a"
    then obtain p n where "B p = Some (n, Free)" "p + n = a" by (rule beforeE)
    then show "before Free (B(c \<mapsto> (k, Hole))) a" using c that by (intro beforeI [of _ p n]) auto
  qed (auto simp: before_def split: if_splits)
  have "\<not> before Hole B a" for a using nh by (auto simp: before_def)
  then show ?thesis
    using tagsD [OF g] unfolding tags_def bh by (auto simp: bf c split: if_splits)
qed

lemma tags_merge_next:
  assumes g: "tags m B" and t: "tiles B S" and hole: "hole_at B b n" and c: "B (b + n) = Some (k, Free)" and n: "n \<noteq> 0"
  shows "tags m ((B(b + n := None))(b \<mapsto> (n + k, Hole)))" (is "tags m ?B")
proof -
  note hD = hole_atD [OF hole]
  have B: "?B a = Some (j, st) \<longleftrightarrow> a = b \<and> j = n + k \<and> st = Hole \<or> a \<noteq> b \<and> a \<noteq> b + n \<and> B a = Some (j, st)" for a j st
    by auto
  have bh: "before Hole ?B a \<longleftrightarrow> a = b + n + k" for a
    using beforeI [of ?B b "n + k" Hole a] hD(2) by (auto elim!: beforeE split: if_splits)
  have bf: "before Free ?B a \<longleftrightarrow> before Free B a" if "a \<noteq> b + n + k" for a
  proof
    assume "before Free B a"
    then obtain p j where p: "B p = Some (j, Free)" "p + j = a" by (rule beforeE)
    then show "before Free ?B a" using hD(1) c that by (intro beforeI [of _ p j]) auto
  qed (auto elim!: beforeE intro: beforeI split: if_splits)
  have old: "prev_inuse m a = (\<not> before Free B a)" if "?B a = Some (j, st)" for a j st
    using tagsD(2) [OF g, of a] hD(1,3) n that by (auto split: if_splits)
  show ?thesis
  proof (rule tagsI)
    show "\<exists>p. ld32 m a = hdr j (st = Used) p" if "?B a = Some (j, st)" "st \<noteq> Hole" for a j st
      using that tagsD(1) [OF g, of a j st] by (auto split: if_splits)
    show "prev_inuse m a = (\<not> before Free ?B a)" if "?B a = Some (j, st)" "\<not> before Hole ?B a" for a j st
      using old [OF that(1)] bf bh that(2) by simp
    show "ld32 m (a + j - 4) = of_nat j" "?B (a + j) \<noteq> Some (l, Free)" if "?B a = Some (j, Free)" for a j l
      using that tagsD(3,4) [OF g, of a j Free] by (auto split: if_splits)
  qed
qed

lemma tags_merge_prev:
  assumes g: "tags m B" and hole: "hole_at B (p + k) n" and p: "B p = Some (k, Free)" and n: "n \<noteq> 0" "k \<noteq> 0"
  shows "tags m ((B(p + k := None))(p \<mapsto> (k + n, Hole)))" (is "tags m ?B")
proof -
  note hD = hole_atD [OF hole]
  have bh: "before Hole ?B a \<longleftrightarrow> a = p + k + n" for a
    using beforeI [of ?B p "k + n" Hole a] hD(2) by (auto elim!: beforeE split: if_splits)
  have bf: "before Free ?B a \<longleftrightarrow> before Free B a" if "a \<noteq> p + k" for a
  proof
    assume "before Free B a"
    then obtain q j where "B q = Some (j, Free)" "q + j = a" by (rule beforeE)
    then show "before Free ?B a" using hD(1) p that by (intro beforeI [of _ q j]) auto
  qed (auto elim!: beforeE intro: beforeI split: if_splits)
  have old: "prev_inuse m a = (\<not> before Free B a)" if "?B a = Some (j, st)" "a \<noteq> p + k + n" for a j st
    using tagsD(2) [OF g, of a] hD(1,3) p that by (auto split: if_splits)
  show ?thesis
  proof (rule tagsI)
    show "\<exists>q. ld32 m a = hdr j (st = Used) q" if "?B a = Some (j, st)" "st \<noteq> Hole" for a j st
      using that tagsD(1) [OF g, of a j st] by (auto split: if_splits)
    show "prev_inuse m a = (\<not> before Free ?B a)" if "?B a = Some (j, st)" "\<not> before Hole ?B a" for a j st
      using old [OF that(1)] bf [of a] bh [of a] that n by (auto split: if_splits)
    show "ld32 m (a + j - 4) = of_nat j" "?B (a + j) \<noteq> Some (l, Free)" if "?B a = Some (j, Free)" for a j l
      using that tagsD(3,4) [OF g, of a j Free] by (auto split: if_splits)
  qed
qed

text \<open>Joining the hole with a free neighbour.\<close>

lemma merge_next:
  assumes inv: "heap_inv h B S L MM" and hole: "hole_at B b n" and c: "B (b + n) = Some (k, Free)"
  defines "h' \<equiv> unlink_free (b + n) h" and "B' \<equiv> (B(b + n := None))(b \<mapsto> (n + k, Hole))"
  shows "heap_inv h' B' S (L(bin_of k := remove1 (b + n) (L (bin_of k)))) MM" and "hole_at B' b (n + k)"
    and "a \<in> dom B \<Longrightarrow> ld32 (hmem h') a = ld32 (hmem h) a"
    and "y \<in> pay B \<or> kbrk h \<le> y \<Longrightarrow> hmem h' y = hmem h y" and "same_env h h'"
proof -
  note i = heap_invD [OF inv] and hD = hole_atD [OF hole]
  have nk: "n \<noteq> 0" "k \<noteq> 0" using tilesD(5) [OF i(1) hD(1)] tilesD(5) [OF i(1) c] by auto
  have t': "tiles B' S" unfolding B'_def by (rule tiles_merge [OF i(1,2) hD(1) c nk])
  have g': "tags (hmem h) B'" unfolding B'_def by (rule tags_merge_next [OF i(4,1) hole c nk(1)])
  have d: "dom B' \<subseteq> dom B" using hD(1) by (auto simp: B'_def split: if_splits)
  have fr: "B' a = Some (j, Free) \<longleftrightarrow> B a = Some (j, Free) \<and> a \<noteq> b + n" for a j
    using hD(1) by (auto simp: B'_def)
  note u = unlink_inv [OF inv c t' g' d fr, folded h'_def]
  show "heap_inv h' B' S (L(bin_of k := remove1 (b + n) (L (bin_of k)))) MM"
    "a \<in> dom B \<Longrightarrow> ld32 (hmem h') a = ld32 (hmem h) a"
    "y \<in> pay B \<or> kbrk h \<le> y \<Longrightarrow> hmem h' y = hmem h y" "same_env h h'"
    using u by blast+
  show "hole_at B' b (n + k)" using hole by (auto simp: hole_at_def B'_def)
qed

lemma merge_prev:
  assumes inv: "heap_inv h B S L MM" and hole: "hole_at B (p + k) n" and p: "B p = Some (k, Free)"
  defines "h' \<equiv> unlink_free p h" and "B' \<equiv> (B(p + k := None))(p \<mapsto> (k + n, Hole))"
  shows "heap_inv h' B' S (L(bin_of k := remove1 p (L (bin_of k)))) MM" and "hole_at B' p (k + n)"
    and "a \<in> dom B \<Longrightarrow> ld32 (hmem h') a = ld32 (hmem h) a"
    and "y \<in> pay B \<or> kbrk h \<le> y \<Longrightarrow> hmem h' y = hmem h y" and "same_env h h'"
proof -
  note i = heap_invD [OF inv] and hD = hole_atD [OF hole]
  have nk: "n \<noteq> 0" "k \<noteq> 0" using tilesD(5) [OF i(1) hD(1)] tilesD(5) [OF i(1) p] by auto
  have t': "tiles B' S" unfolding B'_def by (rule tiles_merge [OF i(1,2) p hD(1) nk(2,1)])
  have g': "tags (hmem h) B'" unfolding B'_def by (rule tags_merge_prev [OF i(4) hole p nk])
  have d: "dom B' \<subseteq> dom B" using p by (auto simp: B'_def split: if_splits)
  have fr: "B' a = Some (j, Free) \<longleftrightarrow> B a = Some (j, Free) \<and> a \<noteq> p" for a j
    using hD(1) by (auto simp: B'_def)
  note u = unlink_inv [OF inv p t' g' d fr, folded h'_def]
  show "heap_inv h' B' S (L(bin_of k := remove1 p (L (bin_of k)))) MM"
    "a \<in> dom B \<Longrightarrow> ld32 (hmem h') a = ld32 (hmem h) a"
    "y \<in> pay B \<or> kbrk h \<le> y \<Longrightarrow> hmem h' y = hmem h y" "same_env h h'"
    using u by blast+
  show "hole_at B' p (k + n)" using hole nk by (auto simp: hole_at_def B'_def)
qed

subsection \<open>Coalescing\<close>

definition no_hole :: "blocks \<Rightarrow> bool" where
  "no_hole B \<longleftrightarrow> (\<forall>a n. B a \<noteq> Some (n, Hole))"

definition used_same :: "blocks \<Rightarrow> blocks \<Rightarrow> bool" where
  "used_same B B' \<longleftrightarrow> (\<forall>a n. n \<noteq> 0 \<longrightarrow> B' a = Some (n, Used) \<longleftrightarrow> B a = Some (n, Used))"

text \<open>An operation keeps what belongs to the program and what lies above the break.\<close>

definition keeps :: "blocks \<Rightarrow> heap \<Rightarrow> heap \<Rightarrow> bool" where
  "keeps B h h' \<longleftrightarrow> same_env h h' \<and> (\<forall>y. y \<in> pay B \<or> kbrk h \<le> y \<longrightarrow> hmem h' y = hmem h y)"

lemma used_same_pay:
  assumes "used_same B B'"
  shows "pay B' = pay B"
proof -
  have "B' a = Some (n, Used) \<longleftrightarrow> B a = Some (n, Used)" if "a + 4 \<le> y" "y < a + n" for a n y
    using assms that by (simp add: used_same_def)
  then show ?thesis unfolding pay_def by blast
qed

lemma used_same_refl [simp]: "used_same B B" by (simp add: used_same_def)

lemma used_same_trans: "used_same B B1 \<Longrightarrow> used_same B1 B2 \<Longrightarrow> used_same B B2"
  by (simp add: used_same_def)

lemma keeps_refl [simp]: "keeps B h h" by (simp add: keeps_def same_env_def)

lemma keeps_trans: "keeps B h h1 \<Longrightarrow> used_same B B1 \<Longrightarrow> keeps B1 h1 h2 \<Longrightarrow> keeps B h h2"
  unfolding keeps_def by (simp add: used_same_pay same_env_def)

lemma next_in: "tiles B S \<Longrightarrow> B b = Some (n, st) \<Longrightarrow> n \<noteq> 0 \<Longrightarrow> \<exists>k su. B (b + n) = Some (k, su)"
  using tilesD(4) [of B S b n st] by auto

lemma hole_size: "heap_inv h B S L MM \<Longrightarrow> hole_at B b n \<Longrightarrow> n \<noteq> 0"
  using tilesD(5) [OF heap_invD(1), of h B S L MM b n Hole] hole_atD(1) [of B b n] by auto

lemma absorb_after:
  assumes inv: "heap_inv h B S L MM" and hole: "hole_at B b n" and c: "B (b + n) = Some (k, Free)"
  defines "h1 \<equiv> unlink_free (b + n) h"
  obtains B1 L1 where "heap_inv h1 B1 S L1 MM" and "hole_at B1 b (n + k)" and "\<exists>j. B1 (b + n + k) = Some (j, Used)"
    and "used_same B B1" and "keeps B h h1" and "\<And>a. a < b \<Longrightarrow> B1 a = B a"
    and "bsize (hmem h1) (b + n) = k" and "\<And>a. a \<in> dom B \<Longrightarrow> ld32 (hmem h1) a = ld32 (hmem h) a"
proof -
  note m = merge_next [OF inv hole c, folded h1_def]
  note i = heap_invD [OF inv] and hD = hole_atD [OF hole]
  have nk: "n \<noteq> 0" "k \<noteq> 0" using tilesD(5) [OF i(1) hD(1)] tilesD(5) [OF i(1) c] by auto
  obtain j st where j: "B (b + n + k) = Some (j, st)" using next_in [OF i(1) c nk(2)] by blast
  have "st \<noteq> Hole" using hD(2) [of "b + n + k" j] j nk(1) by auto
  then have "st = Used" using tagsD(4) [OF i(4) c] j by (cases st) auto
  moreover have "bsize (hmem h1) (b + n) = k"
    using blk_reads(1) [OF inv c] m(3) [OF domI [where m = B, OF c]] by (simp add: bsize_def)
  moreover have "used_same B ((B(b + n := None))(b \<mapsto> (n + k, Hole)))" using hD(1) c by (auto simp: used_same_def)
  ultimately show thesis using that [OF m(1,2)] m(3-5) j nk by (auto simp: keeps_def)
qed

lemma absorb_before:
  assumes inv: "heap_inv h B S L MM" and hole: "hole_at B (p + k) n" and p: "B p = Some (k, Free)"
    and nx: "B (p + k + n) = Some (j, Used)"
  defines "h1 \<equiv> unlink_free p h"
  obtains B1 L1 where "heap_inv h1 B1 S L1 MM" and "hole_at B1 p (k + n)" and "B1 (p + (k + n)) = Some (j, Used)"
    and "\<not> before Free B1 p" and "used_same B B1" and "keeps B h h1" and "bsize (hmem h1) p = k"
proof -
  note m = merge_prev [OF inv hole p, folded h1_def]
  note i = heap_invD [OF inv] and hD = hole_atD [OF hole]
  have nk: "n \<noteq> 0" "k \<noteq> 0" using tilesD(5) [OF i(1) hD(1)] tilesD(5) [OF i(1) p] by auto
  let ?B = "(B(p + k := None))(p \<mapsto> (k + n, Hole))"
  have "?B (p + (k + n)) = Some (j, Used)" using nx nk by (auto simp: add.assoc)
  moreover have "\<not> before Free ?B p"
    using tagsD(4) [OF i(4)] p by (auto elim!: beforeE split: if_splits)
  moreover have "bsize (hmem h1) p = k" using blk_reads(1) [OF inv p] m(3) [OF domI [where m = B, OF p]] by (simp add: bsize_def)
  moreover have "used_same B ?B" using hD(1) p by (auto simp: used_same_def)
  ultimately show thesis using that [OF m(1,2)] m(4,5) by (auto simp: keeps_def)
qed

lemma coalesce_spec:
  assumes inv: "heap_inv h B S L MM" and hole: "hole_at B b n" and sz: "bsize (hmem h) b = n"
  obtains b' n' h' B' L' where "coalesce b h = (b', h')" and "heap_inv h' B' S L' MM" and "no_hole B'"
    and "B' b' = Some (n', Free)" and "b' \<le> b" and "b + n \<le> b' + n'" and "used_same B B'" and "keeps B h h'"
proof -
  note i = heap_invD [OF inv] and hD = hole_atD [OF hole]
  have n0: "n \<noteq> 0" by (rule hole_size [OF inv hole])
  obtain k st where nx: "B (b + n) = Some (k, st)" using next_in [OF i(1) hD(1) n0] by blast
  have st: "st \<noteq> Hole" using hD(2) nx n0 by fastforce
  have nb: "next_block (hmem h) b = b + n" by (simp add: next_block_def sz)
  have iu: "inuse (hmem h) (b + n) = (st = Used)" by (rule blk_reads(2) [OF inv nx st])
  obtain n1 h1 B1 L1 where s1: "(if \<not> inuse (hmem h) (b + n)
        then (bsize (hmem h) b + bsize (hmem (unlink_free (b + n) h)) (b + n), unlink_free (b + n) h)
        else (bsize (hmem h) b, h)) = (n1, h1)"
    and B1: "heap_inv h1 B1 S L1 MM" "hole_at B1 b n1" "\<exists>j. B1 (b + n1) = Some (j, Used)" "n \<le> n1"
      "used_same B B1" "keeps B h h1"
  proof (cases "st = Used")
    case True
    then show ?thesis using that [of n h B L] inv hole nx iu sz by auto
  next
    case False
    then have c: "B (b + n) = Some (k, Free)" using nx st by (cases st) auto
    obtain B1 L1 where "heap_inv (unlink_free (b + n) h) B1 S L1 MM" "hole_at B1 b (n + k)" "\<exists>j. B1 (b + n + k) = Some (j, Used)"
      "used_same B B1" "keeps B h (unlink_free (b + n) h)" "bsize (hmem (unlink_free (b + n) h)) (b + n) = k"
      using absorb_after [OF inv hole c] by metis
    then show ?thesis using that [of "n + k" "unlink_free (b + n) h" B1 L1] iu False sz by (simp add: add.assoc)
  qed
  note i1 = heap_invD [OF B1(1)] and hD1 = hole_atD [OF B1(2)]
  have n1: "n1 \<noteq> 0" by (rule hole_size [OF B1(1,2)])
  have pi: "prev_inuse (hmem h1) b = (\<not> before Free B1 b)" using tagsD(2) [OF i1(4) hD1(1)] hD1(3) [of b] n1 by simp
  obtain j where j: "B1 (b + n1) = Some (j, Used)" using B1(3) by blast
  obtain b2 n2 h2 B2 L2 where s2: "(if \<not> prev_inuse (hmem h1) b
        then let p = prev_block (hmem h1) b; h' = unlink_free p h1 in (p, n1 + bsize (hmem h') p, h')
        else (b, n1, h1)) = (b2, n2, h2)"
    and B2: "heap_inv h2 B2 S L2 MM" "hole_at B2 b2 n2" "B2 (b2 + n2) = Some (j, Used)" "\<not> before Free B2 b2"
      "used_same B1 B2" "keeps B1 h1 h2" "b2 \<le> b" "b + n1 \<le> b2 + n2"
  proof (cases "before Free B1 b")
    case False
    then show ?thesis using that [of b n1 h1 B1 L1] B1 j pi by simp
  next
    case True
    then obtain p l where p: "B1 p = Some (l, Free)" "p + l = b" by (rule beforeE)
    have l: "l < 4294967296" using blk_u32(2) [OF B1(1) p(1)] .
    have "ld32 (hmem h1) (p + l - 4) = of_nat l" using tagsD(3) [OF i1(4) p(1)] by simp
    then have pb: "prev_block (hmem h1) b = p" using l p(2) by (auto simp: prev_block_def)
    have "hole_at B1 (p + l) n1" "B1 (p + l + n1) = Some (j, Used)" using B1(2) j p(2) by auto
    then obtain B2 L2 where "heap_inv (unlink_free p h1) B2 S L2 MM" "hole_at B2 p (l + n1)" "B2 (p + (l + n1)) = Some (j, Used)"
      "\<not> before Free B2 p" "used_same B1 B2" "keeps B1 h1 (unlink_free p h1)" "bsize (hmem (unlink_free p h1)) p = l"
      using absorb_before [OF B1(1) _ p(1)] by metis
    then show ?thesis using that [of p "l + n1" "unlink_free p h1" B2 L2] pi pb True p(2) by (simp add: Let_def add.commute)
  qed
  note mf = make_free_spec [OF B2(1-4)]
  have co: "coalesce b h = (b2, make_free b2 n2 h2)"
    using s1 s2 unfolding coalesce_def nb Let_def by simp
  show thesis
  proof (rule that [OF co mf(1)])
    show "no_hole (B2(b2 \<mapsto> (n2, Free)))" using hole_atD(2) [OF B2(2)] by (auto simp: no_hole_def)
    show "b + n \<le> b2 + n2" using B1(4) B2(8) by simp
    have us: "used_same B2 (B2(b2 \<mapsto> (n2, Free)))" using hole_atD(1) [OF B2(2)] by (auto simp: used_same_def)
    show "used_same B (B2(b2 \<mapsto> (n2, Free)))" using used_same_trans [OF used_same_trans [OF B1(5) B2(5)] us] .
    have "keeps B2 h2 (make_free b2 n2 h2)" using mf(2,3) by (auto simp: keeps_def)
    then show "keeps B h (make_free b2 n2 h2)"
      using keeps_trans [OF B1(6,5) keeps_trans [OF B2(6,5)]] by blast
  qed (use B2(7) in auto)
qed

end
