(* ===== verification/MallocBlocks.thy ===== *)
theory MallocBlocks
  imports MallocLayout
begin

text \<open>
  The operations of \<^verbatim>\<open>lib/malloc.c\<close> on blocks and segments: \<open>carve_block\<close>, \<open>grow\<close> with its two ways of getting
  memory, \<open>trim\<close>, and the cutting and absorbing that \<^verbatim>\<open>realloc\<close> does in place.  Each keeps the
  invariant of \<open>MallocLayout\<close> and the bytes of the blocks the program holds.
\<close>

subsection \<open>Writing headers\<close>

text \<open>The invariant without the boundary tags, which survives every store to a header.\<close>

definition heap_core :: "heap \<Rightarrow> blocks \<Rightarrow> segs \<Rightarrow> (nat \<Rightarrow> nat list) \<Rightarrow> (nat \<times> nat) set \<Rightarrow> bool" where
  "heap_core h B S L MM \<longleftrightarrow> tiles B S \<and> seg_ok (kbrk_start h) (kbrk h) S \<and> seg_chain (hmem h) (segments h) S \<and>
     listed (hmem h) (bins h) B L \<and> mapped_ok h MM \<and> sys_wf h"

lemma heap_inv_core: "heap_inv h B S L MM \<longleftrightarrow> heap_core h B S L MM \<and> tags (hmem h) B"
  unfolding heap_inv_def heap_core_def by blast

lemma heap_coreD:
  assumes "heap_core h B S L MM"
  shows "tiles B S" "seg_ok (kbrk_start h) (kbrk h) S" "seg_chain (hmem h) (segments h) S"
    "listed (hmem h) (bins h) B L" "mapped_ok h MM" "sys_wf h"
  using assms unfolding heap_core_def by blast+

lemma heap_core_ghost:
  assumes "heap_core h B S L MM" and "tiles B' S" and "\<And>a n. B' a = Some (n, Free) \<longleftrightarrow> B a = Some (n, Free)"
  shows "heap_core h B' S L MM"
  using assms listed_free_cong [of B' B, OF assms(3)] unfolding heap_core_def by blast

text \<open>The places of headers, present and future: at a header, or inside a block that is not free.\<close>

definition head_place :: "blocks \<Rightarrow> nat \<Rightarrow> bool" where
  "head_place B a \<longleftrightarrow> a mod 8 = 4 \<and>
     (\<exists>c n st. B c = Some (n, st) \<and> (a = c \<or> st \<noteq> Free \<and> c < a \<and> a < c + n))"

lemma head_place_at: "tiles B S \<Longrightarrow> B a = Some (n, st) \<Longrightarrow> head_place B a"
  unfolding head_place_def using tilesD(1) by blast

lemma head_place_in: "B c = Some (n, st) \<Longrightarrow> st \<noteq> Free \<Longrightarrow> c < a \<Longrightarrow> a < c + n \<Longrightarrow> a mod 8 = 4 \<Longrightarrow> head_place B a"
  unfolding head_place_def by blast

lemma store_core:
  assumes c: "heap_core h B S L MM" and a: "head_place B a"
  shows "heap_core (h\<lparr>hmem := st32 a v (hmem h)\<rparr>) B S L MM"
proof -
  note i = heap_coreD [OF c]
  obtain b n st where b: "B b = Some (n, st)" "a = b \<or> st \<noteq> Free \<and> b < a \<and> a < b + n" and a4: "a mod 8 = 4"
    using a by (auto simp: head_place_def)
  have al: "a mod 4 = 0" using at4_simps(1) [OF a4] .
  have le: "a + 4 \<le> kbrk h" using blk_below(1) [OF i(1,2) b(1)] b(2) by linarith
  have "listed (st32 a v (hmem h)) (bins h) B L"
  proof (rule listed_cong [OF i(4)])
    fix x k
    assume x: "B x = Some (k, Free)"
    note fx = free_aligned [OF i(1) x]
    have "16 \<le> k" using fx by simp
    have "x + 8 \<noteq> a"
    proof (cases "b = x")
      case True
      then show ?thesis using b x by auto
    next
      case False
      then show ?thesis using tiles_disjoint [OF i(1) b(1) x] b(2) \<open>16 \<le> k\<close> by linarith
    qed
    moreover have "x + 4 \<noteq> a" using at4_ne [of x a] fx a4 by auto
    ultimately show "ld32 (st32 a v (hmem h)) (x + 4) = ld32 (hmem h) (x + 4) \<and> ld32 (st32 a v (hmem h)) (x + 8) = ld32 (hmem h) (x + 8)"
      using at4_simps(4,5) [of x] fx al by (simp add: ld32_st32_aligned)
  qed
  moreover have "seg_chain (st32 a v (hmem h)) (segments h) S"
  proof -
    have "ld32 (st32 a v (hmem h)) w = ld32 (hmem h) w" if s: "(s, len) \<in> set S" and w: "w = s \<or> w = s + 4" for s len w
    proof -
      have "w mod 4 = 0" using seg_okD(2) [OF i(2) s] w by presburger
      moreover have "w \<noteq> a" using blk_seg_apart [OF i(1,2) b(1) s] b(2) w by linarith
      ultimately show ?thesis using al by (simp add: ld32_st32_aligned)
    qed
    then show ?thesis using i(3) seg_chain_words [of S "st32 a v (hmem h)" "hmem h"] by blast
  qed
  moreover have "mapped_ok (h\<lparr>hmem := st32 a v (hmem h)\<rparr>) MM"
  proof (rule mapped_ok_cong [OF i(5)])
    fix x len
    assume "(x, len) \<in> MM"
    then have "kbrk h \<le> x" using i(5) by (auto simp: mapped_ok_def)
    then show "ld32 (hmem (h\<lparr>hmem := st32 a v (hmem h)\<rparr>)) (x + 4) = ld32 (hmem h) (x + 4)"
      using le by (simp add: ld32_st32_disjoint)
  qed auto
  ultimately show ?thesis using i by (simp add: heap_core_def sys_wf_def)
qed

lemma before_free_cong:
  assumes "\<And>a n. B' a = Some (n, Free) \<longleftrightarrow> B a = Some (n, Free)"
  shows "before Free B' a = before Free B a"
  unfolding before_def by (simp add: assms)

lemma tags_same_free:
  assumes g: "tags m B" and fr: "\<And>a n. B' a = Some (n, Free) \<longleftrightarrow> B a = Some (n, Free)"
    and ft: "\<And>a n. B a = Some (n, Free) \<Longrightarrow> ld32 m' (a + n - 4) = ld32 m (a + n - 4)"
    and hd: "\<And>a n st. B' a = Some (n, st) \<Longrightarrow> st \<noteq> Hole \<Longrightarrow> \<exists>p. ld32 m' a = hdr n (st = Used) p"
    and pv: "\<And>a. a \<in> dom B' \<Longrightarrow> \<not> before Hole B' a \<Longrightarrow> prev_inuse m' a = (\<not> before Free B a)"
  shows "tags m' B'"
proof (rule tagsI)
  show "\<exists>p. ld32 m' a = hdr n (st = Used) p" if "B' a = Some (n, st)" "st \<noteq> Hole" for a n st using hd that .
  show "prev_inuse m' a = (\<not> before Free B' a)" if "B' a = Some (n, st)" "\<not> before Hole B' a" for a n st
    using pv [of a] that before_free_cong [OF fr] by auto
  show "ld32 m' (a + n - 4) = of_nat n" if "B' a = Some (n, Free)" for a n
    using that tagsD(3) [OF g] ft fr by auto
  show "B' (a + n) \<noteq> Some (k, Free)" if "B' a = Some (n, Free)" for a n k
    using that tagsD(4) [OF g] fr by blast
qed

lemma footer_al:
  assumes "tiles B S" and "B a = Some (n, Free)"
  shows "(a + n - 4) mod 8 = 0" and "(a + n - 4) mod 4 = 0"
proof -
  note f = free_aligned [OF assms]
  obtain p where p: "a = 8 * p + 4" using f at4_ex by blast
  obtain q where q: "n = 8 * q" using f by auto
  show "(a + n - 4) mod 8 = 0" "(a + n - 4) mod 4 = 0" using p q f by (simp_all add: mod_simps)
qed

text \<open>A store to a header place leaves every footer alone.\<close>

lemma footer_store:
  assumes "tiles B S" and "B a = Some (n, Free)" and "c mod 8 = 4"
  shows "ld32 (st32 c v m) (a + n - 4) = ld32 m (a + n - 4)"
proof -
  have "a + n - 4 \<noteq> c" using footer_al(1) [OF assms(1,2)] assms(3) by auto
  then show ?thesis using footer_al(2) [OF assms(1,2)] at4_simps(1) [OF assms(3)] by (simp add: ld32_st32_aligned)
qed

lemma head_store:
  assumes "tiles B S" and "B a = Some (n, st)" and "c mod 8 = 4"
  shows "ld32 (st32 c v m) a = (if a = c then v else ld32 m a)"
  using at4_simps(1) [OF tilesD(1) [OF assms(1,2)]] at4_simps(1) [OF assms(3)] by (simp add: ld32_st32_aligned)

subsection \<open>Splitting a block\<close>

text \<open>The front of a block that is not free becomes a block in use, the rest a hole: the stores that
  \<open>carve_block\<close> and \<open>cut_tail\<close> have in common.\<close>

lemma split_spec:
  assumes inv: "heap_inv h B S L MM" and b: "B b = Some (n, st)" "st \<noteq> Free"
    and only: "\<And>a k. B a = Some (k, Hole) \<Longrightarrow> a = b" and sz: "16 \<le> sz" "sz mod 8 = 0" "sz + 16 \<le> n"
    and k: "k mod 8 = 0"
  defines "m' \<equiv> st32 (b + sz) (hdr k False True) (st32 b (of_nat sz OR INUSE OR (ld32 (hmem h) b AND PREV_INUSE)) (hmem h))"
    and "B' \<equiv> B(b \<mapsto> (sz, Used), b + sz \<mapsto> (n - sz, Hole))"
  shows "heap_inv (h\<lparr>hmem := m'\<rparr>) B' S L MM" and "hole_at B' (b + sz) (n - sz)"
    and "\<not> before Free B' (b + sz)" and "B' (b + sz + (n - sz)) = B (b + n)"
proof -
  note i = heap_invD [OF inv]
  have t': "tiles B' S" unfolding B'_def by (rule tiles_split [OF i(1) b(1) sz])
  have al: "b mod 8 = 4" "(b + sz) mod 8 = 4"
    using tilesD(1) [OF i(1) b(1)] sz(2) by (auto simp: mod_add_right_eq [of b sz 8, symmetric])
  have fresh: "B (b + sz) = None" using not_header_inside [OF i(1) b(1), of "b + sz"] sz by auto
  have w: "of_nat sz OR INUSE OR (ld32 (hmem h) b AND PREV_INUSE) = hdr sz True (prev_inuse (hmem h) b)"
    using hdr_eqs(5) [OF sz(2)] by (simp add: prev_inuse_def)
  have fr: "B' a = Some (j, Free) \<longleftrightarrow> B a = Some (j, Free)" for a j using b fresh by (auto simp: B'_def)
  have bh: "before Hole B' a \<longleftrightarrow> a = b + n" for a
    using beforeI [of B' "b + sz" "n - sz" Hole a] only sz b(1) by (auto simp: B'_def elim!: beforeE split: if_splits)
  have bfr: "\<not> before Free B (b + sz)"
  proof
    assume "before Free B (b + sz)"
    then obtain p j where p: "B p = Some (j, Free)" "p + j = b + sz" by (rule beforeE)
    then have "p \<noteq> b" using b by auto
    then show False using tiles_disjoint [OF i(1) p(1) b(1)] p(2) sz by linarith
  qed
  have oh: "before Hole B a \<Longrightarrow> a = b + n" for a using only b(1) by (auto elim!: beforeE)
  have ld: "ld32 m' a = (if a = b + sz then hdr k False True else if a = b then hdr sz True (prev_inuse (hmem h) b) else ld32 (hmem h) a)"
    if "B' a = Some (j, st)" for a j st
    using head_store [OF t' that al(2)] head_store [OF t' that al(1)] sz by (simp add: m'_def w)
  have "heap_core (h\<lparr>hmem := m'\<rparr>) B S L MM"
  proof -
    have "heap_core h B S L MM" using inv by (simp add: heap_inv_core)
    then have "heap_core (h\<lparr>hmem := st32 b (hdr sz True (prev_inuse (hmem h) b)) (hmem h)\<rparr>) B S L MM"
      using store_core head_place_at [OF i(1) b(1)] by blast
    moreover have "head_place B (b + sz)" using head_place_in [of B b n st "b + sz"] b sz al by simp
    ultimately show ?thesis using store_core [of "h\<lparr>hmem := st32 b (hdr sz True (prev_inuse (hmem h) b)) (hmem h)\<rparr>"]
      by (fastforce simp: m'_def w)
  qed
  then have "heap_core (h\<lparr>hmem := m'\<rparr>) B' S L MM" by (rule heap_core_ghost [OF _ t' fr])
  moreover have "tags m' B'"
  proof (rule tags_same_free [OF i(4) fr])
    show "ld32 m' (a + j - 4) = ld32 (hmem h) (a + j - 4)" if "B a = Some (j, Free)" for a j
      unfolding m'_def using footer_store [OF i(1) that al(1)] footer_store [OF i(1) that al(2)] by simp
    show "\<exists>p. ld32 m' a = hdr j (su = Used) p" if "B' a = Some (j, su)" "su \<noteq> Hole" for a j su
      using ld [OF that(1)] that tagsD(1) [OF i(4), of a j su] fresh by (auto simp: B'_def split: if_splits)
    show "prev_inuse m' a = (\<not> before Free B a)" if a: "a \<in> dom B'" and nh: "\<not> before Hole B' a" for a
    proof -
      obtain j su where j: "B' a = Some (j, su)" using a by auto
      have "\<not> before Hole B a" using nh bh [of a] oh [of a] by auto
      then have old: "prev_inuse (hmem h) a = (\<not> before Free B a)" if "B a = Some (l, sv)" for l sv
        using tagsD(2) [OF i(4) that] by simp
      show ?thesis
        using ld [OF j] hdr_flags(2) [OF k] hdr_flags(2) [OF sz(2)] old bfr b(1) j
        by (cases "a = b + sz"; cases "a = b") (auto simp: prev_inuse_def B'_def)
    qed
  qed
  ultimately show "heap_inv (h\<lparr>hmem := m'\<rparr>) B' S L MM" by (simp add: heap_inv_core)
  show "hole_at B' (b + sz) (n - sz)" using only b(1) sz by (auto simp: hole_at_def B'_def)
  show "\<not> before Free B' (b + sz)" using bfr before_free_cong [of B' B, OF fr] by simp
  show "B' (b + sz + (n - sz)) = B (b + n)" using sz by (auto simp: B'_def)
qed

lemma st32_off_head: "tiles B S \<Longrightarrow> y \<in> pay B \<Longrightarrow> B a = Some (n, st) \<Longrightarrow> st32 a v m y = m y"
  using pay_apart(1) [of B S y a n st] st32_same [of y a v m] by auto

lemma st32_in_block: "tiles B S \<Longrightarrow> y \<in> pay B \<Longrightarrow> B a = Some (n, st) \<Longrightarrow> st \<noteq> Used \<Longrightarrow> a \<le> c \<Longrightarrow> c + 4 \<le> a + n \<Longrightarrow> st32 c v m y = m y"
  using pay_apart(2) [of B S y a n st] st32_same [of y c v m] by auto

lemma before_unique:
  assumes t: "tiles B S" and b: "B b = Some (n, st)" "n \<noteq> 0" and p: "before su B (b + n)" and su: "su \<noteq> Used"
  shows "su = st"
proof -
  obtain q j where q: "B q = Some (j, su)" "q + j = b + n" using p by (rule beforeE)
  have "j \<noteq> 0" using tilesD(5) [OF t q(1)] su by blast
  then have "q = b" using tiles_disjoint [OF t q(1) b(1)] q(2) b(2) by linarith
  then show ?thesis using q(1) b(1) by simp
qed

text \<open>The whole hole goes into use.\<close>

lemma use_hole:
  assumes inv: "heap_inv h B S L MM" and hole: "hole_at B b n" and nx: "B (b + n) = Some (k, Used)"
  defines "m1 \<equiv> st32 b (of_nat n OR INUSE OR (ld32 (hmem h) b AND PREV_INUSE)) (hmem h)"
  defines "h' \<equiv> h\<lparr>hmem := set_prev_inuse (next_block m1 b) True m1\<rparr>"
  shows "heap_inv h' (B(b \<mapsto> (n, Used))) S L MM" and "no_hole (B(b \<mapsto> (n, Used)))" and "keeps B h h'"
proof -
  let ?B = "B(b \<mapsto> (n, Used))"
  note i = heap_invD [OF inv] and hD = hole_atD [OF hole]
  have n0: "n \<noteq> 0" by (rule hole_size [OF inv hole])
  have n8: "n mod 8 = 0" "b mod 8 = 4" "(b + n) mod 8 = 4" "k mod 8 = 0"
    using tilesD(1,2) [OF i(1) hD(1)] tilesD(1,2) [OF i(1) nx] by auto
  have t': "tiles ?B S" by (rule tiles_state [OF i(1) hD(1) n0])
  have m1: "m1 = st32 b (hdr n True (prev_inuse (hmem h) b)) (hmem h)"
    using hdr_eqs(5) [OF n8(1)] by (simp add: m1_def prev_inuse_def)
  obtain p where p: "ld32 (hmem h) (b + n) = hdr k True p" using blk_reads(5) [OF inv nx] by auto
  have p1: "ld32 m1 (b + n) = hdr k True p" using head_store [OF i(1) nx n8(2)] p n0 by (simp add: m1)
  have nb: "next_block m1 b = b + n" using hdr_reads(5) [of m1 b n] n8(1) blk_u32(2) [OF inv hD(1)] by (simp add: m1)
  have h': "h' = h\<lparr>hmem := st32 (b + n) (hdr k True True) m1\<rparr>"
    using set_prev_inuse_hdr [OF p1 n8(4)] by (simp add: h'_def nb)
  have fr: "?B a = Some (j, Free) \<longleftrightarrow> B a = Some (j, Free)" for a j using hD(1) by auto
  have bh: "\<not> before Hole ?B a" for a using hD(2) by (auto elim!: beforeE split: if_splits)
  have ld: "ld32 (hmem h') a = (if a = b + n then hdr k True True else if a = b then hdr n True (prev_inuse (hmem h) b) else ld32 (hmem h) a)"
    if "?B a = Some (j, st)" for a j st
    using head_store [OF t' that n8(2)] head_store [OF t' that n8(3)] by (simp add: h' m1)
  have "heap_core h' B S L MM"
    using store_core [OF store_core [OF _ head_place_at [OF i(1) hD(1)]] head_place_at [OF i(1) nx]] inv
    unfolding heap_inv_core h' m1 by fastforce
  then have "heap_core h' ?B S L MM" by (rule heap_core_ghost [OF _ t' fr])
  moreover have "tags (hmem h') ?B"
  proof (rule tags_same_free [OF i(4) fr])
    show "ld32 (hmem h') (a + j - 4) = ld32 (hmem h) (a + j - 4)" if "B a = Some (j, Free)" for a j
      using footer_store [OF i(1) that n8(2)] footer_store [OF i(1) that n8(3)] by (simp add: h' m1)
    show "\<exists>p. ld32 (hmem h') a = hdr j (su = Used) p" if "?B a = Some (j, su)" "su \<noteq> Hole" for a j su
      using ld [OF that(1)] that tagsD(1) [OF i(4), of a j su] nx n0 by (auto split: if_splits)
    show "prev_inuse (hmem h') a = (\<not> before Free B a)" if "a \<in> dom ?B" for a
    proof -
      obtain j su where j: "?B a = Some (j, su)" using \<open>a \<in> dom ?B\<close> by fastforce
      have "\<not> before Free B (b + n)"
        using before_unique [OF i(1) hD(1) n0, of Free] by auto
      moreover have "prev_inuse (hmem h) a = (\<not> before Free B a)" if "a \<noteq> b + n"
        using tagsD(2) [OF i(4), of a] hD(1,3) that j by (cases "a = b") auto
      ultimately show ?thesis
        using ld [OF j] hdr_flags(2) [OF n8(4), of True True] hdr_flags(2) [OF n8(1), of True "prev_inuse (hmem h) b"]
          prev_inuse_cong [of "hmem h'" a "hmem h"] n0 by (auto simp: prev_inuse_def [of "hmem h'"] split: if_splits)
    qed
  qed
  ultimately show "heap_inv h' ?B S L MM" by (simp add: heap_inv_core)
  show "no_hole ?B" using hD(2) by (auto simp: no_hole_def)
  have "hmem h' y = hmem h y" if "y \<in> pay B" for y
    using st32_off_head [OF i(1) that hD(1)] st32_off_head [OF i(1) that nx] by (simp add: h' m1)
  moreover have "hmem h' y = hmem h y" if "kbrk h \<le> y" for y
    using blk_below(1) [OF i(1,2) hD(1)] blk_below(1) [OF i(1,2) nx] that by (simp add: h' m1 st32_same)
  ultimately show "keeps B h h'" by (auto simp: keeps_def same_env_def h'_def)
qed

text \<open>One block of the program more, the others as before.\<close>

definition used_plus :: "blocks \<Rightarrow> nat \<Rightarrow> nat \<Rightarrow> blocks \<Rightarrow> bool" where
  "used_plus B b n B' \<longleftrightarrow> B' b = Some (n, Used) \<and> (\<forall>a k. a \<noteq> b \<longrightarrow> k \<noteq> 0 \<longrightarrow> B' a = Some (k, Used) \<longleftrightarrow> B a = Some (k, Used))"

lemma carve_block_spec:
  assumes inv: "heap_inv h B S L MM" and hole: "hole_at B b n" and nx: "B (b + n) = Some (k, Used)"
    and bs: "bsize (hmem h) b = n" and sz: "16 \<le> sz" "sz mod 8 = 0" "sz \<le> n"
  obtains B' L' n' where "heap_inv (carve_block b sz h) B' S L' MM" and "no_hole B'" and "used_plus B b n' B'"
    and "sz \<le> n'" and "keeps B h (carve_block b sz h)"
proof (cases "MIN_BLOCK \<le> n - sz")
  case True
  then have sz': "sz + 16 \<le> n" using sz by (simp add: malloc_consts)
  note i = heap_invD [OF inv] and hD = hole_atD [OF hole]
  define m1 where "m1 = st32 (b + sz) (hdr 0 False True) (st32 b (of_nat sz OR INUSE OR (ld32 (hmem h) b AND PREV_INUSE)) (hmem h))"
  let ?B = "B(b \<mapsto> (sz, Used), b + sz \<mapsto> (n - sz, Hole))" and ?h = "h\<lparr>hmem := m1\<rparr>"
  note sp = split_spec [OF inv hD(1) _ _ sz(1,2) sz', of 0, folded m1_def]
  have inv1: "heap_inv ?h ?B S L MM" "hole_at ?B (b + sz) (n - sz)" "\<not> before Free ?B (b + sz)"
    "?B (b + sz + (n - sz)) = Some (k, Used)" using sp hD(2) nx by auto
  note mf = make_free_spec [OF inv1(1,2,4,3)]
  have e: "carve_block b sz h = make_free (b + sz) (n - sz) ?h"
    using True by (simp add: carve_block_def bs Let_def m1_def hdr_consts(1))
  let ?B2 = "?B(b + sz \<mapsto> (n - sz, Free))"
  have fresh: "B (b + sz) = None" using not_header_inside [OF i(1) hD(1), of "b + sz"] sz sz' by auto
  have pay1: "y \<in> pay ?B" if "y \<in> pay B" for y
  proof -
    obtain a j where a: "B a = Some (j, Used)" "a + 4 \<le> y" "y < a + j" using \<open>y \<in> pay B\<close> by (auto simp: pay_def)
    then have "?B a = Some (j, Used)" using hD(1) fresh by auto
    then show ?thesis using a unfolding pay_def by blast
  qed
  show ?thesis
  proof (rule that [of ?B2 _ sz])
    show "heap_inv (carve_block b sz h) ?B2 S (L(bin_of (n - sz) := (b + sz) # L (bin_of (n - sz)))) MM"
      using mf(1) by (simp add: e)
    show "no_hole ?B2" using hD(2) by (auto simp: no_hole_def)
    show "used_plus B b sz ?B2" using hD(1) fresh sz sz' by (auto simp: used_plus_def)
    have "m1 y = hmem h y" if "y \<in> pay B" for y
      using st32_in_block [OF i(1) that hD(1), of b] st32_in_block [OF i(1) that hD(1), of "b + sz"] sz sz' by (simp add: m1_def)
    moreover have "m1 y = hmem h y" if "kbrk h \<le> y" for y
      using blk_below(1) [OF i(1,2) hD(1)] that sz' by (simp add: m1_def st32_same)
    ultimately show "keeps B h (carve_block b sz h)"
      using mf(2,3) pay1 unfolding e by (auto simp: keeps_def same_env_def)
  qed simp
next
  case False
  note u = use_hole [OF inv hole nx]
  have e: "carve_block b sz h = h\<lparr>hmem := set_prev_inuse (next_block (st32 b (of_nat n OR INUSE OR (ld32 (hmem h) b AND PREV_INUSE)) (hmem h)) b) True
      (st32 b (of_nat n OR INUSE OR (ld32 (hmem h) b AND PREV_INUSE)) (hmem h))\<rparr>"
    using False by (simp add: carve_block_def bs Let_def)
  show ?thesis
    by (rule that [of "B(b \<mapsto> (n, Used))" L n]) (use u sz hole_atD(1) [OF hole] in \<open>auto simp: e used_plus_def\<close>)
qed

subsection \<open>Marking a block free\<close>

lemma mark_free:
  assumes inv: "heap_inv h B S L MM" and nh: "no_hole B" and b: "B b = Some (n, Used)" "n \<noteq> 0"
  defines "h' \<equiv> h\<lparr>hmem := st32 b (ld32 (hmem h) b AND NOT INUSE) (hmem h)\<rparr>"
  shows "heap_inv h' (B(b \<mapsto> (n, Hole))) S L MM" and "hole_at (B(b \<mapsto> (n, Hole))) b n"
    and "bsize (hmem h') b = n" and "keeps (B(b \<mapsto> (n, Hole))) h h'"
proof -
  let ?B = "B(b \<mapsto> (n, Hole))"
  note i = heap_invD [OF inv]
  have n8: "n mod 8 = 0" "b mod 8 = 4" using tilesD(1,2) [OF i(1) b(1)] by auto
  have t': "tiles ?B S" by (rule tiles_state [OF i(1) b])
  obtain p where p: "ld32 (hmem h) b = hdr n True p" using blk_reads(5) [OF inv b(1)] by auto
  have h': "h' = h\<lparr>hmem := st32 b (hdr n False p) (hmem h)\<rparr>" using p hdr_eqs(3) [OF n8(1)] by (simp add: h'_def)
  have fr: "?B a = Some (j, Free) \<longleftrightarrow> B a = Some (j, Free)" for a j using b(1) by auto
  have bh: "before Hole ?B a \<longleftrightarrow> a = b + n" for a
    using beforeI [of ?B b n Hole a] nh by (auto simp: no_hole_def elim!: beforeE split: if_splits)
  have ld: "ld32 (hmem h') a = (if a = b then hdr n False p else ld32 (hmem h) a)" if "?B a = Some (j, st)" for a j st
    using head_store [OF t' that n8(2)] by (simp add: h')
  have "heap_core h' B S L MM"
    using store_core [OF _ head_place_at [OF i(1) b(1)]] inv unfolding heap_inv_core h' by fastforce
  then have "heap_core h' ?B S L MM" by (rule heap_core_ghost [OF _ t' fr])
  moreover have "tags (hmem h') ?B"
  proof (rule tags_same_free [OF i(4) fr])
    show "ld32 (hmem h') (a + j - 4) = ld32 (hmem h) (a + j - 4)" if "B a = Some (j, Free)" for a j
      using footer_store [OF i(1) that n8(2)] by (simp add: h')
    show "\<exists>q. ld32 (hmem h') a = hdr j (su = Used) q" if "?B a = Some (j, su)" "su \<noteq> Hole" for a j su
      using ld [OF that(1)] that tagsD(1) [OF i(4), of a j su] by (auto split: if_splits)
    show "prev_inuse (hmem h') a = (\<not> before Free B a)" if a: "a \<in> dom ?B" for a
    proof -
      obtain j su where j: "?B a = Some (j, su)" using a by fastforce
      have "\<not> before Hole B a" using nh by (auto simp: no_hole_def elim!: beforeE)
      then have "prev_inuse (hmem h) a = (\<not> before Free B a)"
        using tagsD(2) [OF i(4), of a] b(1) j by (cases "a = b") auto
      then show ?thesis
        using ld [OF j] hdr_flags(2) [OF n8(1), of False p] hdr_flags(2) [OF n8(1), of True p] p by (auto simp: prev_inuse_def split: if_splits)
    qed
  qed
  ultimately show "heap_inv h' ?B S L MM" by (simp add: heap_inv_core)
  show "hole_at ?B b n" using nh by (auto simp: hole_at_def no_hole_def)
  show "bsize (hmem h') b = n" using hdr_reads(1) [of "hmem h'" b n False p] n8(1) blk_u32(2) [OF inv b(1)] by (simp add: h')
  have "hmem h' y = hmem h y" if "y \<in> pay ?B" for y
    using st32_off_head [OF t' that, of b n Hole] by (simp add: h')
  moreover have "hmem h' y = hmem h y" if "kbrk h \<le> y" for y
    using blk_below(1) [OF i(1,2) b(1)] that by (simp add: h' st32_same)
  ultimately show "keeps ?B h h'" by (auto simp: keeps_def same_env_def h')
qed

subsection \<open>The break\<close>

lemma cur_brk_known: "sys_wf h \<Longrightarrow> (if cur_brk h = 0 then h\<lparr>cur_brk := kbrk h\<rparr> else h) = h\<lparr>cur_brk := kbrk h\<rparr>"
  by (cases h) (auto simp: sys_wf_def)

lemma sbrk_0: "sys_wf h \<Longrightarrow> sbrk sys 0 h = (Some (kbrk h), h\<lparr>cur_brk := kbrk h\<rparr>)"
  unfolding sbrk_def cur_brk_known by (simp only: Let_def simp_thms if_True) simp

lemma sbrk_up:
  assumes "sys_wf h" and "mapped_ok h MM" and "0 < n" and "n < 4294967296"
  obtains (refused) "sbrk sys (int n) h = (None, h\<lparr>cur_brk := kbrk h\<rparr>)"
  | (moved) "sbrk sys (int n) h = (Some (kbrk h), h\<lparr>cur_brk := kbrk h + n, kbrk := kbrk h + n\<rparr>)"
      and "kbrk h + n \<le> USER_BRK_LIMIT" and "\<And>a l. (a, l) \<in> set (maps h) \<Longrightarrow> kbrk h + n \<le> a"
proof -
  define h0 where "h0 = h\<lparr>cur_brk := kbrk h\<rparr>"
  have h0: "(if cur_brk h = 0 then h\<lparr>cur_brk := kbrk h\<rparr> else h) = h0" unfolding h0_def by (rule cur_brk_known [OF assms(1)])
  have k: "kbrk h < 4294967296" by (rule brk_limit_u32 [OF assms(1)])
  have c: "cur_brk h0 = kbrk h" "kbrk h0 = kbrk h" by (simp_all add: h0_def)
  have e: "sbrk sys (int n) h =
     (let want = nat ((int (kbrk h) + int n) mod 2 ^ 32)
      in if want < kbrk h then (None, h0)
         else let (ok, h1) = brk sys want h0 in (if ok then Some (kbrk h) else None, h1))"
    using assms(3) unfolding sbrk_def h0 Let_def c by simp
  show thesis
  proof (cases "kbrk h + n < 4294967296")
    case False
    define y where "y = kbrk h + n - 4294967296"
    have y: "kbrk h + n = y + 4294967296" "y < 4294967296" "y < kbrk h" using False k assms(4) by (auto simp: y_def)
    have "int (kbrk h) + int n = int y + 4294967296" using y(1) by linarith
    then have "(int (kbrk h) + int n) mod 2 ^ 32 = int y" using y(2) by simp
    then have "nat ((int (kbrk h) + int n) mod 2 ^ 32) < kbrk h" using y(3) by simp
    then show thesis using refused e by (simp add: h0_def)
  next
    case True
    then have w: "nat ((int (kbrk h) + int n) mod 2 ^ 32) = kbrk h + n" by (simp add: nat_add_distrib)
    have e': "sbrk sys (int n) h = (let (ok, h1) = brk sys (kbrk h + n) h0 in (if ok then Some (kbrk h) else None, h1))"
      unfolding e w Let_def by simp
    have sb: "sys_brk sys (kbrk h + n) h0 = (kbrk h, h0) \<or>
        sys_brk sys (kbrk h + n) h0 = (kbrk h + n, h0\<lparr>kbrk := kbrk h + n\<rparr>) \<and> kbrk h + n \<le> USER_BRK_LIMIT \<and>
          list_all (\<lambda>(a, l). kbrk h + n \<le> a \<or> a + l \<le> kbrk h) (maps h)"
      by (simp add: sys_brk_def h0_def)
    have up: "kbrk h + n \<le> a" if "list_all (\<lambda>(a, l). kbrk h + n \<le> a \<or> a + l \<le> kbrk h) (maps h)" "(a, l) \<in> set (maps h)" for a l
    proof -
      have "kbrk h \<le> a" "0 < l" using assms(2) that(2) by (auto simp: mapped_ok_def)
      then show ?thesis using that by (fastforce simp: list_all_iff)
    qed
    show thesis using sb
    proof (elim disjE conjE)
      assume "sys_brk sys (kbrk h + n) h0 = (kbrk h, h0)"
      then show thesis using refused e' assms(3) by (simp add: brk_def h0_def)
    next
      assume "sys_brk sys (kbrk h + n) h0 = (kbrk h + n, h0\<lparr>kbrk := kbrk h + n\<rparr>)" "kbrk h + n \<le> USER_BRK_LIMIT"
        "list_all (\<lambda>(a, l). kbrk h + n \<le> a \<or> a + l \<le> kbrk h) (maps h)"
      then show thesis using moved e' up by (simp add: brk_def h0_def)
    qed
  qed
qed

lemma sbrk_down:
  assumes "sys_wf h" and "0 < n" and "n < kbrk h"
  obtains (refused) "sbrk sys (- int n) h = (None, h\<lparr>cur_brk := kbrk h\<rparr>)"
  | (moved) "sbrk sys (- int n) h = (Some (kbrk h), h\<lparr>cur_brk := kbrk h - n, kbrk := kbrk h - n\<rparr>)"
      and "kbrk_start h \<le> kbrk h - n"
proof -
  define h0 where "h0 = h\<lparr>cur_brk := kbrk h\<rparr>"
  have h0: "(if cur_brk h = 0 then h\<lparr>cur_brk := kbrk h\<rparr> else h) = h0" unfolding h0_def by (rule cur_brk_known [OF assms(1)])
  have k: "kbrk h < 4294967296" by (rule brk_limit_u32 [OF assms(1)])
  have c: "cur_brk h0 = kbrk h" "kbrk h0 = kbrk h" by (simp_all add: h0_def)
  have "int (kbrk h) + - int n = int (kbrk h - n)" using assms(3) by simp
  then have w: "nat ((int (kbrk h) + - int n) mod 2 ^ 32) = kbrk h - n" using k by (simp del: of_nat_diff)
  have e: "sbrk sys (- int n) h = (let (ok, h1) = brk sys (kbrk h - n) h0 in (if ok then Some (kbrk h) else None, h1))"
    using assms(2,3) unfolding sbrk_def h0 Let_def c w by auto
  have "sys_brk sys (kbrk h - n) h0 = (kbrk h, h0) \<or>
      sys_brk sys (kbrk h - n) h0 = (kbrk h - n, h0\<lparr>kbrk := kbrk h - n\<rparr>) \<and> kbrk_start h \<le> kbrk h - n"
    by (simp add: sys_brk_def h0_def)
  then show thesis
    using refused moved e assms(2,3) by (elim disjE conjE) (simp_all add: brk_def h0_def)
qed

lemma heap_inv_cur: "heap_inv h B S L MM \<Longrightarrow> heap_inv (h\<lparr>cur_brk := kbrk h\<rparr>) B S L MM"
  by (simp add: heap_inv_def mapped_ok_def sys_wf_def)

subsection \<open>Extending the newest segment\<close>

lemma blk_not_end:
  assumes "tiles B S" and "seg_ok lo hi S" and "B a = Some (n, st)" and "hi = e + 4" and "a \<noteq> e"
  shows "a + n \<le> e" and "a + 8 \<le> e \<or> e mod 8 \<noteq> 4" and "a < e"
proof -
  show le: "a + n \<le> e" using blk_below(1) [OF assms(1,2,3)] assms(4) by simp
  then show "a < e" using assms(5) by simp
  then show "a + 8 \<le> e \<or> e mod 8 \<noteq> 4" using at4_apart [of a e] tilesD(1) [OF assms(1,3)] by fastforce
qed

lemma tiles_grow:
  assumes t: "tiles B ((s, len0) # S)" and g: "seg_ok lo hi ((s, len0) # S)" and hi: "s + len0 = hi"
    and len: "16 \<le> len" "len mod 8 = 0"
  defines "e \<equiv> s + len0 - 4"
  shows "tiles (B(e \<mapsto> (len, Hole), e + len \<mapsto> (0, Used))) ((s, len0 + len) # S)" (is "tiles ?B ?S")
proof (rule tilesI)
  have l0: "4096 \<le> len0" using seg_okD(6) [OF g, of s len0] by simp
  have he: "hi = e + 4" "s + 12 \<le> e" "s + len0 = e + 4" using l0 hi by (auto simp: e_def)
  have e: "B e = Some (0, Used)" using tiles_seg [OF t, of s len0] by (simp add: e_def)
  have e4: "e mod 8 = 4" "(e + len) mod 8 = 4"
    using tilesD(1) [OF t e] len(2) by (auto simp: mod_add_right_eq [of e len 8, symmetric])
  note ne = blk_not_end [OF t g _ he(1)]
  have B: "?B a = Some (n, st) \<longleftrightarrow> a = e + len \<and> n = 0 \<and> st = Used \<or> a = e \<and> n = len \<and> st = Hole \<or> a \<noteq> e \<and> a \<noteq> e + len \<and> B a = Some (n, st)" for a n st
    using len(1) by auto
  show "blk_ok ?B ?S a n st" if ab: "?B a = Some (n, st)" for a n st
  proof -
    consider "a = e + len" "n = 0" "st = Used" | "a = e" "n = len" "st = Hole" | "a \<noteq> e" "B a = Some (n, st)"
      using ab [unfolded B] by blast
    then show ?thesis
    proof cases
      case 1
      then show ?thesis using e4 he len by (auto simp: blk_ok_def in_seg_def seg_end_def)
    next
      case 2
      then show ?thesis using e4 he len by (auto simp: blk_ok_def in_seg_def)
    next
      case 3
      have "in_seg ?S a (a + n)" using tilesD(8) [OF t 3(2)] by (auto simp: in_seg_def)
      moreover have "seg_end ?S a" if "n = 0" using tilesD(7) [OF t 3(2) that] he(3) 3(1) by (auto simp: seg_end_def)
      moreover have "a + n \<in> dom ?B" if "n \<noteq> 0" using tilesD(4) [OF t 3(2) that] by auto
      ultimately show ?thesis using tiles_blk [OF t 3(2)] unfolding blk_ok_def by auto
    qed
  qed
  show "a + n \<le> a'" if "?B a = Some (n, st)" "?B a' = Some (n', st')" "a < a'" for a n st a' n' st'
    using that ne [of a n st] ne [of a' n' st'] tiles_apart [OF t, of a n st a' n' st'] unfolding B by auto
  show "s' + 12 \<in> dom ?B \<and> ?B (s' + len' - 4) = Some (0, Used)" if "(s', len') \<in> set ?S" for s' len'
  proof (cases "(s', len') = (s, len0 + len)")
    case True
    then show ?thesis using tiles_seg [OF t, of s len0] he by (auto simp: algebra_simps e_def)
  next
    case False
    then have s': "(s', len') \<in> set S" using that by auto
    have "s' + len' \<le> s" using g s' by (auto simp: seg_ok_def)
    moreover have "4096 \<le> len'" using seg_okD(6) [OF g, of s' len'] s' by simp
    ultimately have "s' + len' - 4 \<noteq> e \<and> s' + len' - 4 \<noteq> e + len" using he by auto
    then show ?thesis using tiles_seg [OF t, of s' len'] s' by auto
  qed
qed

text \<open>The invariant carried to a heap whose segments have changed while the free blocks have not.\<close>

lemma reshape:
  assumes inv: "heap_inv h B S L MM"
    and t': "tiles B' S'" and g': "seg_ok (kbrk_start h') (kbrk h') S'" and c': "seg_chain (hmem h') (segments h') S'"
    and env: "sys_wf h'" "bins h' = bins h" "maps h' = maps h" "\<And>a l. (a, l) \<in> set (maps h) \<Longrightarrow> kbrk h' \<le> a"
    and fr: "\<And>a n. B' a = Some (n, Free) \<longleftrightarrow> B a = Some (n, Free)"
    and lk: "\<And>x n w. B x = Some (n, Free) \<Longrightarrow> w = x + 4 \<or> w = x + 8 \<or> w = x + n - 4 \<Longrightarrow> ld32 (hmem h') w = ld32 (hmem h) w"
    and mp: "\<And>a l. (a, l) \<in> MM \<Longrightarrow> ld32 (hmem h') (a + 4) = ld32 (hmem h) (a + 4)"
    and hd: "\<And>a n st. B' a = Some (n, st) \<Longrightarrow> st \<noteq> Hole \<Longrightarrow> \<exists>p. ld32 (hmem h') a = hdr n (st = Used) p"
    and pv: "\<And>a. a \<in> dom B' \<Longrightarrow> \<not> before Hole B' a \<Longrightarrow> prev_inuse (hmem h') a = (\<not> before Free B a)"
  shows "heap_inv h' B' S' L MM"
proof -
  note i = heap_invD [OF inv]
  have "tags (hmem h') B'" using tags_same_free [OF i(4) fr _ hd pv] lk by blast
  moreover have "listed (hmem h') (bins h') B L" unfolding env(2) using listed_cong [OF i(5)] lk by blast
  then have "listed (hmem h') (bins h') B' L" using listed_free_cong [of B' B, OF fr] by simp
  moreover have "mapped_ok h' MM"
    using i(6) mp env(3,4) unfolding mapped_ok_def by (fastforce split: prod.splits)
  ultimately show ?thesis using t' g' c' env(1) by (simp add: heap_inv_def)
qed

text \<open>Bytes the program may see, in blocks of the heap and in mappings of their own.\<close>

definition pres :: "blocks \<Rightarrow> (nat \<times> nat) set \<Rightarrow> heap \<Rightarrow> heap \<Rightarrow> bool" where
  "pres B MM h h' \<longleftrightarrow> (\<forall>y. y \<in> pay B \<or> (\<exists>(a, l)\<in>MM. a + 8 \<le> y \<and> y < a + l) \<longrightarrow> hmem h' y = hmem h y)"

lemma keeps_pres:
  assumes "keeps B h h'" and "mapped_ok h MM"
  shows "pres B MM h h'"
proof -
  have "kbrk h \<le> y" if "(a, l) \<in> MM" "a + 8 \<le> y" for a l y using assms(2) that by (fastforce simp: mapped_ok_def)
  then show ?thesis using assms(1) unfolding pres_def keeps_def by blast
qed

lemma pres_trans: "pres B MM h h1 \<Longrightarrow> pay B \<subseteq> pay B1 \<Longrightarrow> pres B1 MM h1 h2 \<Longrightarrow> pres B MM h h2"
  unfolding pres_def by (metis (no_types, lifting) subsetD)

lemma word_store: "w mod 4 = 0 \<Longrightarrow> c mod 4 = 0 \<Longrightarrow> w \<noteq> c \<Longrightarrow> ld32 (st32 c v m) w = ld32 m w" for w c :: nat
  by (simp add: ld32_st32_aligned)

lemma presI:
  assumes "\<And>y. y \<in> pay B \<Longrightarrow> hmem h' y = hmem h y"
    and "\<And>a l y. (a, l) \<in> MM \<Longrightarrow> a + 8 \<le> y \<Longrightarrow> y < a + l \<Longrightarrow> hmem h' y = hmem h y"
  shows "pres B MM h h'"
  using assms unfolding pres_def by blast

lemma seg_ok_grow:
  assumes "seg_ok lo hi ((s, len0) # S)" and "len mod 4096 = 0" and "hi' = s + len0 + len"
  shows "seg_ok lo hi' ((s, len0 + len) # S)"
  using assms unfolding seg_ok_def by (auto simp: mod_add_left_eq [symmetric] mod_eq_0_iff_dvd)

lemma newest_words:
  assumes t: "tiles B ((s, len0) # S)" and g: "seg_ok lo (e + 4) ((s, len0) # S)" and hi: "s + len0 = e + 4"
  shows "s mod 8 = 0" "(s + 4) mod 8 = 4" "e mod 8 = 4" "B e = Some (0, Used)" "s + 4096 \<le> e + 4"
    and "B x = Some (n, st) \<Longrightarrow> x \<noteq> s + 4 \<and> (16 \<le> n \<longrightarrow> x + 4 \<noteq> s + 4 \<and> x + 8 \<noteq> s + 4 \<and> x + n - 4 \<noteq> s + 4)"
    and "B x = Some (n, st) \<Longrightarrow> x \<noteq> e \<Longrightarrow> x + n \<le> e \<and> x + 8 \<le> e"
proof -
  have m: "(s, len0) \<in> set ((s, len0) # S)" by simp
  show s: "s mod 8 = 0" using seg_okD(2) [OF g m] .
  then show "(s + 4) mod 8 = 4" by (simp add: mod_add_left_eq [of s 8 4, symmetric])
  show l: "s + 4096 \<le> e + 4" using seg_okD(6) [OF g m] hi by simp
  have "e = s + len0 - 4" using hi by simp
  then show e: "B e = Some (0, Used)" using tiles_seg [OF t m] by simp
  show e4: "e mod 8 = 4" by (rule tilesD(1) [OF t e])
  show "x \<noteq> s + 4 \<and> (16 \<le> n \<longrightarrow> x + 4 \<noteq> s + 4 \<and> x + 8 \<noteq> s + 4 \<and> x + n - 4 \<noteq> s + 4)" if x: "B x = Some (n, st)"
  proof -
    have "x + n + 4 \<le> s \<or> s + 12 \<le> x" using blk_seg_apart [OF t g x m] l hi by linarith
    then show ?thesis by auto
  qed
  show "x + n \<le> e \<and> x + 8 \<le> e" if "B x = Some (n, st)" "x \<noteq> e"
    using blk_not_end [OF t g that(1) refl that(2)] e4 by blast
qed

lemma seg_word_al:
  assumes "s mod 8 = 0" and "w = s \<or> w = s + (4 :: nat)"
  shows "w mod 4 = 0"
proof -
  obtain k where "s = 8 * k" using assms(1) by auto
  then show ?thesis using assms(2) by (auto simp: mod_simps)
qed

lemma newest_pay:
  assumes t: "tiles B ((s, len0) # S)" and g: "seg_ok lo (e + 4) ((s, len0) # S)" and hi: "s + len0 = e + 4"
    and y: "y \<in> pay B"
  shows "y < s \<or> s + 16 \<le> y" and "y < e"
proof -
  obtain a n where a: "B a = Some (n, Used)" "a + 4 \<le> y" "y < a + n" using y by (auto simp: pay_def)
  note nw = newest_words [OF t g hi]
  have "a \<noteq> e" using a nw(4) by auto
  then show "y < e" using nw(7) [OF a(1)] a(3) by simp
  have "a + n + 4 \<le> s \<or> s + 12 \<le> a" using blk_seg_apart [OF t g a(1), of s len0] nw(5) hi by auto
  then show "y < s \<or> s + 16 \<le> y" using a by linarith
qed

lemma grow_top_inv:
  assumes inv: "heap_inv h B ((s, len0) # S) L MM" and nh: "no_hole B" and he: "s + len0 = e + 4" "kbrk h = e + 4"
    and len: "len mod 4096 = 0" "16 \<le> len" "len mod 8 = 0" "e + 4 + len \<le> USER_BRK_LIMIT"
    and mp: "\<forall>(a, l)\<in>set (maps h). e + 4 + len \<le> a"
  defines "m3 \<equiv> st32 e (hdr len False (prev_inuse (hmem h) e)) (st32 (e + len) (hdr 0 True False)
        (st32 (s + 4) (of_nat (len0 + len)) (hmem h)))"
  defines "h3 \<equiv> h\<lparr>cur_brk := e + 4 + len, kbrk := e + 4 + len, hmem := m3, arena_bytes := arena_bytes h + of_nat len\<rparr>"
    and "B' \<equiv> B(e \<mapsto> (len, Hole), e + len \<mapsto> (0, Used))"
  shows "heap_inv h3 B' ((s, len0 + len) # S) L MM" and "hole_at B' e len" and "bsize m3 e = len"
    and "y \<in> pay B \<or> e + 4 + len \<le> y \<Longrightarrow> m3 y = hmem h y"
proof -
  note i = heap_invD [OF inv]
  note nw = newest_words [OF i(1) i(2) [unfolded he(2)] he(1)]
  have al: "e mod 4 = 0" "(e + len) mod 4 = 0" "(s + 4) mod 4 = 0" "(e + len) mod 8 = 4"
    using at4_simps(1) [OF nw(3)] at4_simps(1) [OF nw(2)] len(3) nw(3) at4_simps(1) [of "e + len"]
    by (auto simp: mod_add_right_eq [of e len 8, symmetric])
  have u32: "len0 + len < 4294967296" "len < 4294967296" using len(4) he(1) by (auto simp: USER_BRK_LIMIT_def)
  have ne: "s + 4 \<noteq> e" "s + 4 \<noteq> e + len" "s \<noteq> e" "s \<noteq> e + len" using nw(5) len(2) by auto
  have ldw: "ld32 m3 w = ld32 (hmem h) w" if "w mod 4 = 0" "w \<noteq> e" "w \<noteq> e + len" "w \<noteq> s + 4" for w
    using that al by (simp add: m3_def word_store)
  have B': "B' a = Some (n, st) \<longleftrightarrow> a = e + len \<and> n = 0 \<and> st = Used \<or> a = e \<and> n = len \<and> st = Hole \<or>
      a \<noteq> e \<and> a \<noteq> e + len \<and> B a = Some (n, st)" for a n st using len(2) by (auto simp: B'_def)
  have old: "a \<noteq> e + len" if "B a = Some (n, st)" for a n st
    using nw(7) [OF that] that len(2) by (cases "a = e") auto
  have hdr_ld: "ld32 m3 a = ld32 (hmem h) a" if "B a = Some (n, st)" "a \<noteq> e" for a n st
    using ldw [of a] at4_simps(1) [OF tilesD(1) [OF i(1) that(1)]] that(2) old [OF that(1)] nw(6) [OF that(1)] by blast
  have fr: "B' a = Some (n, Free) \<longleftrightarrow> B a = Some (n, Free)" for a n using B' [of a n Free] old [of a n Free] nw(4) by auto
  have nb: "\<not> before Hole B a" for a using nh by (auto simp: no_hole_def elim!: beforeE)
  show hole: "hole_at B' e len" using nh len(2) by (auto simp: hole_at_def B'_def no_hole_def)
  have lde: "ld32 m3 e = hdr len False (prev_inuse (hmem h) e)" "ld32 m3 (e + len) = hdr 0 True False"
    "ld32 m3 (s + 4) = of_nat (len0 + len)"
    using al ne len(2) by (simp_all add: m3_def ld32_st32_aligned)
  show "bsize m3 e = len" using hdr_reads(1) [OF lde(1) len(3) u32(2)] .
  show "heap_inv h3 B' ((s, len0 + len) # S) L MM"
  proof (rule reshape [OF inv])
    have "s + len0 = kbrk h" "16 \<le> len" using he len by auto
    then show "tiles B' ((s, len0 + len) # S)"
      using tiles_grow [OF i(1,2)] len(3) he unfolding B'_def by (metis add_diff_cancel_right')
    show "seg_ok (kbrk_start h3) (kbrk h3) ((s, len0 + len) # S)"
      using seg_ok_grow [OF i(2) len(1)] he by (simp add: h3_def)
    have "seg_chain m3 p S = seg_chain (hmem h) p S" for p
    proof (rule seg_chain_words)
      fix s' l' w
      assume s': "(s', l') \<in> set S" and w: "w = s' \<or> w = s' + 4"
      have "s' + l' \<le> s" using i(2) s' by (auto simp: seg_ok_def)
      moreover have "4096 \<le> l'" using seg_okD(6) [OF i(2), of s' l'] s' by simp
      moreover have "w mod 4 = 0" using seg_word_al [of s' w] seg_okD(2) [OF i(2), of s' l'] s' w by simp
      ultimately show "ld32 m3 w = ld32 (hmem h) w" using ldw [of w] w nw(5) by auto
    qed
    moreover have "seg_next m3 s = seg_next (hmem h) s"
      using ldw [OF seg_word_al [OF nw(1)]] ne by (auto simp: seg_next_def)
    ultimately show "seg_chain (hmem h3) (segments h3) ((s, len0 + len) # S)"
      using i(3) lde(3) u32(1) by (simp add: h3_def seg_len_def del: of_nat_add)
    show "sys_wf h3" using i(7) len(4) he by (simp add: h3_def sys_wf_def)
    show "ld32 (hmem h3) w = ld32 (hmem h) w" if x: "B x = Some (n, Free)" and w: "w = x + 4 \<or> w = x + 8 \<or> w = x + n - 4" for x n w
    proof -
      note f = free_aligned [OF i(1) x]
      have "x \<noteq> e" using x nw(4) by auto
      then have le: "x + n \<le> e" using nw(7) [OF x] by simp
      have n: "16 \<le> n" "w mod 4 = 0" using f footer_al(2) [OF i(1) x] at4_simps(4,5) [of x] w by auto
      have "w + 4 \<le> x + n" "w \<noteq> s + 4" using nw(6) [OF x] n(1) w by auto
      then show ?thesis using ldw [OF n(2)] le by (auto simp: h3_def)
    qed
    show "ld32 (hmem h3) (a + 4) = ld32 (hmem h) (a + 4)" if "(a, l) \<in> MM" for a l
    proof -
      have "e + 4 + len \<le> a" using mp i(6) that by (auto simp: mapped_ok_def)
      then show ?thesis using nw(5) by (simp add: h3_def m3_def ld32_st32_disjoint)
    qed
    show "\<exists>p. ld32 (hmem h3) a = hdr n (st = Used) p" if "B' a = Some (n, st)" "st \<noteq> Hole" for a n st
      using that(1) [unfolded B'] that(2) lde(2) hdr_ld [of a n st] tagsD(1) [OF i(4), of a n st] by (auto simp: h3_def)
    show "prev_inuse (hmem h3) a = (\<not> before Free B a)" if a: "a \<in> dom B'" and nh': "\<not> before Hole B' a" for a
    proof -
      have "a \<noteq> e + len" using nh' hole_atD(3) [OF hole] by simp
      then obtain n st where b: "B a = Some (n, st)" using a nw(4) by (auto simp: B'_def split: if_splits)
      have "prev_inuse m3 a = prev_inuse (hmem h) a"
      proof (cases "a = e")
        case True
        then show ?thesis using lde(1) hdr_flags(2) [OF len(3), of False "prev_inuse (hmem h) e"] by (simp add: prev_inuse_def [of m3])
      next
        case False
        then show ?thesis using hdr_ld [OF b] by (simp add: prev_inuse_def)
      qed
      then show ?thesis using tagsD(2) [OF i(4) b nb] by (simp add: h3_def)
    qed
  qed (use mp fr in \<open>auto simp: h3_def\<close>)
  show "m3 y = hmem h y" if y: "y \<in> pay B \<or> e + 4 + len \<le> y"
  proof -
    have "y < s + 4 \<or> s + 8 \<le> y" "y < e \<or> e + 4 + len \<le> y"
      using newest_pay [OF i(1) i(2) [unfolded he(2)] he(1), of y] y nw(5) by auto
    then show ?thesis using nw(5) by (auto simp: m3_def st32_same)
  qed
qed

lemma grow_top_spec:
  assumes inv: "heap_inv h B ((s, len0) # S) L MM" and nh: "no_hole B" and top: "s + len0 = kbrk h"
    and len: "len mod 4096 = 0" "0 < len" "len < 4294967296"
  obtains (refused) "grow_top sys len h = (False, h\<lparr>cur_brk := kbrk h\<rparr>)"
  | (grown) h' B' L' b n where "grow_top sys len h = (True, h')" and "heap_inv h' B' ((s, len0 + len) # S) L' MM"
      and "no_hole B'" and "used_same B B'" and "B' b = Some (n, Free)" and "b \<le> kbrk h - 4" and "kbrk h - 4 + len \<le> b + n"
      and "pres B MM h h'" and "maps h' = maps h"
proof -
  note i = heap_invD [OF inv]
  show thesis
    using i(7,6) len(2,3)
  proof (cases rule: sbrk_up [where sys = sys])
    case refused
    then show thesis using that(1) by (simp add: grow_top_def)
  next
    case moved
    define e where "e = s + len0 - 4"
    have l0: "4096 \<le> len0" using seg_okD(6) [OF i(2), of s len0] by simp
    have he: "s + len0 = e + 4" "kbrk h = e + 4" using l0 top by (auto simp: e_def)
    have len8: "16 \<le> len" "len mod 8 = 0"
      using len dvd_imp_le [of 4096 len] by (auto simp: mod_eq_0_iff_dvd intro: dvd_trans [of 8 4096])
    have lim: "e + 4 + len \<le> USER_BRK_LIMIT" "\<forall>(a, l)\<in>set (maps h). e + 4 + len \<le> a"
      using moved(2,3) unfolding he(2) by auto
    note nw = newest_words [OF i(1) i(2) [unfolded he(2)] he(1)]
    define m3 where "m3 = st32 e (hdr len False (prev_inuse (hmem h) e)) (st32 (e + len) (hdr 0 True False)
        (st32 (s + 4) (of_nat (len0 + len)) (hmem h)))"
    define h3 where "h3 = h\<lparr>cur_brk := e + 4 + len, kbrk := e + 4 + len, hmem := m3, arena_bytes := arena_bytes h + of_nat len\<rparr>"
    let ?B = "B(e \<mapsto> (len, Hole), e + len \<mapsto> (0, Used))"
    note gi = grow_top_inv [OF inv nh he len(1) len8 lim, folded m3_def, folded h3_def]
    have sz: "bsize (hmem h3) e = len" using gi(3) by (simp add: h3_def)
    obtain b' n' h' B' L' where co: "coalesce e h3 = (b', h')" "heap_inv h' B' ((s, len0 + len) # S) L' MM" "no_hole B'"
      "B' b' = Some (n', Free)" "b' \<le> e" "e + len \<le> b' + n'" "used_same ?B B'" "keeps ?B h3 h'"
      by (rule coalesce_spec [OF gi(1,2) sz])
    have ch: "segments h = s" "seg_len (hmem h) s = len0" using i(3) by auto
    have g: "grow_top sys len h = (True, h')"
    proof -
      have e: "s + len0 - 4 = e" "s + (len0 + len) - 4 = e + len" using he by auto
      have u: "len0 + len < 4294967296" using lim(1) he(1) by (simp add: USER_BRK_LIMIT_def)
      have w: "ld32 (hmem h) (s + 4) = of_nat len0" using ch(2) by (auto simp: seg_len_def)
      have sl: "seg_len (st32 (s + 4) (of_nat (len0 + len)) (hmem h)) s = len0 + len"
        using u by (simp add: seg_len_def del: of_nat_add)
      have ne: "e \<noteq> e + len" "e \<noteq> s + 4" using nw(5) len8(1) by auto
      have al: "(e + len) mod 8 = 4" using nw(3) len8(2) by (auto simp: mod_add_right_eq [of e len 8, symmetric])
      have pv: "ld32 (st32 (e + len) (hdr 0 True False) (st32 (s + 4) (of_nat (len0 + len)) (hmem h))) e = ld32 (hmem h) e"
        using head_store [OF i(1) nw(4) al] head_store [OF i(1) nw(4,2)] ne by simp
      have hd: "of_nat len OR (ld32 (hmem h) e AND PREV_INUSE) = hdr len False (prev_inuse (hmem h) e)"
        using hdr_eqs(4) [OF len8(2)] by (simp add: prev_inuse_def)
      show ?thesis
        unfolding grow_top_def moved(1) Let_def prod.case option.case
        using co(1) by (simp add: ch e w of_nat_add [symmetric] sl pv hd hdr_consts(2) m3_def h3_def he del: of_nat_add)
    qed
    have us: "used_same B ?B" using nw(4) nw(7) [of "e + len"] len8(1) by (auto simp: used_same_def)
    show thesis
    proof (rule that(2) [OF g co(2,3) used_same_trans [OF us co(7)] co(4)])
      show "b' \<le> kbrk h - 4" "kbrk h - 4 + len \<le> b' + n'" using co(5,6) he by auto
      show "maps h' = maps h" using co(8) by (simp add: keeps_def same_env_def h3_def)
      have eq: "hmem h' y = hmem h y" if "y \<in> pay B \<or> e + 4 + len \<le> y" for y
        using co(8) gi(4) [of y] that used_same_pay [OF us] by (auto simp: keeps_def h3_def)
      show "pres B MM h h'"
      proof (rule presI)
        show "hmem h' y = hmem h y" if "(a, l) \<in> MM" "a + 8 \<le> y" for a l y
        proof -
          have "(a, l) \<in> set (maps h)" using i(6) that(1) by (auto simp: mapped_ok_def)
          then show ?thesis using eq [of y] lim(2) that(2) by auto
        qed
      qed (use eq in blast)
    qed
  qed
qed

subsection \<open>A new segment\<close>

lemma tiles_new:
  assumes t: "tiles B S" and g: "seg_ok lo hi S" and s: "hi \<le> s" "s mod 8 = 0" and len: "4096 \<le> len" "len mod 8 = 0"
  shows "tiles (B(s + 12 \<mapsto> (len - 16, Hole), s + len - 4 \<mapsto> (0, Used))) ((s, len) # S)" (is "tiles ?B ?S")
proof (rule tilesI)
  obtain k where k: "s = 8 * k" using s(2) by auto
  obtain l where l: "len = 8 * l" using len(2) by auto
  have al: "(s + 12) mod 8 = 4" "(s + len - 4) mod 8 = 4" "(len - 16) mod 8 = 0"
  proof -
    have "s + 12 = 8 * (k + 1) + 4" "s + len - 4 = 8 * (k + l - 1) + 4" "len - 16 = 8 * (l - 2)" using k l len(1) by auto
    then show "(s + 12) mod 8 = 4" "(s + len - 4) mod 8 = 4" "(len - 16) mod 8 = 0"
      by (simp_all only: mod_mult_self4 mod_mult_self1_is_0) simp_all
  qed
  have ep: "s + 12 + (len - 16) = s + len - 4" "s + 12 \<noteq> s + len - 4" using len(1) by auto
  have low: "a + n + 4 \<le> s" if "B a = Some (n, st)" for a n st using blk_below(1) [OF t g that] s(1) by simp
  have B: "?B a = Some (n, st) \<longleftrightarrow> a = s + len - 4 \<and> n = 0 \<and> st = Used \<or> a = s + 12 \<and> n = len - 16 \<and> st = Hole \<or>
      a \<noteq> s + 12 \<and> a \<noteq> s + len - 4 \<and> B a = Some (n, st)" for a n st using ep(2) by auto
  show "blk_ok ?B ?S a n st" if ab: "?B a = Some (n, st)" for a n st
  proof -
    consider "a = s + len - 4" "n = 0" "st = Used" | "a = s + 12" "n = len - 16" "st = Hole" | "B a = Some (n, st)"
      using ab [unfolded B] by blast
    then show ?thesis
    proof cases
      case 1
      then show ?thesis using al len by (auto simp: blk_ok_def in_seg_def seg_end_def)
    next
      case 2
      then show ?thesis using al len ep by (auto simp: blk_ok_def in_seg_def)
    next
      case 3
      have "in_seg ?S a (a + n)" using tilesD(8) [OF t 3] by (auto simp: in_seg_def)
      moreover have "seg_end ?S a" if "n = 0" using tilesD(7) [OF t 3 that] by (auto simp: seg_end_def)
      moreover have "a + n \<in> dom ?B" if "n \<noteq> 0" using tilesD(4) [OF t 3 that] by auto
      ultimately show ?thesis using tiles_blk [OF t 3] unfolding blk_ok_def by auto
    qed
  qed
  show "a + n \<le> a'" if "?B a = Some (n, st)" "?B a' = Some (n', st')" "a < a'" for a n st a' n' st'
    using that low [of a n st] low [of a' n' st'] tiles_apart [OF t, of a n st a' n' st'] len(1) unfolding B by auto
  show "s' + 12 \<in> dom ?B \<and> ?B (s' + len' - 4) = Some (0, Used)" if "(s', len') \<in> set ?S" for s' len'
  proof (cases "(s', len') \<in> set S")
    case True
    have "s' + len' \<le> s" "4096 \<le> len'" using seg_okD(4,6) [OF g True] s(1) by auto
    then have "s' + len' - 4 \<noteq> s + 12" "s' + len' - 4 \<noteq> s + len - 4" using len(1) by auto
    then show ?thesis using tiles_seg [OF t True] by auto
  next
    case False
    then show ?thesis using that by auto
  qed
qed

lemma grow_new_inv:
  assumes inv: "heap_inv h B S L MM" and nh: "no_hole B" and s: "kbrk h \<le> s" "s mod 8 = 0"
    and len: "4096 \<le> len" "len mod 4096 = 0" "s + len \<le> USER_BRK_LIMIT" and mp: "\<forall>(a, l)\<in>set (maps h). s + len \<le> a"
  defines "m4 \<equiv> st32 (s + len - 4) (hdr 0 True False) (st32 (s + 12) (hdr 0 False True)
      (st32 s (of_nat (segments h)) (st32 (s + 4) (of_nat len) (hmem h))))"
  defines "h4 \<equiv> h\<lparr>cur_brk := s + len, kbrk := s + len, hmem := m4, segments := s, arena_bytes := arena_bytes h + of_nat len\<rparr>"
    and "B' \<equiv> B(s + 12 \<mapsto> (len - 16, Hole), s + len - 4 \<mapsto> (0, Used))"
  shows "heap_inv h4 B' ((s, len) # S) L MM" and "hole_at B' (s + 12) (len - 16)" and "\<not> before Free B' (s + 12)"
    and "y < s \<or> s + len \<le> y \<Longrightarrow> m4 y = hmem h y" and "used_same B B'"
proof -
  note i = heap_invD [OF inv]
  define e where "e = s + len - 4"
  have e: "e + 4 = s + len" "s + 4092 \<le> e" using len(1) by (auto simp: e_def)
  have len8: "len mod 8 = 0" using len(2) by (auto simp: mod_eq_0_iff_dvd intro: dvd_trans [of 8 4096])
  have t': "tiles B' ((s, len) # S)" unfolding B'_def by (rule tiles_new [OF i(1,2) s len(1) len8])
  have low: "a + n + 4 \<le> s" if "B a = Some (n, st)" for a n st using blk_below(1) [OF i(1,2) that] s(1) by simp
  have B': "B' a = Some (n, st) \<longleftrightarrow> a = e \<and> n = 0 \<and> st = Used \<or> a = s + 12 \<and> n = len - 16 \<and> st = Hole \<or>
      a \<noteq> s + 12 \<and> a \<noteq> e \<and> B a = Some (n, st)" for a n st using e by (auto simp: B'_def e_def)
  have al: "e mod 8 = 4" "(s + 12) mod 8 = 4" using tilesD(1) [OF t', of e 0 Used] tilesD(1) [OF t', of "s + 12" "len - 16" Hole] B' by auto
  have al4: "e mod 4 = 0" "(s + 12) mod 4 = 0" "s mod 4 = 0" "(s + 4) mod 4 = 0"
    using at4_simps(1) [OF al(1)] at4_simps(1) [OF al(2)] seg_word_al [OF s(2)] by auto
  show frame: "m4 y = hmem h y" if "y < s \<or> s + len \<le> y" for y
    using that e by (auto simp: m4_def st32_same simp flip: e_def)
  have ldw: "ld32 m4 w = ld32 (hmem h) w" if "w + 4 \<le> s \<or> s + len \<le> w" for w
    using frame that by (intro ld32_cong) auto
  have lde: "ld32 m4 e = hdr 0 True False" "ld32 m4 (s + 12) = hdr 0 False True" "ld32 m4 s = of_nat (segments h)" "ld32 m4 (s + 4) = of_nat len"
    using al4 e by (simp_all add: m4_def ld32_st32_aligned flip: e_def)
  have notB: "B (s + 12) = None" "B e = None"
    using low [of "s + 12"] low [of e] e by (cases "B (s + 12)"; cases "B e"; auto)+
  have fr: "B' a = Some (n, Free) \<longleftrightarrow> B a = Some (n, Free)" for a n using B' [of a n Free] notB by auto
  have nb: "\<not> before Hole B a" for a using nh by (auto simp: no_hole_def elim!: beforeE)
  have bf: "\<not> before Free B a" if "s \<le> a" for a using low that by (fastforce elim!: beforeE)
  show hole: "hole_at B' (s + 12) (len - 16)" using nh by (auto simp: hole_at_def no_hole_def B')
  show "\<not> before Free B' (s + 12)" using bf [of "s + 12"] before_free_cong [of B' B, OF fr] by simp
  show "used_same B B'" using notB by (auto simp: used_same_def B')
  show "heap_inv h4 B' ((s, len) # S) L MM"
  proof (rule reshape [OF inv t'])
    show "seg_ok (kbrk_start h4) (kbrk h4) ((s, len) # S)"
      using i(2,7) s len unfolding seg_ok_def by (fastforce simp: h4_def sys_wf_def)
    have "seg_chain m4 p S = seg_chain (hmem h) p S" for p
    proof (rule seg_chain_words)
      fix s' l' w
      assume s': "(s', l') \<in> set S" and w: "w = s' \<or> w = s' + 4"
      have "s' + l' \<le> s" "4096 \<le> l'" using seg_okD(4,6) [OF i(2) s'] s(1) by auto
      then show "ld32 m4 w = ld32 (hmem h) w" using ldw [of w] w by auto
    qed
    moreover have "segments h < 4294967296"
      using i(3) seg_okD(4) [OF i(2)] brk_limit_u32 [OF i(7)] by (cases S) fastforce+
    ultimately show "seg_chain (hmem h4) (segments h4) ((s, len) # S)"
      using i(3) lde(3,4) len(3) by (simp add: h4_def seg_len_def seg_next_def USER_BRK_LIMIT_def)
    show "sys_wf h4" using i(7) len(3) s(1) by (simp add: h4_def sys_wf_def)
    show "ld32 (hmem h4) w = ld32 (hmem h) w" if x: "B x = Some (n, Free)" and w: "w = x + 4 \<or> w = x + 8 \<or> w = x + n - 4" for x n w
      using ldw [of w] low [OF x] free_aligned [OF i(1) x] w by (auto simp: h4_def)
    show "ld32 (hmem h4) (a + 4) = ld32 (hmem h) (a + 4)" if "(a, l) \<in> MM" for a l
      using ldw [of "a + 4"] mp i(6) that by (fastforce simp: h4_def mapped_ok_def)
    show "\<exists>p. ld32 (hmem h4) a = hdr n (st = Used) p" if "B' a = Some (n, st)" "st \<noteq> Hole" for a n st
      using that(1) [unfolded B'] that(2) lde(1) ldw [of a] low [of a n st] tagsD(1) [OF i(4), of a n st] by (auto simp: h4_def)
    show "prev_inuse (hmem h4) a = (\<not> before Free B a)" if a: "a \<in> dom B'" and nh': "\<not> before Hole B' a" for a
    proof -
      have "a \<noteq> e" using nh' hole_atD(3) [OF hole] len(1) by (auto simp: e_def)
      show ?thesis
      proof (cases "a = s + 12")
        case True
        then show ?thesis using lde(2) hdr_flags(2) [of 0 False True] bf [of "s + 12"] by (simp add: h4_def prev_inuse_def)
      next
        case False
        then obtain n st where b: "B a = Some (n, st)" using a \<open>a \<noteq> e\<close> by (auto simp: B'_def e_def split: if_splits)
        then show ?thesis using ldw [of a] low [OF b] tagsD(2) [OF i(4) b nb] by (simp add: h4_def prev_inuse_def)
      qed
    qed
  qed (use mp fr in \<open>auto simp: h4_def\<close>)
qed

lemma pad_aligned: "(k + (8 - k mod 8) mod 8) mod 8 = (0 :: nat)" "(8 - k mod 8) mod 8 < (8 :: nat)"
proof -
  have k: "k mod 8 < 8" by simp
  then consider "k mod 8 = 0" | "0 < k mod 8" "(8 - k mod 8) mod 8 = 8 - k mod 8" by fastforce
  then show "(k + (8 - k mod 8) mod 8) mod 8 = 0"
  proof cases
    case 2
    have "k + (8 - k mod 8) = 8 * (k div 8) + 8" using k mult_div_mod_eq [of 8 k] by linarith
    then show ?thesis using 2(2) by simp
  qed simp
qed simp

lemma page_round_le: "n \<le> page_round n" "page_round n mod 4096 = 0" "page_round n \<le> n + 4095"
proof -
  have "(n + 4095) div 4096 * 4096 + (n + 4095) mod 4096 = n + 4095" by (rule div_mult_mod_eq)
  moreover have "(n + 4095) mod 4096 < 4096" by simp
  ultimately show "n \<le> page_round n" "page_round n \<le> n + 4095" by (simp_all add: page_round_def malloc_consts)
qed (simp add: page_round_def malloc_consts)

lemma grow_new_spec:
  assumes inv: "heap_inv h B S L MM" and nh: "no_hole B" and len: "4096 \<le> len" "len mod 4096 = 0" "len < 2147483648"
  obtains (refused) "grow_new sys (kbrk h) len h = (False, h\<lparr>cur_brk := kbrk h\<rparr>)"
  | (grown) h' B' S' L' b where "grow_new sys (kbrk h) len h = (True, h')" and "heap_inv h' B' S' L' MM"
      and "no_hole B'" and "used_same B B'" and "B' b = Some (len - 16, Free)" and "pres B MM h h'" and "maps h' = maps h"
proof -
  note i = heap_invD [OF inv]
  define pad where "pad = (ALIGN - kbrk h mod ALIGN) mod ALIGN"
  define s where "s = kbrk h + pad"
  have pad: "pad < 8" "s mod 8 = 0" using pad_aligned by (simp_all add: pad_def s_def ALIGN_def)
  have n: "0 < len + pad" "len + pad < 4294967296" using len pad by auto
  show thesis
    using i(7,6) n
  proof (cases rule: sbrk_up [where sys = sys])
    case refused
    then show thesis using that(1) by (simp add: grow_new_def Let_def flip: pad_def)
  next
    case moved
    have kl: "kbrk h + (len + pad) = s + len" by (simp add: s_def)
    have mp: "\<forall>(a, l)\<in>set (maps h). s + len \<le> a" using moved(3) kl by auto
    have le: "kbrk h \<le> s" "s + len \<le> USER_BRK_LIMIT" using moved(2) kl by (auto simp: s_def)
    define m4 where "m4 = st32 (s + len - 4) (hdr 0 True False) (st32 (s + 12) (hdr 0 False True)
      (st32 s (of_nat (segments h)) (st32 (s + 4) (of_nat len) (hmem h))))"
    define h4 where "h4 = h\<lparr>cur_brk := s + len, kbrk := s + len, hmem := m4, segments := s, arena_bytes := arena_bytes h + of_nat len\<rparr>"
    define B4 where "B4 = B(s + 12 \<mapsto> (len - 16, Hole), s + len - 4 \<mapsto> (0, Used))"
    note gi = grow_new_inv [OF inv nh le(1) pad(2) len(1,2) le(2) mp, folded m4_def, folded h4_def B4_def]
    have nx: "B4 (s + 12 + (len - 16)) = Some (0, Used)" using len(1) by (simp add: B4_def)
    note mf = make_free_spec [OF gi(1,2) nx gi(3)]
    have g: "grow_new sys (kbrk h) len h = (True, make_free (s + 12) (len - 16) h4)"
      unfolding grow_new_def Let_def pad_def [symmetric] moved(1) prod.case option.case kl
      by (simp add: h4_def m4_def SEG_HDR_def hdr_consts flip: s_def)
    show thesis
    proof (rule that(2) [where b = "s + 12", OF g mf(1)])
      show "no_hole (B4(s + 12 \<mapsto> (len - 16, Free)))" using hole_atD(2) [OF gi(2)] by (auto simp: no_hole_def)
      have us: "used_same B4 (B4(s + 12 \<mapsto> (len - 16, Free)))" using hole_atD(1) [OF gi(2)] by (auto simp: used_same_def)
      show "used_same B (B4(s + 12 \<mapsto> (len - 16, Free)))" by (rule used_same_trans [OF gi(5) us])
      show "maps (make_free (s + 12) (len - 16) h4) = maps h" using mf(3) by (simp add: same_env_def h4_def)
      have eq: "hmem (make_free (s + 12) (len - 16) h4) y = hmem h y" if "y \<in> pay B \<or> s + len \<le> y" for y
      proof -
        have "y < s \<or> s + len \<le> y" using that blk_below(1) [OF i(1,2)] le(1) by (fastforce simp: pay_def)
        then have "m4 y = hmem h y" by (rule gi(4))
        moreover have "hmem (make_free (s + 12) (len - 16) h4) y = hmem h4 y"
          using mf(2) [of y] that used_same_pay [OF gi(5)] by (auto simp: h4_def)
        ultimately show ?thesis by (simp add: h4_def)
      qed
      show "pres B MM h (make_free (s + 12) (len - 16) h4)"
      proof (rule presI)
        show "hmem (make_free (s + 12) (len - 16) h4) y = hmem h y" if "(a, l) \<in> MM" "a + 8 \<le> y" for a l y
        proof -
          have "(a, l) \<in> set (maps h)" using i(6) that(1) by (auto simp: mapped_ok_def)
          then show ?thesis using eq [of y] mp that(2) by auto
        qed
      qed (use eq in blast)
    qed simp
  qed
qed

lemma grow_spec:
  assumes inv: "heap_inv h B S L MM" and nh: "no_hole B" and need: "need < 131072"
  obtains (refused) "grow sys need h = (False, h\<lparr>cur_brk := kbrk h\<rparr>)"
  | (grown) h' B' S' L' b n where "grow sys need h = (True, h')" and "heap_inv h' B' S' L' MM"
      and "no_hole B'" and "used_same B B'" and "B' b = Some (n, Free)" and "need \<le> n"
      and "pres B MM h h'" and "maps h' = maps h"
proof -
  note i = heap_invD [OF inv]
  let ?h0 = "h\<lparr>cur_brk := kbrk h\<rparr>"
  define len where "len = (if page_round (need + SEG_HDR + 4) < SEG_MIN then SEG_MIN else page_round (need + SEG_HDR + 4))"
  have len: "need + 16 \<le> len" "4096 \<le> len" "len mod 4096 = 0" "len < 2147483648"
    using page_round_le [of "need + SEG_HDR + 4"] need by (auto simp: len_def malloc_consts)
  have inv0: "heap_inv ?h0 B S L MM" by (rule heap_inv_cur [OF inv])
  have e: "grow sys need h = (if segments h \<noteq> 0 \<and> segments h + seg_len (hmem h) (segments h) = kbrk h
      then grow_top sys len ?h0 else grow_new sys (kbrk h) len ?h0)"
    unfolding grow_def Let_def sbrk_0 [OF i(7)] prod.case len_def by simp
  have pres0: "pres B MM h h' \<longleftrightarrow> pres B MM ?h0 h'" for h' by (simp add: pres_def)
  show thesis
  proof (cases "segments h \<noteq> 0 \<and> segments h + seg_len (hmem h) (segments h) = kbrk h")
    case True
    then obtain s len0 S1 where S: "S = (s, len0) # S1" "s + len0 = kbrk h" using i(3) by (cases S) auto
    have top0: "s + len0 = kbrk ?h0" using S(2) by simp
    have len': "0 < len" "len < 4294967296" using len by auto
    show thesis
      using inv0 [unfolded S(1)] nh top0 len(3) len'
    proof (cases rule: grow_top_spec [where sys = sys and len = len])
      case refused
      then show thesis using that(1) e True by simp
    next
      case (grown h' B' L' b n)
      have "need \<le> n" using grown(6,7) len(1) by simp
      then show thesis using that(2) [of h' B' _ L' b n] grown e True pres0 by auto
    qed
  next
    case False
    then have e: "grow sys need h = grow_new sys (kbrk h) len ?h0" unfolding e by (rule if_not_P)
    show thesis
      using inv0 nh len(2-4)
    proof (cases rule: grow_new_spec [where sys = sys])
      case refused
      then show thesis using that(1) e by simp
    next
      case (grown h' B' S' L' b)
      have "need \<le> len - 16" using len(1) by simp
      then show thesis using that(2) [of h' B' S' L' b "len - 16"] grown e pres0 by auto
    qed
  qed
qed

subsection \<open>Giving memory back\<close>

lemma tiles_trim:
  assumes t: "tiles B ((s, len0) # S)" and g: "seg_ok lo (b + n + 4) ((s, len0) # S)" and hi: "s + len0 = b + n + 4"
    and b: "B b = Some (n, Hole)" and k: "16 \<le> keep" "keep mod 8 = 0" "keep < n" and l1: "s + len1 = b + keep + 4"
  shows "tiles ((B(b \<mapsto> (keep, Hole), b + n := None))(b + keep \<mapsto> (0, Used))) ((s, len1) # S)" (is "tiles ?B ?S")
proof (rule tilesI)
  note nw = newest_words [OF t g hi]
  have sb: "s + 12 \<le> b" using blk_seg_apart [OF t g b, of s len0] hi nw(5) by auto
  have al: "b mod 8 = 4" "(b + keep) mod 8 = 4"
    using tilesD(1) [OF t b] k(2) by (auto simp: mod_add_right_eq [of b keep 8, symmetric])
  have low: "a + j \<le> b" "a < b" if "B a = Some (j, st)" "a \<noteq> b" "a \<noteq> b + n" for a j st
    using tiles_disjoint [OF t that(1) b that(2)] nw(7) [OF that(1,3)] that(2) k(3) by auto
  have B: "?B a = Some (j, st) \<longleftrightarrow> a = b + keep \<and> j = 0 \<and> st = Used \<or> a = b \<and> j = keep \<and> st = Hole \<or>
      a \<noteq> b \<and> a \<noteq> b + n \<and> a \<noteq> b + keep \<and> B a = Some (j, st)" for a j st using k by auto
  show "blk_ok ?B ?S a j st" if ab: "?B a = Some (j, st)" for a j st
  proof -
    consider "a = b + keep" "j = 0" "st = Used" | "a = b" "j = keep" "st = Hole" | "a \<noteq> b" "a \<noteq> b + n" "B a = Some (j, st)"
      using ab [unfolded B] by blast
    then show ?thesis
    proof cases
      case 1
      then show ?thesis using al sb l1 by (auto simp: blk_ok_def in_seg_def seg_end_def)
    next
      case 2
      then show ?thesis using al sb l1 k by (auto simp: blk_ok_def in_seg_def)
    next
      case 3
      note lo = low [OF 3(3,1,2)]
      have "in_seg ?S a (a + j)" using tilesD(8) [OF t 3(3)] lo l1 by (auto simp: in_seg_def)
      moreover have "seg_end ?S a" if "j = 0" using tilesD(7) [OF t 3(3) that] 3(2) hi by (auto simp: seg_end_def)
      moreover have "a + j \<in> dom ?B" if "j \<noteq> 0" using tilesD(4) [OF t 3(3) that] lo k(3) by auto
      ultimately show ?thesis using tiles_blk [OF t 3(3)] unfolding blk_ok_def by auto
    qed
  qed
  show "a + j \<le> a'" if "?B a = Some (j, st)" "?B a' = Some (j', st')" "a < a'" for a j st a' j' st'
    using that low [of a j st] low [of a' j' st'] tiles_apart [OF t, of a j st a' j' st'] unfolding B by auto
  show "s' + 12 \<in> dom ?B \<and> ?B (s' + len' - 4) = Some (0, Used)" if "(s', len') \<in> set ?S" for s' len'
  proof (cases "(s', len') \<in> set S")
    case True
    have "s' + len' \<le> s" using g True by (auto simp: seg_ok_def)
    moreover have "4096 \<le> len'" using seg_okD(6) [OF g, of s' len'] True by simp
    ultimately have "s' + len' - 4 < b" "s' + 12 < b" using sb by auto
    then show ?thesis using tiles_seg [OF t, of s' len'] True k by auto
  next
    case False
    then show ?thesis using that tiles_seg [OF t, of s len0] sb l1 k by auto
  qed
qed

lemma trim_inv:
  assumes inv: "heap_inv h B ((s, len0) # S) L MM" and hole: "hole_at B b n" and hi: "s + len0 = b + n + 4" "kbrk h = b + n + 4"
    and k: "16 \<le> keep" "keep mod 8 = 0" "keep < n" and l1: "s + len1 = b + keep + 4" "len1 mod 4096 = 0"
    and lo: "kbrk_start h \<le> b + keep + 4"
  defines "m3 \<equiv> st32 b (hdr keep False (prev_inuse (hmem h) b)) (st32 (b + keep) (hdr 0 True False)
      (st32 (s + 4) (of_nat len1) (hmem h)))"
  defines "h3 \<equiv> h\<lparr>cur_brk := b + keep + 4, kbrk := b + keep + 4, hmem := m3, arena_bytes := arena_bytes h - of_nat (n - keep)\<rparr>"
    and "B' \<equiv> (B(b \<mapsto> (keep, Hole), b + n := None))(b + keep \<mapsto> (0, Used))"
  shows "heap_inv h3 B' ((s, len1) # S) L MM" and "hole_at B' b keep" and "used_same B B'"
    and "y \<in> pay B \<or> kbrk h \<le> y \<Longrightarrow> m3 y = hmem h y"
    and "before Free B' b = before Free B b"
proof -
  note i = heap_invD [OF inv] and hD = hole_atD [OF hole]
  note g = i(2) [unfolded hi(2)]
  note nw = newest_words [OF i(1) g hi(1)]
  have t': "tiles B' ((s, len1) # S)" unfolding B'_def by (rule tiles_trim [OF i(1) g hi(1) hD(1) k l1(1)])
  have sb: "s + 12 \<le> b" using blk_seg_apart [OF i(1) g hD(1), of s len0] hi nw(5) by auto
  have al: "b mod 8 = 4" "(b + keep) mod 8 = 4"
    using tilesD(1) [OF i(1) hD(1)] k(2) by (auto simp: mod_add_right_eq [of b keep 8, symmetric])
  have al4: "b mod 4 = 0" "(b + keep) mod 4 = 0" "(s + 4) mod 4 = 0" using al nw(2) at4_simps(1) by blast+
  have fresh: "B (b + keep) = None" using not_header_inside [OF i(1) hD(1), of "b + keep"] k by auto
  have B': "B' a = Some (j, st) \<longleftrightarrow> a = b + keep \<and> j = 0 \<and> st = Used \<or> a = b \<and> j = keep \<and> st = Hole \<or>
      a \<noteq> b \<and> a \<noteq> b + n \<and> a \<noteq> b + keep \<and> B a = Some (j, st)" for a j st using k by (auto simp: B'_def)
  have ldw: "ld32 m3 w = ld32 (hmem h) w" if "w mod 4 = 0" "w \<noteq> b" "w \<noteq> b + keep" "w \<noteq> s + 4" for w
    using that al4 by (simp add: m3_def word_store)
  have lde: "ld32 m3 b = hdr keep False (prev_inuse (hmem h) b)" "ld32 m3 (b + keep) = hdr 0 True False" "ld32 m3 (s + 4) = of_nat len1"
    using al4 sb k by (simp_all add: m3_def ld32_st32_aligned)
  have hdr_ld: "ld32 m3 a = ld32 (hmem h) a" if "B a = Some (j, st)" "a \<noteq> b" for a j st
  proof (rule ldw)
    show "a \<noteq> b + keep" using that(1) fresh by auto
  qed (use at4_simps(1) [OF tilesD(1) [OF i(1) that(1)]] that(2) nw(6) [OF that(1)] in auto)
  have fr: "B' a = Some (j, Free) \<longleftrightarrow> B a = Some (j, Free)" for a j
    using B' [of a j Free] hD(1) nw(4) fresh by auto
  show hole': "hole_at B' b keep" using hD(2) B' by (auto simp: hole_at_def)
  show "used_same B B'" using hD(1) nw(4) fresh by (auto simp: used_same_def B')
  show "before Free B' b = before Free B b" by (rule before_free_cong [OF fr])
  show "heap_inv h3 B' ((s, len1) # S) L MM"
  proof (rule reshape [OF inv t'])
    show "seg_ok (kbrk_start h3) (kbrk h3) ((s, len1) # S)"
      using i(2) l1 sb unfolding seg_ok_def by (auto simp: h3_def)
    have "seg_chain m3 p S = seg_chain (hmem h) p S" for p
    proof (rule seg_chain_words)
      fix s' l' w
      assume s': "(s', l') \<in> set S" and w: "w = s' \<or> w = s' + 4"
      have "s' + l' \<le> s" using i(2) s' by (auto simp: seg_ok_def)
      moreover have "4096 \<le> l'" using seg_okD(6) [OF i(2), of s' l'] s' by simp
      moreover have "w mod 4 = 0" using seg_word_al [of s' w] seg_okD(2) [OF i(2), of s' l'] s' w by simp
      ultimately show "ld32 m3 w = ld32 (hmem h) w" using ldw [of w] w sb by auto
    qed
    moreover have "seg_next m3 s = seg_next (hmem h) s"
      using ldw [OF seg_word_al [OF nw(1)], of s] sb by (auto simp: seg_next_def)
    moreover have "len1 < 4294967296" using l1(1) hi k(3) brk_limit_u32 [OF i(7)] by linarith
    ultimately show "seg_chain (hmem h3) (segments h3) ((s, len1) # S)"
      using i(3) lde(3) by (simp add: h3_def seg_len_def)
    show "sys_wf h3" using i(7) lo k(3) hi(2) by (simp add: h3_def sys_wf_def)
    show "kbrk h3 \<le> a" if "(a, l) \<in> set (maps h)" for a l
      using i(6) that hi(2) k(3) by (fastforce simp: h3_def mapped_ok_def)
    show "ld32 (hmem h3) w = ld32 (hmem h) w" if x: "B x = Some (j, Free)" and w: "w = x + 4 \<or> w = x + 8 \<or> w = x + j - 4" for x j w
    proof -
      note f = free_aligned [OF i(1) x]
      have n: "16 \<le> j" "w mod 4 = 0" using f footer_al(2) [OF i(1) x] at4_simps(4,5) [of x] w by auto
      have xb: "x \<noteq> b" using x hD(1) by auto
      then have "x + j \<le> b \<or> b + n \<le> x" using tiles_disjoint [OF i(1) x hD(1)] by auto
      moreover have "x < w \<and> w + 4 \<le> x + j" "w \<noteq> s + 4" using nw(6) [OF x] n(1) w by auto
      ultimately show ?thesis using ldw [OF n(2)] k(3) by (auto simp: h3_def)
    qed
    show "ld32 (hmem h3) (a + 4) = ld32 (hmem h) (a + 4)" if "(a, l) \<in> MM" for a l
    proof -
      have "kbrk h \<le> a" using i(6) that by (auto simp: mapped_ok_def)
      then show ?thesis using hi(2) sb k(3) by (simp add: h3_def m3_def ld32_st32_disjoint)
    qed
    show "\<exists>p. ld32 (hmem h3) a = hdr j (st = Used) p" if "B' a = Some (j, st)" "st \<noteq> Hole" for a j st
      using that(1) [unfolded B'] that(2) lde(2) hdr_ld [of a j st] tagsD(1) [OF i(4), of a j st] by (auto simp: h3_def)
    show "prev_inuse (hmem h3) a = (\<not> before Free B a)" if a: "a \<in> dom B'" and nh': "\<not> before Hole B' a" for a
    proof -
      have "a \<noteq> b + keep" using nh' hole_atD(3) [OF hole'] by simp
      then obtain j st where ab: "B a = Some (j, st)" "a \<noteq> b + n" using a hD(1) k(1,3) by (auto simp: B'_def split: if_splits)
      have "prev_inuse m3 a = prev_inuse (hmem h) a"
      proof (cases "a = b")
        case True
        then show ?thesis using lde(1) hdr_flags(2) [OF k(2), of False "prev_inuse (hmem h) b"] by (simp add: prev_inuse_def [of m3])
      next
        case False
        then show ?thesis using hdr_ld [OF ab(1)] by (simp add: prev_inuse_def)
      qed
      then show ?thesis using tagsD(2) [OF i(4) ab(1)] hD(3) [of a] ab(2) by (simp add: h3_def)
    qed
  qed (use fr in \<open>auto simp: h3_def\<close>)
  show "m3 y = hmem h y" if y: "y \<in> pay B \<or> kbrk h \<le> y"
  proof -
    have "y < s + 4 \<or> s + 8 \<le> y" using newest_pay(1) [OF i(1) g hi(1), of y] y hi nw(5) by auto
    moreover have "y < b \<or> b + n \<le> y" using pay_apart(2) [OF i(1) _ hD(1), of y] y hi(2) by auto
    moreover have "keep + 8 \<le> n" using k(2,3) tilesD(2) [OF i(1) hD(1)] by (auto elim!: dvdE)
    ultimately show ?thesis by (auto simp: m3_def st32_same)
  qed
qed

lemma unlink_free_brk: "unlink_free b (h\<lparr>cur_brk := x, kbrk := y\<rparr>) = (unlink_free b h)\<lparr>cur_brk := x, kbrk := y\<rparr>"
  by (simp add: unlink_free_def Let_def)

text \<open>A free block taken off its list is a hole between blocks in use.\<close>

lemma take_free:
  assumes inv: "heap_inv h B S L MM" and nh: "no_hole B" and b: "B b = Some (n, Free)"
  defines "h2 \<equiv> unlink_free b h" and "B2 \<equiv> B(b \<mapsto> (n, Hole))"
  shows "heap_inv h2 B2 S (L(bin_of n := remove1 b (L (bin_of n)))) MM" and "hole_at B2 b n" and "keeps B h h2"
    and "bsize (hmem h2) b = n" and "\<not> before Free B2 b" and "\<exists>k. B2 (b + n) = Some (k, Used)" and "used_same B B2"
    and "a \<in> dom B \<Longrightarrow> ld32 (hmem h2) a = ld32 (hmem h) a"
proof -
  note i = heap_invD [OF inv]
  have n0: "n \<noteq> 0" using free_aligned [OF i(1) b] by auto
  have t1: "tiles B2 S" unfolding B2_def by (rule tiles_state [OF i(1) b n0])
  have g1: "tags (hmem h) B2" unfolding B2_def using tags_hole [OF i(4) b] nh by (auto simp: no_hole_def)
  have d: "dom B2 \<subseteq> dom B" using b by (auto simp: B2_def)
  have fr: "B2 a = Some (j, Free) \<longleftrightarrow> B a = Some (j, Free) \<and> a \<noteq> b" for a j by (auto simp: B2_def)
  note u = unlink_inv [OF inv b t1 g1 d fr, folded h2_def]
  show "heap_inv h2 B2 S (L(bin_of n := remove1 b (L (bin_of n)))) MM" "a \<in> dom B \<Longrightarrow> ld32 (hmem h2) a = ld32 (hmem h) a"
    using u(1,2) by blast+
  show "keeps B h h2" using u(3,4) by (auto simp: keeps_def)
  show "hole_at B2 b n" using nh by (auto simp: hole_at_def no_hole_def B2_def)
  show "bsize (hmem h2) b = n" using blk_reads(1) [OF inv b] u(2) [OF domI [where m = B, OF b]] by (simp add: bsize_def)
  show "\<not> before Free B2 b" using tagsD(4) [OF i(4)] b fr by (fastforce elim!: beforeE)
  obtain k st where k: "B (b + n) = Some (k, st)" using next_in [OF i(1) b n0] by blast
  have "st = Used" using tagsD(4) [OF i(4) b] nh k by (cases st) (auto simp: no_hole_def)
  then show "\<exists>k. B2 (b + n) = Some (k, Used)" using k n0 by (auto simp: B2_def)
  show "used_same B B2" using b by (auto simp: used_same_def B2_def)
qed

lemma trim_main:
  assumes inv: "heap_inv h B ((s, len0) # S) L MM" and nh: "no_hole B" and b: "B b = Some (n, Free)"
    and hi: "s + len0 = b + n + 4" "kbrk h = b + n + 4" and n: "TRIM_THRESHOLD \<le> n"
    and give: "give = (n - PAGE) div PAGE * PAGE" and lo: "kbrk_start h \<le> kbrk h - give"
  defines "h2 \<equiv> unlink_free b h" and "keep \<equiv> n - give"
  defines "m3 \<equiv> st32 b (of_nat keep OR (ld32 (st32 (s + (len0 - give) - 4) INUSE (st32 (s + 4) (of_nat (len0 - give)) (hmem h2))) b AND PREV_INUSE))
      (st32 (s + (len0 - give) - 4) INUSE (st32 (s + 4) (of_nat (len0 - give)) (hmem h2)))"
  defines "h' \<equiv> make_free b keep (h2\<lparr>cur_brk := kbrk h - give, kbrk := kbrk h - give, hmem := m3, arena_bytes := arena_bytes h2 - of_nat give\<rparr>)"
  shows "\<exists>B' S' L'. heap_inv h' B' S' L' MM \<and> no_hole B' \<and> used_same B B' \<and> pres B MM h h' \<and> maps h' = maps h"
proof -
  note i = heap_invD [OF inv]
  have g: "4096 \<le> keep" "keep + give = n" "give mod 4096 = 0" "0 < give" "give mod 8 = 0"
  proof -
    have "give + (n - 4096) mod 4096 = n - 4096" "(n - 4096) mod 4096 < 4096"
      using div_mult_mod_eq [of "n - 4096" 4096] by (simp_all add: give PAGE_def)
    then show "4096 \<le> keep" "keep + give = n" "0 < give" using n by (simp_all add: keep_def malloc_consts)
    show "give mod 4096 = 0" by (simp add: give PAGE_def)
    then show "give mod 8 = 0" by (auto simp: mod_eq_0_iff_dvd intro: dvd_trans [of 8 4096])
  qed
  have n8: "n mod 8 = 0" using tilesD(2) [OF i(1) b] .
  have k: "16 \<le> keep" "keep mod 8 = 0" "keep < n" using g n8 by (auto simp: keep_def mod_eq_0_iff_dvd)
  let ?B = "B(b \<mapsto> (n, Hole))"
  note tf = take_free [OF inv nh b, folded h2_def]
  note i2 = heap_invD [OF tf(1)]
  have env: "kbrk h2 = kbrk h" "kbrk_start h2 = kbrk_start h" "maps h2 = maps h" using tf(3) by (auto simp: keeps_def same_env_def)
  have sb: "s + 12 \<le> b" using blk_seg_apart [OF i(1,2) b, of s len0] seg_okD(6) [OF i(2), of s len0] hi by auto
  then have l1: "s + (len0 - give) = b + keep + 4" "kbrk h - give = b + keep + 4" using hi g(2) by auto
  have lm: "(len0 - give) mod 4096 = 0"
    using seg_okD(5) [OF i(2), of s len0] g(3) by (auto simp: mod_eq_0_iff_dvd)
  have hi2: "kbrk h2 = b + n + 4" "kbrk_start h2 \<le> b + keep + 4" using hi(2) env lo l1(2) by auto
  note ti = trim_inv [OF tf(1,2) hi(1) hi2(1) k l1(1) lm hi2(2)]
  define B3 where "B3 = (?B(b \<mapsto> (keep, Hole), b + n := None))(b + keep \<mapsto> (0, Used))"
  have al: "(b + keep) mod 8 = 4" "(s + 4) mod 8 = 4"
    using tilesD(1) [OF i(1) b] k(2) seg_okD(2) [OF i(2), of s len0]
    by (auto simp: mod_add_right_eq [of b keep 8, symmetric] mod_add_left_eq [of s 8 4, symmetric])
  have e: "s + (len0 - give) - 4 = b + keep" using l1(1) by simp
  have "ld32 (st32 (b + keep) INUSE (st32 (s + 4) (of_nat (len0 - give)) (hmem h2))) b = ld32 (hmem h2) b"
    using head_store [OF i(1) b al(1)] head_store [OF i(1) b al(2)] sb k(1) by simp
  then have m3: "m3 = st32 b (hdr keep False (prev_inuse (hmem h2) b)) (st32 (b + keep) (hdr 0 True False) (st32 (s + 4) (of_nat (len0 - give)) (hmem h2)))"
    using hdr_eqs(4) [OF k(2)] unfolding m3_def e by (simp add: prev_inuse_def hdr_consts(2))
  have gv: "n - keep = give" using g(2) by simp
  define h3 where "h3 = h2\<lparr>cur_brk := b + keep + 4, kbrk := b + keep + 4, hmem := m3, arena_bytes := arena_bytes h2 - of_nat give\<rparr>"
  note ti = ti [folded m3 B3_def, unfolded gv, folded h3_def]
  have nx: "B3 (b + keep) = Some (0, Used)" by (simp add: B3_def)
  have pv: "\<not> before Free B3 b" using ti(5) tf(5) by simp
  note mf = make_free_spec [OF ti(1,2) nx pv]
  have h': "h' = make_free b keep h3" by (simp add: h'_def h3_def l1(2))
  let ?B4 = "B3(b \<mapsto> (keep, Free))"
  have us: "used_same B3 ?B4" using hole_atD(1) [OF ti(2)] by (auto simp: used_same_def)
  have us': "used_same B ?B4" by (rule used_same_trans [OF used_same_trans [OF tf(7) ti(3)] us])
  have eq: "hmem h' y = hmem h y" if y: "y \<in> pay B \<or> kbrk h \<le> y" for y
  proof -
    have "kbrk h3 \<le> y" if "kbrk h \<le> y" using that hi(2) k(3) by (simp add: h3_def)
    then have "hmem h' y = hmem h3 y"
      using mf(2) [of y] y used_same_pay [OF used_same_trans [OF tf(7) ti(3)]] unfolding h' by auto
    also have "\<dots> = hmem h2 y" using ti(4) [of y] y used_same_pay [OF tf(7)] env(1) by (simp add: h3_def)
    also have "\<dots> = hmem h y" using tf(3) y by (auto simp: keeps_def)
    finally show ?thesis .
  qed
  have "pres B MM h h'"
  proof (rule presI)
    show "hmem h' y = hmem h y" if "(a, l) \<in> MM" "a + 8 \<le> y" for a l y
    proof -
      have "kbrk h \<le> a" using i(6) that(1) by (auto simp: mapped_ok_def)
      then show ?thesis using eq [of y] that(2) by simp
    qed
  qed (use eq in blast)
  moreover have "no_hole ?B4" using hole_atD(2) [OF ti(2)] by (auto simp: no_hole_def)
  moreover have "maps h' = maps h" using mf(3) env(3) by (simp add: h' same_env_def h3_def)
  ultimately show ?thesis using mf(1) us' unfolding h' by blast
qed

lemma trim_spec:
  assumes inv: "heap_inv h B S L MM" and nh: "no_hole B" and b: "B b = Some (n, Free)"
  obtains B' S' L' where "heap_inv (trim sys b h) B' S' L' MM" and "no_hole B'" and "used_same B B'"
    and "pres B MM h (trim sys b h)" and "maps (trim sys b h) = maps h"
proof -
  note i = heap_invD [OF inv]
  have bs: "bsize (hmem h) b = n" "next_block (hmem h) b = b + n" using blk_reads(1,3) [OF inv b] by auto
  let ?h0 = "h\<lparr>cur_brk := kbrk h\<rparr>"
  define P where "P h' \<longleftrightarrow> (\<exists>B' S' L'. heap_inv h' B' S' L' MM \<and> no_hole B' \<and> used_same B B' \<and> pres B MM h h' \<and> maps h' = maps h)" for h'
  have inv0: "heap_inv ?h0 B S L MM" by (rule heap_inv_cur [OF inv])
  have P: "P h" "P ?h0" unfolding P_def using inv inv0 nh used_same_refl [of B] by (fastforce simp: pres_def)+
  have "P (trim sys b h)"
  proof (cases "segments h = 0 \<or> n < TRIM_THRESHOLD \<or> b + n \<noteq> segments h + seg_len (hmem h) (segments h) - 4 \<or>
      kbrk h \<noteq> segments h + seg_len (hmem h) (segments h)")
    case True
    then have "trim sys b h = h \<or> trim sys b h = ?h0"
      unfolding trim_def Let_def bs sbrk_0 [OF i(7)] by auto
    then show ?thesis using P by auto
  next
    case False
    then obtain s len0 S1 where S: "S = (s, len0) # S1" "segments h = s" "seg_len (hmem h) s = len0" using i(3) by (cases S) auto
    have "4096 \<le> len0" using seg_okD(6) [OF i(2), of s len0] S(1) by simp
    then have hi: "s + len0 = b + n + 4" "kbrk h = b + n + 4" "TRIM_THRESHOLD \<le> n" using False S(2,3) by auto
    define give where "give = (n - PAGE) div PAGE * PAGE"
    have n4: "262144 \<le> n" using hi(3) by (simp add: malloc_consts)
    have g: "0 < give" "give < kbrk h" "give \<le> len0"
    proof -
      have "give \<le> n - 4096" unfolding give_def PAGE_def by (rule div_times_less_eq_dividend)
      then show "give < kbrk h" using hi(2) n4 by simp
      have "s + 12 \<le> b" using blk_seg_apart [OF i(1,2) b, of s len0] S(1) \<open>4096 \<le> len0\<close> hi by auto
      then show "give \<le> len0" using hi(1) \<open>give \<le> n - 4096\<close> by simp
      have "0 < (n - 4096) div 4096" using n4 by (simp add: div_greater_zero_iff)
      then show "0 < give" by (simp add: give_def PAGE_def)
    qed
    have c: "\<not> (s = 0 \<or> n < TRIM_THRESHOLD)" "\<not> (b + n \<noteq> s + len0 - 4)" "\<not> (Some (kbrk h) \<noteq> Some (s + len0))" "give \<noteq> 0"
      using False hi S(2,3) g(1) by auto
    let ?h2 = "unlink_free b h"
    note tf = take_free [OF inv nh b]
    have w: "ld32 (hmem ?h2) (s + 4) = of_nat len0" "len0 < 4294967296"
      using heap_invD(3) [OF tf(1)] unat_u32_less [of "ld32 (hmem ?h2) (s + 4)"] by (auto simp: S(1) seg_len_def)
    have w1: "ld32 (hmem ?h2) (s + 4) - of_nat give = of_nat (len0 - give)" using g(3) by (simp add: w)
    have w2: "seg_len (st32 (s + 4) (of_nat (len0 - give)) (hmem ?h2)) s = len0 - give"
      using w(2) by (simp add: seg_len_def del: of_nat_diff)
    have wf0: "sys_wf ?h0" "give < kbrk ?h0" using i(7) g(2) by (auto simp: sys_wf_def)
    show ?thesis
      using wf0(1) g(1) wf0(2)
    proof (cases rule: sbrk_down [where sys = sys])
      case refused
      have "trim sys b h = ?h0"
        unfolding trim_def Let_def bs S(2,3) sbrk_0 [OF i(7)] prod.case give_def [symmetric]
          if_not_P [OF c(1)] if_not_P [OF c(2)] if_not_P [OF c(3)] if_not_P [OF c(4)] refused by simp
      then show ?thesis using P(2) by simp
    next
      case moved
      have m: "sbrk sys (- int give) ?h0 = (Some (kbrk h), h\<lparr>cur_brk := kbrk h - give, kbrk := kbrk h - give\<rparr>)" using moved(1) by simp
      have lo: "kbrk_start h \<le> kbrk h - give" using moved(2) by simp
      have e: "trim sys b h = make_free b (n - give)
          (?h2\<lparr>cur_brk := kbrk h - give, kbrk := kbrk h - give,
              hmem := st32 b (of_nat (n - give) OR (ld32 (st32 (s + (len0 - give) - 4) INUSE (st32 (s + 4) (of_nat (len0 - give)) (hmem ?h2))) b AND PREV_INUSE))
                (st32 (s + (len0 - give) - 4) INUSE (st32 (s + 4) (of_nat (len0 - give)) (hmem ?h2))),
              arena_bytes := arena_bytes ?h2 - of_nat give\<rparr>)"
        unfolding trim_def Let_def bs S(2,3) sbrk_0 [OF i(7)] prod.case give_def [symmetric]
          if_not_P [OF c(1)] if_not_P [OF c(2)] if_not_P [OF c(3)] if_not_P [OF c(4)] m option.case unlink_free_brk
        by (simp add: tf(4) w1 w2 del: of_nat_diff)
      show ?thesis unfolding P_def e by (rule trim_main [OF inv [unfolded S(1)] nh b hi give_def lo])
    qed
  qed
  then show thesis using that unfolding P_def by blast
qed

subsection \<open>Resizing in place\<close>

lemma cut_tail_spec:
  assumes inv: "heap_inv h B S L MM" and nh: "no_hole B" and b: "B b = Some (n, Used)" and sz: "16 \<le> sz" "sz mod 8 = 0" "sz \<le> n"
  obtains B' L' n' where "heap_inv (cut_tail b sz h) B' S L' MM" and "no_hole B'" and "used_plus B b n' B'"
    and "sz \<le> n'" and "same_env h (cut_tail b sz h)"
    and "\<forall>y. y \<in> pay B \<and> \<not> (b + sz \<le> y \<and> y < b + n) \<or> kbrk h \<le> y \<longrightarrow> hmem (cut_tail b sz h) y = hmem h y"
proof (cases "MIN_BLOCK \<le> n - sz")
  case True
  then have sz': "sz + 16 \<le> n" using sz by (simp add: malloc_consts)
  note i = heap_invD [OF inv]
  have bs: "bsize (hmem h) b = n" using blk_reads(1) [OF inv b] by simp
  have k: "(n - sz) mod 8 = 0" "n - sz < 4294967296"
    using tilesD(2) [OF i(1) b] sz(2) blk_u32(2) [OF inv b] by (auto simp: mod_eq_0_iff_dvd)
  define m1 where "m1 = st32 (b + sz) (hdr (n - sz) False True) (st32 b (of_nat sz OR INUSE OR (ld32 (hmem h) b AND PREV_INUSE)) (hmem h))"
  let ?B = "B(b \<mapsto> (sz, Used), b + sz \<mapsto> (n - sz, Hole))" and ?h = "h\<lparr>hmem := m1\<rparr>"
  note sp = split_spec [OF inv b _ _ sz(1,2) sz' k(1), folded m1_def]
  have inv1: "heap_inv ?h ?B S L MM" "hole_at ?B (b + sz) (n - sz)" using sp(1,2) nh by (auto simp: no_hole_def)
  have "ld32 m1 (b + sz) = hdr (n - sz) False True" by (simp add: m1_def)
  then have bs1: "bsize (hmem ?h) (b + sz) = n - sz" using hdr_reads(1) [OF _ k] by simp
  obtain b' n' h' B' L' where co: "coalesce (b + sz) ?h = (b', h')" "heap_inv h' B' S L' MM" "no_hole B'"
      "B' b' = Some (n', Free)" "b' \<le> b + sz" "b + sz + (n - sz) \<le> b' + n'" "used_same ?B B'" "keeps ?B ?h h'"
    by (rule coalesce_spec [OF inv1 bs1])
  have e: "cut_tail b sz h = h'"
    using True co(1) hdr_eqs(6) [OF k(1)] by (simp add: cut_tail_def bs Let_def m1_def)
  have fresh: "B (b + sz) = None" using not_header_inside [OF i(1) b, of "b + sz"] sz sz' by auto
  show ?thesis
  proof (rule that [of B' L' sz])
    show "heap_inv (cut_tail b sz h) B' S L' MM" "no_hole B'" using co(2,3) by (simp_all add: e)
    show "used_plus B b sz B'" using co(7) fresh sz sz' unfolding used_plus_def used_same_def by auto
    show "same_env h (cut_tail b sz h)" using co(8) by (simp add: e keeps_def same_env_def)
    show "\<forall>y. y \<in> pay B \<and> \<not> (b + sz \<le> y \<and> y < b + n) \<or> kbrk h \<le> y \<longrightarrow> hmem (cut_tail b sz h) y = hmem h y"
    proof (intro allI impI)
      fix y
      assume y: "y \<in> pay B \<and> \<not> (b + sz \<le> y \<and> y < b + n) \<or> kbrk h \<le> y"
      have "y \<in> pay ?B \<or> kbrk h \<le> y"
      proof -
        have "y \<in> pay ?B" if "B a = Some (j, Used)" "a + 4 \<le> y" "y < a + j" "\<not> (b + sz \<le> y \<and> y < b + n)" for a j
          using that b fresh unfolding pay_def by (cases "a = b") auto
        moreover obtain a j where "B a = Some (j, Used) \<and> a + 4 \<le> y \<and> y < a + j \<or> kbrk h \<le> y"
          using y by (auto simp: pay_def)
        ultimately show ?thesis using y by blast
      qed
      then have "hmem h' y = m1 y" using co(8) by (auto simp: keeps_def)
      moreover have "y < b \<or> b + 4 \<le> y \<and> y < b + sz \<or> b + n \<le> y"
        using y pay_apart(1) [OF i(1) _ b, of y] blk_below(1) [OF i(1,2) b] by auto
      ultimately show "hmem (cut_tail b sz h) y = hmem h y" using sz' by (auto simp: e m1_def st32_same)
    qed
  qed simp
next
  case False
  have "cut_tail b sz h = h" using False blk_reads(1) [OF inv b] by (simp add: cut_tail_def Let_def)
  then show ?thesis using that [of B L n] inv nh b sz by (auto simp: used_plus_def same_env_def)
qed

lemma absorb_next_spec:
  assumes inv: "heap_inv h B S L MM" and nh: "no_hole B" and b: "B b = Some (n, Used)" "n \<noteq> 0" and nx: "B (b + n) = Some (k, Free)"
  obtains B' L' where "heap_inv (absorb_next b (b + n) h) B' S L' MM" and "no_hole B'" and "used_plus B b (n + k) B'"
    and "keeps B h (absorb_next b (b + n) h)"
proof -
  define h1 where "h1 = unlink_free (b + n) h"
  define B1 where "B1 = B(b + n \<mapsto> (k, Hole))"
  define L1 where "L1 = L(bin_of k := remove1 (b + n) (L (bin_of k)))"
  note tk = take_free [OF inv nh nx, folded h1_def B1_def L1_def]
  note inv1 = tk(1) and i = heap_invD [OF inv] and i1 = heap_invD [OF tk(1)]
  obtain j where j: "B1 (b + n + k) = Some (j, Used)" using tk(6) by (auto simp: add.assoc)
  have b1: "B1 b = Some (n, Used)" "B1 (b + n) = Some (k, Hole)" using b by (simp_all add: B1_def)
  have k0: "k \<noteq> 0" using free_aligned [OF i(1) nx] by auto
  have n8: "n mod 8 = 0" "k mod 8 = 0" "(n + k) mod 8 = 0" "b mod 8 = 4" "(b + n + k) mod 8 = 4" "j mod 8 = 0"
    using tilesD(1,2) [OF i1(1) b1(1)] tilesD(1,2) [OF i1(1) b1(2)] tilesD(1,2) [OF i1(1) j] by (auto simp: mod_eq_0_iff_dvd)
  let ?B = "(B1(b + n := None))(b \<mapsto> (n + k, Used))"
  have t': "tiles ?B S" by (rule tiles_merge [OF i1(1,2) b1 b(2) k0])
  have nk: "n + k < 4294967296" using blk_below(1) [OF i1(1,2) j] i1(7) by (simp add: sys_wf_def USER_BRK_LIMIT_def)
  obtain q where q: "ld32 (hmem h1) b = hdr n True q" using blk_reads(5) [OF inv1 b1(1)] by auto
  obtain p where p: "ld32 (hmem h1) (b + n + k) = hdr j True p" using blk_reads(5) [OF inv1 j] by auto
  define m1 where "m1 = st32 b (hdr (n + k) True q) (hmem h1)"
  have p1: "ld32 m1 (b + n + k) = hdr j True p" using head_store [OF i1(1) j n8(4)] p k0 by (simp add: m1_def)
  have nb: "next_block m1 b = b + n + k" using hdr_reads(5) [of m1 b "n + k"] n8(3) nk by (simp add: m1_def)
  define h' where "h' = absorb_next b (b + n) h"
  have h': "h' = h1\<lparr>hmem := st32 (b + n + k) (hdr j True True) m1\<rparr>"
    using set_prev_inuse_hdr [OF p1 n8(6)] hdr_add [of n True q k] nb
    by (simp add: h'_def absorb_next_def Let_def q tk(4) flip: h1_def m1_def)
  have fr: "?B a = Some (i, Free) \<longleftrightarrow> B1 a = Some (i, Free)" for a i using b1 by auto
  have ld: "ld32 (hmem h') a = (if a = b + n + k then hdr j True True else if a = b then hdr (n + k) True q else ld32 (hmem h1) a)"
    if "?B a = Some (i, st)" for a i st
    using head_store [OF t' that n8(4)] head_store [OF t' that n8(5)] by (simp add: h' m1_def)
  have "heap_core h' B1 S L1 MM"
    using store_core [OF store_core [OF _ head_place_at [OF i1(1) b1(1)]] head_place_at [OF i1(1) j]] inv1
    unfolding heap_inv_core h' m1_def by fastforce
  then have "heap_core h' ?B S L1 MM" by (rule heap_core_ghost [OF _ t' fr])
  moreover have "tags (hmem h') ?B"
  proof (rule tags_same_free [OF i1(4) fr])
    show "ld32 (hmem h') (a + i - 4) = ld32 (hmem h1) (a + i - 4)" if "B1 a = Some (i, Free)" for a i
      using footer_store [OF i1(1) that n8(4)] footer_store [OF i1(1) that n8(5)] by (simp add: h' m1_def)
    show "\<exists>p. ld32 (hmem h') a = hdr i (su = Used) p" if "?B a = Some (i, su)" "su \<noteq> Hole" for a i su
      using ld [OF that(1)] that tagsD(1) [OF i1(4), of a i su] j k0 b(2) by (auto split: if_splits)
    show "prev_inuse (hmem h') a = (\<not> before Free B1 a)" if "a \<in> dom ?B" for a
    proof -
      obtain i su where a: "?B a = Some (i, su)" using \<open>a \<in> dom ?B\<close> by fastforce
      have "\<not> before Free B1 (b + n + k)" using before_unique [OF i1(1) b1(2) k0, of Free] by auto
      moreover have "prev_inuse (hmem h1) a = (\<not> before Free B1 a)" if "a \<noteq> b + n + k"
      proof -
        have "\<not> before Hole B1 a" using that nh by (auto simp: B1_def no_hole_def elim!: beforeE split: if_splits)
        then show ?thesis using tagsD(2) [OF i1(4), of a] a b1 by (cases "a = b") (auto split: if_splits)
      qed
      moreover have "prev_inuse (hmem h1) b = q" using hdr_flags(2) [OF n8(1), of True q] by (simp add: prev_inuse_def q)
      ultimately show ?thesis
        using ld [OF a] hdr_flags(2) [OF n8(6), of True True] hdr_flags(2) [OF n8(3), of True q]
          prev_inuse_cong [of "hmem h'" a "hmem h1"] by (auto simp: prev_inuse_def [of "hmem h'"] split: if_splits)
    qed
  qed
  ultimately have "heap_inv h' ?B S L1 MM" by (simp add: heap_inv_core)
  moreover have "no_hole ?B" using nh by (auto simp: no_hole_def B1_def)
  moreover have "used_plus B b (n + k) ?B" using nx by (auto simp: used_plus_def B1_def)
  moreover have "keeps B h h'"
  proof -
    have jj: "\<exists>st. B (b + n + k) = Some (j, st)" using j k0 by (auto simp: B1_def)
    have "hmem h' y = hmem h1 y" if "y \<in> pay B" for y
      using st32_off_head [OF i(1) that b(1)] st32_off_head [OF i(1) that] jj by (auto simp: h' m1_def)
    moreover have "hmem h' y = hmem h1 y" if "kbrk h \<le> y" for y
      using blk_below(1) [OF i1(1,2) b1(1)] blk_below(1) [OF i1(1,2) j] that tk(3) by (simp add: h' m1_def st32_same keeps_def same_env_def)
    ultimately show ?thesis using tk(3) by (auto simp: keeps_def same_env_def h')
  qed
  ultimately show ?thesis using that [of ?B L1] by (simp add: h'_def)
qed

end
