(* ===== verification/MallocSpec.thy ===== *)
theory MallocSpec
  imports MallocBlocks
begin

text \<open>
  The interface of \<^verbatim>\<open>lib/malloc.c\<close> as the program sees it.  \<open>heap_ok h A\<close> says that \<open>h\<close> is a consistent heap in
  which the program holds the blocks \<open>A\<close>, pairs of an address and the bytes there.  \<open>malloc\<close>, \<open>calloc\<close>,
  \<open>realloc\<close> and \<open>free\<close> are shown to return, to change \<open>A\<close> as they promise and to leave every byte of the other
  blocks alone; \<open>malloc_check\<close> accepts every such heap.
\<close>

subsection \<open>The walks of the lists\<close>

lemma bin_walk_spec:
  "dll m q p xs \<Longrightarrow> 0 \<notin> set xs \<Longrightarrow>
     bin_walk m sz p = Some (case find (\<lambda>b. sz \<le> bsize m b) xs of None \<Rightarrow> 0 | Some b \<Rightarrow> b)"
proof (induction xs arbitrary: q p)
  case (Cons x xs)
  then have "bin_walk m sz (bnext m x) = Some (case find (\<lambda>b. sz \<le> bsize m b) xs of None \<Rightarrow> 0 | Some b \<Rightarrow> b)"
    by auto
  with Cons.prems show ?case by (subst bin_walk.simps) auto
qed (simp add: bin_walk.simps)

lemma scan_bins_spec:
  assumes "list_all2 (\<lambda>b xs. dll m 0 b xs \<and> 0 \<notin> set xs) bs xss"
  shows "\<exists>r. scan_bins m sz bs = Some r \<and> (r = 0 \<longrightarrow> (\<forall>x\<in>\<Union>(set ` set xss). bsize m x < sz)) \<and>
    (r \<noteq> 0 \<longrightarrow> r \<in> \<Union>(set ` set xss) \<and> sz \<le> bsize m r)"
  using assms
proof (induction rule: list_all2_induct)
    case (Cons b bs xs xss)
    then have w: "bin_walk m sz b = Some (case find (\<lambda>b. sz \<le> bsize m b) xs of None \<Rightarrow> 0 | Some b \<Rightarrow> b)"
      by (auto intro: bin_walk_spec)
    show ?case
    proof (cases "find (\<lambda>b. sz \<le> bsize m b) xs")
      case None
      then have "\<forall>x\<in>set xs. bsize m x < sz" by (auto simp: find_None_iff)
      then show ?thesis using Cons.IH w None by auto
    next
      case (Some c)
      then have "c \<in> set xs" "sz \<le> bsize m c" by (auto simp: find_Some_iff)
      then show ?thesis using Cons.hyps w Some by auto
    qed
qed simp

declare bin_loop.simps [simp del]

lemma bin_loop_mono: "a \<le> b \<Longrightarrow> i \<le> j \<Longrightarrow> bin_loop a i \<le> bin_loop b j"
proof (induction a i arbitrary: b j rule: bin_loop.induct)
  case (1 a i)
  have lo: "k \<le> bin_loop c k" for c k
    by (induction c k rule: bin_loop.induct) (subst bin_loop.simps, auto)
  have hi: "bin_loop c k \<le> NBINS - 1" if "k \<le> NBINS - 1" for c k
    using that by (induction c k rule: bin_loop.induct) (subst bin_loop.simps, auto)
  show ?case
  proof (cases "a \<noteq> 0 \<and> i < NBINS - 1")
    case True
    then have e: "bin_loop a i = bin_loop (a div 2) (i + 1)" by (subst bin_loop.simps) simp
    show ?thesis
    proof (cases "j < NBINS - 1")
      case True
      then have "bin_loop b j = bin_loop (b div 2) (j + 1)" using "1.prems" \<open>a \<noteq> 0 \<and> _\<close> by (subst bin_loop.simps) simp
      then show ?thesis using "1.IH" [of "b div 2" "j + 1"] "1.prems" e \<open>a \<noteq> 0 \<and> _\<close> by (auto simp: div_le_mono)
    next
      case False
      then show ?thesis using hi [of i a] lo [of j b] True by linarith
    qed
  next
    case False
    then have "bin_loop a i = i" by (subst bin_loop.simps) (rule if_not_P)
    then show ?thesis using lo [of j b] "1.prems" by simp
  qed
qed

lemma bin_of_mono: "a \<le> b \<Longrightarrow> bin_of a \<le> bin_of b"
  unfolding bin_of_def by (intro bin_loop_mono div_le_mono) auto

lemma scan_spec:
  assumes inv: "heap_inv h B S L MM"
  obtains r where "scan_bins (hmem h) sz (drop (bin_of sz) (bins h)) = Some r"
    and "r = 0 \<Longrightarrow> \<forall>a n. B a = Some (n, Free) \<longrightarrow> n < sz"
    and "r \<noteq> 0 \<Longrightarrow> \<exists>n. B r = Some (n, Free) \<and> sz \<le> n"
proof -
  note i = heap_invD [OF inv]
  let ?k = "bin_of sz" and ?xss = "map L [bin_of sz..<NBINS]"
  have len: "length (bins h) = NBINS" using i(5) by (simp add: listed_def)
  have L: "x \<in> set (L j) \<longleftrightarrow> (\<exists>n. B x = Some (n, Free) \<and> bin_of n = j)" if "j < NBINS" for x j
    using listedD(4) [OF i(5) that] by auto
  have "list_all2 (\<lambda>b xs. dll (hmem h) 0 b xs \<and> 0 \<notin> set xs) (drop ?k (bins h)) ?xss"
  proof (rule list_all2_all_nthI)
    fix j
    assume "j < length (drop ?k (bins h))"
    then have j: "?k + j < NBINS" using len by simp
    have "0 \<notin> set (L (?k + j))" using L [OF j] free_aligned [OF i(1), of 0] by auto
    then show "dll (hmem h) 0 (drop ?k (bins h) ! j) (?xss ! j) \<and> 0 \<notin> set (?xss ! j)"
      using listedD(3) [OF i(5) j] j len by simp
  qed (simp add: len)
  then obtain r where r: "scan_bins (hmem h) sz (drop ?k (bins h)) = Some r"
    "r = 0 \<longrightarrow> (\<forall>x\<in>\<Union>(set ` set ?xss). bsize (hmem h) x < sz)"
    "r \<noteq> 0 \<longrightarrow> r \<in> \<Union>(set ` set ?xss) \<and> sz \<le> bsize (hmem h) r" by (blast dest: scan_bins_spec [where sz = sz])
  show thesis
  proof (rule that [OF r(1)])
    show "\<forall>a n. B a = Some (n, Free) \<longrightarrow> n < sz" if "r = 0"
    proof (intro allI impI)
      fix a n
      assume a: "B a = Some (n, Free)"
      show "n < sz"
      proof (cases "?k \<le> bin_of n")
        case True
        have "bin_of n < NBINS" by (rule bin_of_less)
        then have "a \<in> \<Union>(set ` set ?xss)" using True L [of "bin_of n" a] a by auto
        then show ?thesis using r(2) [rule_format, OF that] blk_reads(1) [OF inv a] by fastforce
      next
        case False
        then show ?thesis using bin_of_mono [of sz n] by linarith
      qed
    qed
    show "\<exists>n. B r = Some (n, Free) \<and> sz \<le> n" if "r \<noteq> 0"
      using r(3) [rule_format, OF that] L blk_reads(1) [OF inv, of r] by auto
  qed
qed

lemma seg_walk_spec:
  "seg_chain m p S \<Longrightarrow> \<forall>(s, len)\<in>set S. s \<noteq> 0 \<Longrightarrow>
     seg_walk m b p = Some (case find (\<lambda>(s, len). s < b \<and> b < s + len) S of None \<Rightarrow> 0 | Some (s, _) \<Rightarrow> s)"
proof (induction S arbitrary: p)
  case (Cons x S)
  obtain s len where x: "x = (s, len)" by fastforce
  then have "seg_walk m b (seg_next m s) = Some (case find (\<lambda>(s, len). s < b \<and> b < s + len) S of None \<Rightarrow> 0 | Some (s, _) \<Rightarrow> s)"
    using Cons by auto
  with Cons.prems show ?case by (subst seg_walk.simps) (auto simp: x)
qed (simp add: seg_walk.simps)

lemma segment_of_spec:
  assumes inv: "heap_inv h B S L MM"
  shows "segment_of b h = Some (case find (\<lambda>(s, len). s < b \<and> b < s + len) S of None \<Rightarrow> 0 | Some (s, _) \<Rightarrow> s)"
  using seg_walk_spec [OF heap_invD(3) [OF inv], of b] seg_okD(1) [OF heap_invD(2) [OF inv]]
  unfolding segment_of_def by fastforce

lemma segment_of_blk:
  assumes inv: "heap_inv h B S L MM" and b: "B b = Some (n, st)"
  obtains s where "segment_of b h = Some s" and "s \<noteq> 0"
proof -
  note i = heap_invD [OF inv]
  obtain s len where s: "(s, len) \<in> set S" "s + 12 \<le> b" "b + n + 4 \<le> s + len" using tilesD(6) [OF i(1) b] by auto
  then have "(\<lambda>(s, len). s < b \<and> b < s + len) (s, len)" by auto
  with s(1) have "find (\<lambda>(s, len). s < b \<and> b < s + len) S \<noteq> None" unfolding find_None_iff by blast
  then obtain t l where t: "find (\<lambda>(s, len). s < b \<and> b < s + len) S = Some (t, l)" by fastforce
  then have "(t, l) \<in> set S" by (auto simp: find_Some_iff dest: nth_mem)
  then have "t \<noteq> 0" using seg_okD(1) [OF i(2)] by fastforce
  then show thesis using that [of t] segment_of_spec [OF inv, of b] t by simp
qed

lemma plausible_total: "heap_inv h B S L MM \<Longrightarrow> \<exists>r. plausible p h = Some r"
  by (auto simp: plausible_def Let_def segment_of_spec)

lemma plausible_used:
  assumes inv: "heap_inv h B S L MM" and b: "B b = Some (n, Used)"
  shows "plausible (b + 4) h = Some True" and "\<not> mmapped (hmem h) b"
proof -
  have "(b + 4) mod 8 = 0" using tilesD(1) [OF heap_invD(1) [OF inv] b] by presburger
  moreover obtain s where "segment_of b h = Some s" "s \<noteq> 0" by (rule segment_of_blk [OF inv b])
  ultimately show "plausible (b + 4) h = Some True" "\<not> mmapped (hmem h) b"
    using blk_reads(2,4) [OF inv b] by (auto simp: plausible_def from_payload_def ALIGN_def)
qed

subsection \<open>The program's view of the heap\<close>

text \<open>The bytes of the blocks in \<open>A\<close> are the same in both heaps.\<close>

definition same_bytes :: "(nat \<times> nat) set \<Rightarrow> heap \<Rightarrow> heap \<Rightarrow> bool" where
  "same_bytes A h h' \<longleftrightarrow> (\<forall>(p, k)\<in>A. \<forall>y. p \<le> y \<and> y < p + k \<longrightarrow> hmem h' y = hmem h y)"

lemma same_bytesI: "(\<And>p k y. (p, k) \<in> A \<Longrightarrow> p \<le> y \<Longrightarrow> y < p + k \<Longrightarrow> hmem h' y = hmem h y) \<Longrightarrow> same_bytes A h h'"
  unfolding same_bytes_def by blast

lemma same_bytesD: "same_bytes A h h' \<Longrightarrow> (p, k) \<in> A \<Longrightarrow> p \<le> y \<Longrightarrow> y < p + k \<Longrightarrow> hmem h' y = hmem h y"
  unfolding same_bytes_def by blast

lemma same_bytes_trans: "same_bytes A h h1 \<Longrightarrow> same_bytes A h1 h2 \<Longrightarrow> same_bytes A h h2"
  unfolding same_bytes_def by fastforce

lemma same_bytes_mono: "same_bytes A h h' \<Longrightarrow> A' \<subseteq> A \<Longrightarrow> same_bytes A' h h'"
  unfolding same_bytes_def by blast

lemma live_cases:
  assumes "(p, k) \<in> live B MM"
  obtains (block) b n where "p = b + 4" "k = n - 4" "B b = Some (n, Used)" "n \<noteq> 0"
  | (mapping) a len where "p = a + 8" "k = len - 12" "(a, len) \<in> MM"
  using assms unfolding live_def by blast

lemma live_block: "B b = Some (n, Used) \<Longrightarrow> n \<noteq> 0 \<Longrightarrow> (b + 4, n - 4) \<in> live B MM"
  unfolding live_def by blast

lemma live_map: "(a, len) \<in> MM \<Longrightarrow> (a + 8, len - 12) \<in> live B MM"
  unfolding live_def by blast

lemma pres_live:
  assumes "pres B MM h h'"
  shows "same_bytes (live B MM) h h'"
proof (rule same_bytesI)
  fix p k y
  assume "(p, k) \<in> live B MM" and y: "p \<le> y" "y < p + k"
  then have "y \<in> pay B \<or> (\<exists>(a, l)\<in>MM. a + 8 \<le> y \<and> y < a + l)"
  proof (cases rule: live_cases)
    case (block b n)
    then have "B b = Some (n, Used) \<and> b + 4 \<le> y \<and> y < b + n" using y by auto
    then show ?thesis unfolding pay_def by blast
  next
    case (mapping a len)
    then have "(a, len) \<in> MM \<and> a + 8 \<le> y \<and> y < a + len" using y by auto
    then show ?thesis by blast
  qed
  then show "hmem h' y = hmem h y" using assms unfolding pres_def by blast
qed

lemma live_image:
  "live B MM = (\<lambda>(a, n). (a + 4, n - 4)) ` {(a, n). B a = Some (n, Used) \<and> n \<noteq> 0} \<union> (\<lambda>(a, len). (a + 8, len - 12)) ` MM"
  unfolding live_def by (rule arg_cong2 [where f = "(\<union>)"]) (auto simp: image_iff)

lemma live_used_same: "used_same B B' \<Longrightarrow> live B' MM = live B MM"
  unfolding live_def used_same_def by auto

lemma live_used_plus:
  assumes "used_plus B b n B'" and "n \<noteq> 0"
  shows "live B' MM = insert (b + 4, n - 4) (live (B(b := None)) MM)"
proof -
  have "{(a, k). B' a = Some (k, Used) \<and> k \<noteq> 0} = insert (b, n) {(a, k). (B(b := None)) a = Some (k, Used) \<and> k \<noteq> 0}"
    using assms unfolding used_plus_def by (auto split: if_splits)
  then show ?thesis unfolding live_image by simp
qed

lemma live_free:
  assumes "\<forall>k. k \<noteq> 0 \<longrightarrow> B b \<noteq> Some (k, Used)"
  shows "live (B(b := None)) MM = live B MM"
proof -
  have "(B(b := None)) a = Some (k, Used) \<and> k \<noteq> 0 \<longleftrightarrow> B a = Some (k, Used) \<and> k \<noteq> 0" for a k
    using spec [OF assms, of k] by (cases "a = b") auto
  then show ?thesis unfolding live_image by simp
qed

text \<open>The blocks of a heap lie apart, and their payloads are aligned.\<close>

lemma map_apart:
  assumes "mapped_ok h MM" and "(a, l) \<in> set (maps h)" and "(a', l') \<in> set (maps h)" and "(a, l) \<noteq> (a', l')"
  shows "a + l \<le> a' \<or> a' + l' \<le> a"
proof -
  have s: "sorted_wrt (\<lambda>(a, n) (a', n'). a + n \<le> a' \<or> a' + n' \<le> a) (maps h)"
    using assms(1) unfolding mapped_ok_def by blast
  obtain i j where ij: "i < length (maps h)" "maps h ! i = (a, l)" "j < length (maps h)" "maps h ! j = (a', l')"
    using assms(2,3) by (metis in_set_conv_nth)
  then have "i < j \<or> j < i" using assms(4) by fastforce
  then show ?thesis using sorted_wrt_nth_less [OF s, of i j] sorted_wrt_nth_less [OF s, of j i] ij by auto
qed

lemma mapped_okD:
  assumes "mapped_ok h MM" and "(a, l) \<in> MM"
  shows "(a, l) \<in> set (maps h)" "a mod 4096 = 0" "l mod 4096 = 0" "ld32 (hmem h) (a + 4) = of_nat (l - 3)"
    "0 < a" "0 < l" "kbrk h \<le> a" "a + l \<le> USER_BRK_LIMIT" "4096 \<le> l"
proof -
  show 1: "(a, l) \<in> set (maps h)" "a mod 4096 = 0" "l mod 4096 = 0" "ld32 (hmem h) (a + 4) = of_nat (l - 3)"
    using assms unfolding mapped_ok_def by auto
  show 2: "0 < a" "0 < l" "kbrk h \<le> a" "a + l \<le> USER_BRK_LIMIT" using assms 1(1) unfolding mapped_ok_def by auto
  show "4096 \<le> l" using 1(3) 2(2) by (cases "l < 4096") simp_all
qed

lemma live_apart:
  assumes inv: "heap_inv h B S L MM" and p: "(p, k) \<in> live B MM" and q: "(q, j) \<in> live B MM" and ne: "(p, k) \<noteq> (q, j)"
  shows "p + k \<le> q \<or> q + j \<le> p"
proof -
  note i = heap_invD [OF inv]
  have bm: "b + n \<le> a" if "B b = Some (n, Used)" "(a, l) \<in> MM" for b n a l
    using blk_below(1) [OF i(1,2) that(1)] mapped_okD(7) [OF i(6) that(2)] by linarith
  show ?thesis using p
  proof (cases rule: live_cases)
    case (block b n)
    note b = this
    show ?thesis using q
    proof (cases rule: live_cases)
      case (block c m)
      then have "c \<noteq> b" using ne b by auto
      then show ?thesis using tiles_disjoint [OF i(1) b(3) block(3)] b block by auto
    next
      case (mapping a l)
      then show ?thesis using bm [OF b(3) mapping(3)] b by auto
    qed
  next
    case (mapping a l)
    note a = this
    show ?thesis using q
    proof (cases rule: live_cases)
      case (block c m)
      then show ?thesis using bm [OF block(3) a(3)] a by auto
    next
      case (mapping a' l')
      have "(a, l) \<noteq> (a', l')" using ne a mapping by auto
      then have "a + l \<le> a' \<or> a' + l' \<le> a" by (rule map_apart [OF i(6) mapped_okD(1) [OF i(6) a(3)] mapped_okD(1) [OF i(6) mapping(3)]])
      then show ?thesis using a mapping mapped_okD(9) [OF i(6) a(3)] mapped_okD(9) [OF i(6) mapping(3)] by auto
    qed
  qed
qed

lemma live_aligned:
  assumes inv: "heap_inv h B S L MM" and p: "(p, k) \<in> live B MM"
  shows "p mod 8 = 0" "0 < p" "8 \<le> k" "p + k \<le> USER_BRK_LIMIT"
proof -
  note i = heap_invD [OF inv]
  have "p mod 8 = 0 \<and> 0 < p \<and> 8 \<le> k \<and> p + k \<le> USER_BRK_LIMIT" using p
  proof (cases rule: live_cases)
    case (block b n)
    have "(b + 4) mod 8 = 0" using tilesD(1) [OF i(1) block(3)] by presburger
    then show ?thesis using block tilesD(3) [OF i(1) block(3)] blk_below(1) [OF i(1,2) block(3)] i(7) by (auto simp: sys_wf_def)
  next
    case (mapping a l)
    have "a mod 8 = 0" using mapped_okD(2) [OF i(6) mapping(3)] mod_mod_cancel [of 8 4096 a] by simp
    then have "(a + 8) mod 8 = 0" by simp
    then show ?thesis using mapping mapped_okD(8,9) [OF i(6) mapping(3)] by auto
  qed
  then show "p mod 8 = 0" "0 < p" "8 \<le> k" "p + k \<le> USER_BRK_LIMIT" by auto
qed

subsection \<open>Allocation from the lists\<close>

lemma used_same_plus: "used_same B B1 \<Longrightarrow> used_plus B1 b n B' \<Longrightarrow> used_plus B b n B'"
  unfolding used_same_def used_plus_def by auto

lemma used_same_free:
  assumes "used_same B B1" and "B1 b = Some (n, Free)"
  shows "\<forall>k. k \<noteq> 0 \<longrightarrow> B b \<noteq> Some (k, Used)"
proof (intro allI impI notI)
  fix k :: nat
  assume "k \<noteq> 0" "B b = Some (k, Used)"
  then have "B1 b = Some (k, Used)" using assms(1) by (simp add: used_same_def)
  then show False using assms(2) by simp
qed

lemma malloc_hit:
  assumes inv: "heap_inv h B S L MM" and nh: "no_hole B" and sz: "16 \<le> sz" "sz mod 8 = 0"
    and r: "scan_bins (hmem h) sz (drop (bin_of sz) (bins h)) = Some b" "b \<noteq> 0" "B b = Some (n0, Free)" "sz \<le> n0"
  obtains n h' B' L' where "malloc_loop sys sz h = Some (b + 4, h')" and "heap_inv h' B' S L' MM" and "no_hole B'"
    and "used_plus B b n B'" and "sz \<le> n" and "pres B MM h h'"
proof -
  note tk = take_free [OF inv nh r(3)]
  obtain k where k: "(B(b \<mapsto> (n0, Hole))) (b + n0) = Some (k, Used)" using tk(6) by blast
  obtain B' L' n where c: "heap_inv (carve_block b sz (unlink_free b h)) B' S L' MM" "no_hole B'"
      "used_plus (B(b \<mapsto> (n0, Hole))) b n B'" "sz \<le> n" "keeps (B(b \<mapsto> (n0, Hole))) (unlink_free b h) (carve_block b sz (unlink_free b h))"
    by (rule carve_block_spec [OF tk(1,2) k tk(4) sz r(4)])
  have "keeps B h (carve_block b sz (unlink_free b h))" by (rule keeps_trans [OF tk(3,7) c(5)])
  then have "pres B MM h (carve_block b sz (unlink_free b h))" by (rule keeps_pres [OF _ heap_invD(6) [OF inv]])
  moreover have "malloc_loop sys sz h = Some (b + 4, carve_block b sz (unlink_free b h))"
    using r(1,2) by (subst malloc_loop.simps) (simp add: payload_def)
  ultimately show thesis using that [OF _ c(1,2) used_same_plus [OF tk(7) c(3)] c(4)] by blast
qed

text \<open>The kernel grants the break when nothing stands in the way of the next 34 pages.\<close>

definition grants :: "sys \<Rightarrow> heap \<Rightarrow> bool" where
  "grants sys h \<longleftrightarrow> (\<forall>a. brk_ok sys a) \<and> kbrk h + 139264 \<le> USER_BRK_LIMIT \<and> (\<forall>(a, l)\<in>set (maps h). kbrk h + 139264 \<le> a)"

lemma sbrk_granted:
  assumes "sys_wf h" and "grants sys h" and "0 < n" and "n \<le> 139264"
  shows "fst (sbrk sys (int n) h) = Some (kbrk h)"
proof -
  define h0 where "h0 = h\<lparr>cur_brk := kbrk h\<rparr>"
  have h0: "(if cur_brk h = 0 then h\<lparr>cur_brk := kbrk h\<rparr> else h) = h0" unfolding h0_def by (rule cur_brk_known [OF assms(1)])
  have c: "cur_brk h0 = kbrk h" by (simp add: h0_def)
  have lim: "kbrk h + n \<le> USER_BRK_LIMIT" using assms(2,4) by (simp add: grants_def)
  then have "kbrk h + n < 4294967296" by (simp add: USER_BRK_LIMIT_def)
  then have w: "nat ((int (kbrk h) + int n) mod 2 ^ 32) = kbrk h + n" by (simp add: nat_add_distrib)
  have "list_all (\<lambda>(a, l). kbrk h + n \<le> a \<or> a + l \<le> kbrk h) (maps h)"
    using assms(2,4) by (fastforce simp: grants_def list_all_iff)
  then have "sys_brk sys (kbrk h + n) h0 = (kbrk h + n, h0\<lparr>kbrk := kbrk h + n\<rparr>)"
    using assms(1,2) lim by (simp add: sys_brk_def h0_def grants_def sys_wf_def)
  then show ?thesis using assms(3) unfolding sbrk_def h0 Let_def c w by (simp add: brk_def)
qed

lemma grow_granted:
  assumes wf: "sys_wf h" and g: "grants sys h" and need: "need < 131072"
  shows "fst (grow sys need h)"
proof -
  let ?h0 = "h\<lparr>cur_brk := kbrk h\<rparr>"
  define len where "len = (if page_round (need + SEG_HDR + 4) < SEG_MIN then SEG_MIN else page_round (need + SEG_HDR + 4))"
  have len: "0 < len" "len \<le> 135182"
    using page_round_le [of "need + SEG_HDR + 4"] need by (auto simp: len_def malloc_consts)
  define pad where "pad = (ALIGN - kbrk h mod ALIGN) mod ALIGN"
  have pad: "pad < 8" by (simp add: pad_def ALIGN_def)
  have g0: "sys_wf ?h0" "grants sys ?h0" "kbrk ?h0 = kbrk h" using wf g by (simp_all add: grants_def sys_wf_def)
  have "fst (sbrk sys (int len) ?h0) = Some (kbrk h)" "fst (sbrk sys (int (len + pad)) ?h0) = Some (kbrk h)"
    using sbrk_granted [OF g0(1,2), of len] sbrk_granted [OF g0(1,2), of "len + pad"] len pad by simp_all
  then have "fst (grow_top sys len ?h0)" "fst (grow_new sys (kbrk h) len ?h0)"
    unfolding grow_top_def grow_new_def Let_def pad_def by (auto split: prod.splits)
  then show ?thesis unfolding grow_def Let_def sbrk_0 [OF wf] prod.case len_def [symmetric] by simp
qed

lemma malloc_loop_spec:
  assumes inv: "heap_inv h B S L MM" and nh: "no_hole B" and sz: "16 \<le> sz" "sz mod 8 = 0" "sz < 131072"
  obtains (none) "malloc_loop sys sz h = Some (0, h\<lparr>cur_brk := kbrk h\<rparr>)" and "\<not> grants sys h"
  | (got) b n h' B' S' L' where "malloc_loop sys sz h = Some (b + 4, h')" and "heap_inv h' B' S' L' MM"
      and "no_hole B'" and "used_plus B b n B'" and "\<forall>k. k \<noteq> 0 \<longrightarrow> B b \<noteq> Some (k, Used)" and "sz \<le> n" and "pres B MM h h'"
proof -
  obtain r where r: "scan_bins (hmem h) sz (drop (bin_of sz) (bins h)) = Some r"
      "r \<noteq> 0 \<longrightarrow> (\<exists>n. B r = Some (n, Free) \<and> sz \<le> n)" using scan_spec [OF inv, of sz] by metis
  show thesis
  proof (cases "r = 0")
    case False
    then obtain n0 where n0: "B r = Some (n0, Free)" "sz \<le> n0" using r(2) by blast
    obtain n h' B' L' where "malloc_loop sys sz h = Some (r + 4, h')" "heap_inv h' B' S L' MM" "no_hole B'"
      "used_plus B r n B'" "sz \<le> n" "pres B MM h h'" by (rule malloc_hit [OF inv nh sz(1,2) r(1) False n0])
    then show thesis using got n0(1) by simp
  next
    case True
    have e: "malloc_loop sys sz h = (let (ok, h1) = grow sys sz h in if \<not> ok then Some (0, h1) else malloc_loop sys sz h1)"
      using r(1) True by (subst malloc_loop.simps) simp
    show thesis
      using inv nh sz(3)
    proof (cases rule: grow_spec [where sys = sys])
      case refused
      moreover have "\<not> grants sys h" using refused grow_granted [OF heap_invD(7) [OF inv] _ sz(3), of sys] by auto
      ultimately show thesis using none e by simp
    next
      case (grown h1 B1 S1 L1 b n0)
      obtain r1 where r1: "scan_bins (hmem h1) sz (drop (bin_of sz) (bins h1)) = Some r1"
          "r1 = 0 \<longrightarrow> (\<forall>a n. B1 a = Some (n, Free) \<longrightarrow> n < sz)"
          "r1 \<noteq> 0 \<longrightarrow> (\<exists>n. B1 r1 = Some (n, Free) \<and> sz \<le> n)" using scan_spec [OF grown(2), of sz] by metis
      have "r1 \<noteq> 0" using r1(2) grown(5,6) by (meson not_le)
      then obtain n1 where n1: "B1 r1 = Some (n1, Free)" "sz \<le> n1" using r1(3) by blast
      obtain n h' B' L' where g: "malloc_loop sys sz h1 = Some (r1 + 4, h')" "heap_inv h' B' S1 L' MM" "no_hole B'"
        "used_plus B1 r1 n B'" "sz \<le> n" "pres B1 MM h1 h'" by (rule malloc_hit [OF grown(2,3) sz(1,2) r1(1) \<open>r1 \<noteq> 0\<close> n1])
      have "pres B MM h h'" using pres_trans [OF grown(7) _ g(6)] used_same_pay [OF grown(4)] by simp
      then show thesis
        using got [OF _ g(2,3) used_same_plus [OF grown(4) g(4)] used_same_free [OF grown(4) n1(1)] g(5)] e grown(1) g(1) by simp
    qed
  qed
qed

subsection \<open>Large blocks\<close>

lemma big_word:
  assumes "n mod 8 = 0"
  shows "of_nat (n + 4) = (of_nat n OR MMAPPED :: u32)" and "of_nat (n + 5) = (of_nat n OR MMAPPED OR INUSE :: u32)"
proof -
  have a4: "(of_nat n :: u32) AND MMAPPED = 0" unfolding word_0_bits by (auto simp: hdr_bits bit_size [OF assms])
  have a1: "(of_nat n OR MMAPPED) AND INUSE = 0" unfolding word_0_bits by (auto simp: hdr_bits bit_size [OF assms])
  have "of_nat (n + 4) = (of_nat n + MMAPPED :: u32)" by (simp add: MMAPPED_def)
  also have "\<dots> = of_nat n OR MMAPPED" by (rule disjunctive_add_eq_or [OF a4])
  finally show e: "of_nat (n + 4) = (of_nat n OR MMAPPED :: u32)" .
  have "of_nat (n + 5) = (of_nat (n + 4) + INUSE :: u32)" by (simp add: INUSE_def)
  also have "\<dots> = (of_nat n OR MMAPPED) OR INUSE" unfolding e by (rule disjunctive_add_eq_or [OF a1])
  finally show "of_nat (n + 5) = (of_nat n OR MMAPPED OR INUSE :: u32)" by (simp only: or.assoc)
qed

lemma big_head:
  assumes "l mod 8 = 0" and "8 \<le> l"
  shows "of_nat (l - 4) OR INUSE OR MMAPPED = (of_nat (l - 3) :: u32)"
proof -
  define n where "n = l - 8"
  have n: "n mod 8 = 0" "l - 4 = n + 4" "l - 3 = n + 5" using assms by (auto simp: n_def mod_eq_0_iff_dvd)
  show ?thesis unfolding n(2,3) big_word [OF n(1)] by (rule bit_word_eqI) (auto simp: hdr_bits)
qed

lemma big_reads:
  assumes "ld32 m b = of_nat (l - 3)" and "l mod 4096 = 0" and "4096 \<le> l" and "l < 4294967296"
  shows "bsize m b = l - 8" and "inuse m b" and "mmapped m b"
proof -
  have l8: "l mod 8 = 0" using assms(2) mod_mod_cancel [of 8 4096 l] by simp
  define n where "n = l - 8"
  have n: "n mod 8 = 0" "l - 3 = n + 5" using l8 assms(3) by (auto simp: n_def mod_eq_0_iff_dvd)
  have w: "ld32 m b = of_nat n OR MMAPPED OR INUSE" using assms(1) big_word(2) [OF n(1)] n(2) by simp
  have "(of_nat n OR MMAPPED OR INUSE) AND NOT FLAGS = (of_nat n :: u32)"
    by (rule bit_word_eqI) (auto simp: hdr_bits bit_size [OF n(1)])
  then show "bsize m b = l - 8" using assms(4) by (simp add: bsize_def w n_def unat_of_nat)
  show "inuse m b" "mmapped m b" unfolding inuse_def mmapped_def w word_0_bits
    by (auto simp: hdr_bits bit_size [OF n(1)])
qed

text \<open>The invariant does not depend on the bytes of the program's blocks.\<close>

lemma heap_inv_bytes:
  assumes inv: "heap_inv h B S L MM" and mem: "\<And>y. y < kbrk h \<Longrightarrow> y \<notin> pay B \<Longrightarrow> hmem h' y = hmem h y"
    and mp: "mapped_ok h' MM'" and env: "bins h' = bins h" "segments h' = segments h" "kbrk_start h' = kbrk_start h"
      "kbrk h' = kbrk h" "cur_brk h' = cur_brk h"
  shows "heap_inv h' B S L MM'"
proof -
  note i = heap_invD [OF inv]
  have word: "ld32 (hmem h') w = ld32 (hmem h) w" if "w + 4 \<le> kbrk h" "\<forall>y. w \<le> y \<and> y < w + 4 \<longrightarrow> y \<notin> pay B" for w
    using that mem by (intro ld32_cong) auto
  have hd: "ld32 (hmem h') a = ld32 (hmem h) a" if "a \<in> dom B" for a
  proof -
    obtain n st where a: "B a = Some (n, st)" using \<open>a \<in> dom B\<close> by auto
    have "y < a \<or> a + 4 \<le> y" if "y \<in> pay B" for y by (rule pay_apart(1) [OF i(1) that a])
    then show ?thesis using word [of a] blk_below(1) [OF i(1,2) a] by fastforce
  qed
  have fr: "ld32 (hmem h') w = ld32 (hmem h) w" if x: "B x = Some (n, Free)" and w: "x \<le> w" "w + 4 \<le> x + n" for x n w
  proof -
    have "y < x \<or> x + n \<le> y" if "y \<in> pay B" for y using pay_apart(2) [OF i(1) that x] by blast
    then show ?thesis using word [of w] blk_below(1) [OF i(1,2) x] w by fastforce
  qed
  have sg: "ld32 (hmem h') w = ld32 (hmem h) w" if s: "(s, len) \<in> set S" and w: "w = s \<or> w = s + 4" for s len w
  proof -
    have "y < s \<or> s + 12 \<le> y" if y: "y \<in> pay B" for y
    proof -
      obtain a n where a: "B a = Some (n, Used)" "a + 4 \<le> y" "y < a + n" using y by (auto simp: pay_def)
      then show ?thesis using blk_seg_apart [OF i(1,2) a(1) s] seg_okD(6) [OF i(2) s] by linarith
    qed
    then show ?thesis using word [of w] seg_okD(4,6) [OF i(2) s] w by fastforce
  qed
  have "tags (hmem h') B"
  proof (rule tags_cong [OF i(4) hd])
    show "ld32 (hmem h') (a + n - 4) = ld32 (hmem h) (a + n - 4)" if "B a = Some (n, Free)" for a n
      using fr [OF that, of "a + n - 4"] free_aligned [OF i(1) that] by auto
  qed
  moreover have "listed (hmem h') (bins h') B L"
    unfolding env by (rule listed_cong [OF i(5)]) (use fr free_aligned [OF i(1)] in fastforce)
  moreover have "seg_chain (hmem h') p S = seg_chain (hmem h) p S" for p
    by (rule seg_chain_words) (rule sg)
  ultimately show ?thesis using i mp env unfolding heap_inv_def sys_wf_def by simp
qed

lemma big_alloc_spec:
  assumes inv: "heap_inv h B S L MM" and sz: "131072 \<le> sz"
  obtains (none) "big_alloc sys sz h = (0, h)"
  | (got) a len h' where "big_alloc sys sz h = (a + 8, h')" and "heap_inv h' B S L (insert (a, len) MM)"
      and "sz + 4 \<le> len" and "(a, len) \<notin> MM" and "pres B MM h h'"
      and "mmap_bytes h' = mmap_bytes h + of_nat len" and "mmap_count h' = mmap_count h + 1"
proof -
  note i = heap_invD [OF inv]
  define len where "len = page_round (sz + 4)"
  have len: "sz + 4 \<le> len" "len mod 4096 = 0" using page_round_le [of "sz + 4"] by (simp_all add: len_def)
  have "sys_mmap sys len h = (None, h) \<or> (\<exists>a. sys_mmap sys len h = (Some a, h\<lparr>maps := (a, len) # maps h\<rparr>) \<and>
      a mod 4096 = 0 \<and> kbrk h \<le> a \<and> 0 < a \<and> a + len \<le> USER_BRK_LIMIT \<and> list_all (\<lambda>(b, n). a + len \<le> b \<or> b + n \<le> a) (maps h))"
    by (simp add: sys_mmap_def split: option.split)
  then show thesis
  proof (elim disjE exE conjE)
    assume "sys_mmap sys len h = (None, h)"
    then show thesis using none by (simp add: big_alloc_def flip: len_def)
  next
    fix a
    assume 2: "sys_mmap sys len h = (Some a, h\<lparr>maps := (a, len) # maps h\<rparr>)" "a mod 4096 = 0" "kbrk h \<le> a" "0 < a"
      "a + len \<le> USER_BRK_LIMIT" "list_all (\<lambda>(b, n). a + len \<le> b \<or> b + n \<le> a) (maps h)"
    have l8: "len mod 8 = 0" using len(2) mod_mod_cancel [of 8 4096 len] by simp
    have hd: "of_nat (len - 4) OR INUSE OR MMAPPED = (of_nat (len - 3) :: u32)" using big_head [OF l8] len(1) sz by linarith
    define h' where "h' = snd (big_alloc sys sz h)"
    have g: "big_alloc sys sz h = (a + 8, h')" using 2(1) by (simp add: h'_def big_alloc_def payload_def flip: len_def)
    have mem: "hmem h' = st32 (a + 4) (of_nat (len - 3)) (hmem h)"
      using 2(1) hd by (simp add: h'_def big_alloc_def Let_def flip: len_def)
    have env: "bins h' = bins h" "segments h' = segments h" "kbrk_start h' = kbrk_start h" "kbrk h' = kbrk h"
        "cur_brk h' = cur_brk h" "maps h' = (a, len) # maps h"
        "mmap_bytes h' = mmap_bytes h + of_nat len" "mmap_count h' = mmap_count h + 1"
      using 2(1) by (simp_all add: h'_def big_alloc_def Let_def flip: len_def)
    have other: "hmem h' y = hmem h y" if "y < a \<or> a + len \<le> y" for y using that len(1) sz by (auto simp: mem st32_same)
    have apart: "a + len \<le> b \<or> b + n \<le> a" if "(b, n) \<in> MM" for b n
      using 2(6) mapped_okD(1) [OF i(6) that] by (auto simp: list_all_iff)
    have hd': "ld32 (hmem h') (b + 4) = ld32 (hmem h) (b + 4)" if "(b, n) \<in> MM" for b n
      using apart [OF that] mapped_okD(9) [OF i(6) that] len(1) sz by (auto simp: mem ld32_st32_disjoint)
    have "mapped_ok h' (insert (a, len) MM)"
      using i(6) 2(2-6) len sz hd' unfolding mapped_ok_def env list_all_iff by (auto simp: mem)
    then have inv': "heap_inv h' B S L (insert (a, len) MM)"
      using heap_inv_bytes [OF inv, of h'] env(1-5) other 2(3) by auto
    have "(a, len) \<notin> MM" using apart [of a len] len(1) by auto
    moreover have "pres B MM h h'"
    proof (unfold pres_def, intro allI impI)
      fix y
      assume "y \<in> pay B \<or> (\<exists>(b, n)\<in>MM. b + 8 \<le> y \<and> y < b + n)"
      then have "y < a \<or> a + len \<le> y"
        using blk_below(1) [OF i(1,2)] 2(3) apart by (fastforce simp: pay_def)
      then show "hmem h' y = hmem h y" by (rule other)
    qed
    ultimately show thesis using got [OF g inv' len(1) _ _ env(7,8)] by blast
  qed
qed

lemma big_free_spec:
  assumes inv: "heap_inv h B S L MM" and a: "(a, l) \<in> MM"
  shows "heap_inv (big_free (a + 4) h) B S L (MM - {(a, l)})" and "hmem (big_free (a + 4) h) = hmem h"
    and "maps (big_free (a + 4) h) = filter (\<lambda>x. x \<noteq> (a, l)) (maps h)"
    and "mmap_bytes (big_free (a + 4) h) = mmap_bytes h - of_nat (l - 4)" and "mmap_count (big_free (a + 4) h) = mmap_count h - 1"
proof -
  note i = heap_invD [OF inv] and m = mapped_okD [OF heap_invD(6) [OF inv] a]
  have bs: "bsize (hmem h) (a + 4) + 4 = l - 4" using big_reads(1) [OF m(4,3,9)] m(8,9) by (simp add: USER_BRK_LIMIT_def)
  obtain q where q: "l = 4096 * q" "0 < q" using m(3,6) by auto
  have "l - 4 + 4095 = 4096 * q + 4091" using q by simp
  then have r: "(l - 4 + 4095) div 4096 * 4096 = l" using q by simp
  have f: "(\<not> (a \<le> b \<and> b + n \<le> a + l)) = ((b, n) \<noteq> (a, l))" if "(b, n) \<in> set (maps h)" for b n
  proof -
    have "0 < n" using i(6) that unfolding mapped_ok_def by auto
    then show ?thesis using map_apart [OF i(6) that m(1)] by (cases "(b, n) = (a, l)") auto
  qed
  have e: "big_free (a + 4) h = h\<lparr>mmap_bytes := mmap_bytes h - of_nat (l - 4), mmap_count := mmap_count h - 1,
      maps := filter (\<lambda>(b, n). \<not> (a \<le> b \<and> b + n \<le> a + l)) (maps h)\<rparr>"
    unfolding big_free_def bs Let_def sys_munmap_def by (simp add: r)
  show mp: "maps (big_free (a + 4) h) = filter (\<lambda>x. x \<noteq> (a, l)) (maps h)"
    unfolding e using f by (auto intro!: filter_cong)
  show mem: "hmem (big_free (a + 4) h) = hmem h" by (simp add: e)
  show "mmap_bytes (big_free (a + 4) h) = mmap_bytes h - of_nat (l - 4)" "mmap_count (big_free (a + 4) h) = mmap_count h - 1"
    by (simp_all add: e)
  have "mapped_ok (big_free (a + 4) h) (MM - {(a, l)})"
    using i(6) unfolding mapped_ok_def mp mem by (auto simp: e sorted_wrt_filter)
  then show "heap_inv (big_free (a + 4) h) B S L (MM - {(a, l)})"
    using heap_inv_bytes [OF inv, of "big_free (a + 4) h"] mem by (simp add: e)
qed

subsection \<open>malloc and free\<close>

lemma and_not_split: "(x AND c) + (x AND NOT c) = x" for x :: u32
proof -
  have "(x AND c) AND (x AND NOT c) = 0" by (rule bit_word_eqI) (auto simp: bit_and_iff bit_not_iff)
  then have "(x AND c) + (x AND NOT c) = (x AND c) OR (x AND NOT c)" by (rule disjunctive_add_eq_or)
  also have "\<dots> = x" by (rule bit_word_eqI) (auto simp: bit_and_iff bit_or_iff bit_not_iff)
  finally show ?thesis .
qed

lemma round_down8: "unat (x AND NOT 7) = unat x - unat x mod 8" for x :: u32
proof -
  have "x AND 7 = x mod 8"
    using take_bit_eq_mod [of 3 x] take_bit_eq_mask [of 3 x] by (simp add: mask_eq_exp_minus_1)
  then have "x AND NOT 7 = x - x mod 8" using and_not_split [of x 7] by (metis add_diff_cancel_left')
  moreover have "x mod 8 \<le> x" by (simp add: word_le_nat_alt unat_mod)
  ultimately show ?thesis by (simp add: unat_sub unat_mod)
qed

lemma request_size_spec:
  "0x7fffff00 < n \<Longrightarrow> request_size n = 0"
  "n \<le> 0x7fffff00 \<Longrightarrow> unat (request_size n) mod 8 = 0 \<and> 16 \<le> unat (request_size n) \<and>
     unat n + 4 \<le> unat (request_size n) \<and> (unat (request_size n) = 16 \<or> unat (request_size n) \<le> unat n + 11)"
proof -
  assume n: "n \<le> 0x7fffff00"
  then have "unat n \<le> 2147483392" by (simp add: word_le_nat_alt)
  then have u: "unat (n + 11) = unat n + 11" by (subst unat_add_lem [THEN iffD1]) auto
  define r where "r = unat n + 11 - (unat n + 11) mod 8"
  define s where "s = (n + 4 + of_nat ALIGN - 1) AND NOT (of_nat (ALIGN - 1))"
  have r: "unat s = r" using round_down8 [of "n + 11"] by (simp add: s_def ALIGN_def u r_def add.commute)
  have r8: "r mod 8 = 0" "unat n + 4 \<le> r" "r \<le> unat n + 11"
  proof -
    have "(unat n + 11) mod 8 < 8" by simp
    then show "unat n + 4 \<le> r" "r \<le> unat n + 11" unfolding r_def by linarith+
    show "r mod 8 = 0" unfolding r_def by (simp add: minus_mod_eq_mult_div)
  qed
  have "request_size n = (if s < of_nat MIN_BLOCK then of_nat MIN_BLOCK else s)"
    using n unfolding request_size_def Let_def s_def [symmetric] by (auto simp: not_le [symmetric])
  then have "unat (request_size n) = (if r < 16 then 16 else r)" by (simp add: word_less_nat_alt MIN_BLOCK_def r)
  then show "unat (request_size n) mod 8 = 0 \<and> 16 \<le> unat (request_size n) \<and>
     unat n + 4 \<le> unat (request_size n) \<and> (unat (request_size n) = 16 \<or> unat (request_size n) \<le> unat n + 11)" using r8 by auto
qed (simp add: request_size_def)

lemma request_size_fits:
  assumes "n \<le> 0x7fffff00" and "unat n + 4 \<le> m" and "m mod 8 = 0" and "16 \<le> m"
  shows "unat (request_size n) \<le> m"
proof -
  define r where "r = unat (request_size n)"
  have r: "r mod 8 = 0" "r = 16 \<or> r \<le> unat n + 11" using request_size_spec(2) [OF assms(1)] by (auto simp: r_def)
  then obtain i j where ij: "r = 8 * i" "m = 8 * j" using assms(3) by (auto simp: mod_eq_0_iff_dvd elim!: dvdE)
  then have "8 * i < 8 * j + 8" using r(2) assms(2,4) by auto
  then have "i \<le> j" by presburger
  then show ?thesis using ij by (simp flip: r_def)
qed

lemma heap_okE:
  assumes "heap_ok h A"
  obtains B S L MM where "heap_inv h B S L MM" and "no_hole B" and "A = live B MM"
  using assms unfolding heap_ok_def no_hole_def by blast

lemma heap_okI: "heap_inv h B S L MM \<Longrightarrow> no_hole B \<Longrightarrow> A = live B MM \<Longrightarrow> heap_ok h A"
  unfolding heap_ok_def no_hole_def by blast

text \<open>A block of \<open>k\<close> bytes at \<open>p\<close> that is the program's to use beside the blocks of \<open>A\<close>.\<close>

definition fresh :: "nat \<Rightarrow> nat \<Rightarrow> (nat \<times> nat) set \<Rightarrow> bool" where
  "fresh p k A \<longleftrightarrow> p \<noteq> 0 \<and> p mod 8 = 0 \<and> (\<forall>(q, j)\<in>A. p + k \<le> q \<or> q + j \<le> p)"

lemma live_fresh:
  assumes "heap_inv h B S L MM" and "live B MM = insert (p, k) A" and "(p, k) \<notin> A"
  shows "fresh p k A"
proof -
  have p: "(p, k) \<in> live B MM" using assms(2) by simp
  have "p + k \<le> q \<or> q + j \<le> p" if "(q, j) \<in> A" for q j
  proof -
    have "(q, j) \<in> live B MM" "(p, k) \<noteq> (q, j)" using that assms(2,3) by auto
    then show ?thesis by (rule live_apart [OF assms(1) p])
  qed
  then show ?thesis using live_aligned(1,2) [OF assms(1) p] by (auto simp: fresh_def)
qed

lemma malloc_ok:
  assumes ok: "heap_ok h A"
  obtains (none) h' where "malloc sys n h = Some (0, h')" and "heap_ok h' A" and "same_bytes A h h'"
      and "n < 131056 \<longrightarrow> \<not> grants sys h"
  | (got) p k h' where "malloc sys n h = Some (p, h')" and "heap_ok h' (insert (p, k) A)" and "same_bytes A h h'"
      and "fresh p k A" and "unat n \<le> k" and "p \<noteq> 0"
proof -
  obtain B S L MM where inv: "heap_inv h B S L MM" and nh: "no_hole B" and A: "A = live B MM" by (rule heap_okE [OF ok])
  note i = heap_invD [OF inv]
  define sz where "sz = unat (request_size n)"
  show thesis
  proof (cases "0x7fffff00 < n")
    case True
    then have "malloc sys n h = Some (0, h)" by (simp add: malloc_def request_size_spec(1))
    moreover have "\<not> n < 131056" using True by (auto simp: word_less_nat_alt)
    ultimately show thesis using none [of h] ok by (simp add: same_bytes_def)
  next
    case False
    then have sz: "sz mod 8 = 0" "16 \<le> sz" "unat n + 4 \<le> sz" "sz = 16 \<or> sz \<le> unat n + 11"
      using request_size_spec(2) [of n] by (auto simp: sz_def not_less)
    have m: "malloc sys n h = (if 131072 \<le> sz then Some (big_alloc sys sz h) else malloc_loop sys sz h)"
      using sz(2) by (simp add: malloc_def MMAP_THRESHOLD_def flip: sz_def)
    show thesis
    proof (cases "131072 \<le> sz")
      case True
      have big: "\<not> n < 131056" using True sz(4) by (auto simp: word_less_nat_alt)
      show thesis
        using inv True
      proof (cases rule: big_alloc_spec [where sys = sys])
        case none
        then show thesis using that(1) [of h] m True ok big by (simp add: same_bytes_def)
      next
        case (got a len h')
        have l: "live B (insert (a, len) MM) = insert (a + 8, len - 12) A" by (simp add: live_image A)
        have "len mod 8 = 0" using mapped_okD(3) [OF heap_invD(6) [OF got(2)], of a len] mod_mod_cancel [of 8 4096 len] by simp
        then have room: "unat n \<le> len - 12" using sz(1,3) got(3) by presburger
        have n: "(a + 8, len - 12) \<notin> A"
        proof
          assume "(a + 8, len - 12) \<in> A"
          then show False unfolding A
          proof (cases rule: live_cases)
            case (block b k)
            then show False
              using blk_below(1) [OF heap_invD(1,2) [OF got(2)] block(3)] mapped_okD(7) [OF heap_invD(6) [OF got(2)], of a len] by auto
          next
            case (mapping b l)
            have "l = len" using mapped_okD(9) [OF i(6) mapping(3)] mapping(2) got(3) sz(2) by linarith
            then show False using mapping(1,3) got(4) by simp
          qed
        qed
        show thesis
          using that(2) [of "a + 8" h' "len - 12"] m True got(1,3,5) heap_okI [OF got(2) nh l [symmetric]] live_fresh [OF got(2) l n] pres_live [of B MM h h'] A room
          by auto
      qed
    next
      case False
      then have lt: "sz < 131072" by simp
      show thesis
        using inv nh sz(2,1) lt
      proof (cases rule: malloc_loop_spec [where sys = sys])
        case none
        have "heap_ok (h\<lparr>cur_brk := kbrk h\<rparr>) A" using heap_okI [OF heap_inv_cur [OF inv] nh A] .
        then show thesis using that(1) [of "h\<lparr>cur_brk := kbrk h\<rparr>"] m False none by (simp add: same_bytes_def)
      next
        case (got b k h' B' S' L')
        have "k \<noteq> 0" using got(6) sz(2) by simp
        then have l: "live B' MM = insert (b + 4, k - 4) A"
          using live_used_plus [OF got(4), of MM] live_free [where B = B and b = b, OF got(5), of MM] A by simp
        have n: "(b + 4, k - 4) \<notin> A"
        proof
          assume "(b + 4, k - 4) \<in> A"
          then show False unfolding A
          proof (cases rule: live_cases)
            case (mapping a l)
            have "B' b = Some (k, Used)" using got(4) by (simp add: used_plus_def)
            then have "b + k + 4 \<le> kbrk h'" by (rule blk_below(1) [OF heap_invD(1,2) [OF got(2)]])
            then show False using mapped_okD(7) [OF heap_invD(6) [OF got(2)] mapping(3)] mapping(1) by simp
          qed (use got(5) in auto)
        qed
        show thesis
          using that(2) [of "b + 4" h' "k - 4"] m False got(1,6) heap_okI [OF got(2,3) l [symmetric]] live_fresh [OF got(2) l n] got(7) pres_live [of B MM h h'] A sz(3)
          by auto
      qed
    qed
  qed
qed

text \<open>Releasing a block of the program.\<close>

lemma live_remove:
  assumes inv: "heap_inv h B S L MM" and b: "B b = Some (n, Used)" "n \<noteq> 0"
  shows "live (B(b := None)) MM = live B MM - {(b + 4, n - 4)}"
proof -
  note i = heap_invD [OF inv]
  have one: "a = b" if "B a = Some (j, Used)" "a + 4 = b + 4" for a j using that by simp
  have two: "a + 8 \<noteq> b + 4" if "(a, l) \<in> MM" for a l
    using blk_below(1) [OF i(1,2) b(1)] mapped_okD(7) [OF i(6) that] by linarith
  have "(p, k) \<in> live (B(b := None)) MM \<longleftrightarrow> (p, k) \<in> live B MM \<and> (p, k) \<noteq> (b + 4, n - 4)" for p k
  proof
    assume "(p, k) \<in> live (B(b := None)) MM"
    then show "(p, k) \<in> live B MM \<and> (p, k) \<noteq> (b + 4, n - 4)"
    proof (cases rule: live_cases)
      case (block c m)
      then have "c \<noteq> b" "B c = Some (m, Used)" by (auto split: if_splits)
      then show ?thesis using live_block [of B c m MM] block by auto
    next
      case (mapping a l)
      then show ?thesis using live_map [of a l MM B] two [of a l] by auto
    qed
  next
    assume "(p, k) \<in> live B MM \<and> (p, k) \<noteq> (b + 4, n - 4)"
    then have "(p, k) \<in> live B MM" and ne: "(p, k) \<noteq> (b + 4, n - 4)" by auto
    then show "(p, k) \<in> live (B(b := None)) MM"
    proof (cases rule: live_cases)
      case (block c m)
      then have "c \<noteq> b" using ne b(1) by auto
      then show ?thesis using live_block [of "B(b := None)" c m MM] block by simp
    next
      case (mapping a l)
      then show ?thesis using live_map [of a l MM] by simp
    qed
  qed
  then show ?thesis by auto
qed

lemma live_hole: "live (B(b \<mapsto> (n, Hole))) MM = live (B(b := None)) MM"
proof -
  have "(B(b \<mapsto> (n, Hole))) a = Some (k, Used) \<longleftrightarrow> (B(b := None)) a = Some (k, Used)" for a k by simp
  then show ?thesis unfolding live_def by simp
qed

lemma live_unmap:
  assumes inv: "heap_inv h B S L MM" and a: "(a, l) \<in> MM"
  shows "live B (MM - {(a, l)}) = live B MM - {(a + 8, l - 12)}"
proof -
  note i = heap_invD [OF inv]
  have two: "b + 4 \<noteq> a + 8" if "B b = Some (n, Used)" for b n
    using blk_below(1) [OF i(1,2) that] mapped_okD(7) [OF i(6) a] by linarith
  have "(p, k) \<in> live B (MM - {(a, l)}) \<longleftrightarrow> (p, k) \<in> live B MM \<and> (p, k) \<noteq> (a + 8, l - 12)" for p k
  proof
    assume "(p, k) \<in> live B (MM - {(a, l)})"
    then show "(p, k) \<in> live B MM \<and> (p, k) \<noteq> (a + 8, l - 12)"
    proof (cases rule: live_cases)
      case (block c m)
      then show ?thesis using live_block [of B c m MM] two [of c m] by auto
    next
      case (mapping a' l')
      have "l' - 12 \<noteq> l - 12 \<or> a' \<noteq> a"
        using mapped_okD(9) [OF i(6) a] mapped_okD(9) [OF i(6), of a' l'] mapping(3) by auto
      then show ?thesis using live_map [of a' l' MM B] mapping by auto
    qed
  next
    assume "(p, k) \<in> live B MM \<and> (p, k) \<noteq> (a + 8, l - 12)"
    then have "(p, k) \<in> live B MM" and ne: "(p, k) \<noteq> (a + 8, l - 12)" by auto
    then show "(p, k) \<in> live B (MM - {(a, l)})"
    proof (cases rule: live_cases)
      case (block c m)
      then show ?thesis using live_block [of B c m] by simp
    next
      case (mapping a' l')
      then have "(a', l') \<noteq> (a, l)" using ne by auto
      then show ?thesis using live_map [of a' l' "MM - {(a, l)}" B] mapping by simp
    qed
  qed
  then show ?thesis by auto
qed

lemma free_mapping:
  assumes inv: "heap_inv h B S L MM" and a: "(a, l) \<in> MM"
  shows "free sys (a + 8) h = Some (Inr (big_free (a + 4) h))"
proof -
  note m = mapped_okD [OF heap_invD(6) [OF inv] a]
  have "inuse (hmem h) (a + 4)" "mmapped (hmem h) (a + 4)" using big_reads(2,3) [OF m(4,3,9)] m(8) by (auto simp: USER_BRK_LIMIT_def)
  moreover have "from_payload (a + 8) = a + 4" by (simp add: from_payload_def)
  moreover have "(a + 8) mod 8 = 0" using live_aligned(1) [OF inv live_map [OF a]] .
  ultimately show ?thesis by (simp add: free_def plausible_def ALIGN_def Let_def del: mod_add_self2)
qed

lemma free_ok:
  assumes ok: "heap_ok h A" and p: "(p, k) \<in> A"
  obtains h' where "free sys p h = Some (Inr h')" and "heap_ok h' (A - {(p, k)})" and "same_bytes (A - {(p, k)}) h h'"
proof -
  obtain B S L MM where inv: "heap_inv h B S L MM" and nh: "no_hole B" and A: "A = live B MM" by (rule heap_okE [OF ok])
  note i = heap_invD [OF inv]
  have p0: "p \<noteq> 0" "p mod 8 = 0" using live_aligned(1,2) [OF inv p [unfolded A]] by auto
  show thesis using p [unfolded A]
  proof (cases rule: live_cases)
    case (block b n)
    note pl = plausible_used [OF inv block(3)]
    define h1 where "h1 = h\<lparr>hmem := st32 b (ld32 (hmem h) b AND NOT INUSE) (hmem h)\<rparr>"
    let ?B = "B(b \<mapsto> (n, Hole))"
    note mf = mark_free [OF inv nh block(3,4), folded h1_def]
    obtain c m h2 B2 L2 where co: "coalesce b h1 = (c, h2)" "heap_inv h2 B2 S L2 MM" "no_hole B2" "B2 c = Some (m, Free)"
      "c \<le> b" "b + n \<le> c + m" "used_same ?B B2" "keeps ?B h1 h2" by (rule coalesce_spec [OF mf(1-3)])
    obtain B3 S3 L3 where tr: "heap_inv (trim sys c h2) B3 S3 L3 MM" "no_hole B3" "used_same B2 B3" "pres B2 MM h2 (trim sys c h2)"
      "maps (trim sys c h2) = maps h2" by (rule trim_spec [OF co(2-4)])
    have f: "free sys p h = Some (Inr (trim sys c h2))"
      using pl co(1) p0(1) block(1) by (simp add: free_def from_payload_def Let_def flip: h1_def)
    have l: "live ?B MM = A - {(p, k)}" using live_remove [OF inv block(3,4)] live_hole block(1,2) A by simp
    have l3: "live B3 MM = live ?B MM" using live_used_same [OF co(7)] live_used_same [OF tr(3)] by simp
    have "pres ?B MM h h2"
    proof (rule keeps_pres [OF _ i(6)])
      show "keeps ?B h h2" by (rule keeps_trans [OF mf(4) used_same_refl co(8)])
    qed
    then have "pres ?B MM h (trim sys c h2)" using pres_trans tr(4) used_same_pay [OF co(7)] by blast
    then show thesis using that [OF f] heap_okI [OF tr(1,2)] l l3 pres_live [of ?B MM h] by simp
  next
    case (mapping a l)
    note bf = big_free_spec [OF inv mapping(3)]
    have f: "free sys p h = Some (Inr (big_free (a + 4) h))" using free_mapping [OF inv mapping(3)] mapping(1) by simp
    show thesis
    proof (rule that [OF f])
      show "heap_ok (big_free (a + 4) h) (A - {(p, k)})"
        using heap_okI [OF bf(1) nh] live_unmap [OF inv mapping(3)] A mapping(1,2) by simp
      show "same_bytes (A - {(p, k)}) h (big_free (a + 4) h)" by (simp add: same_bytes_def bf(2))
    qed
  qed
qed

subsection \<open>calloc and realloc\<close>

text \<open>The program may write into its own blocks.\<close>

lemma heap_ok_write:
  assumes ok: "heap_ok h A" and m: "\<And>y. (\<And>p k. (p, k) \<in> A \<Longrightarrow> y < p \<or> p + k \<le> y) \<Longrightarrow> m y = hmem h y"
  shows "heap_ok (h\<lparr>hmem := m\<rparr>) A"
proof -
  obtain B S L MM where inv: "heap_inv h B S L MM" and nh: "no_hole B" and A: "A = live B MM" by (rule heap_okE [OF ok])
  note i = heap_invD [OF inv]
  have low: "m y = hmem h y" if "y < kbrk h" "y \<notin> pay B" for y
  proof (rule m)
    fix p k
    assume "(p, k) \<in> A"
    then show "y < p \<or> p + k \<le> y" unfolding A
    proof (cases rule: live_cases)
      case (block b n)
      have "y < b + 4 \<or> b + n \<le> y" using that(2) block(3) unfolding pay_def by fastforce
      then show ?thesis using block by auto
    next
      case (mapping a l)
      then show ?thesis using mapped_okD(7) [OF i(6) mapping(3)] that(1) by auto
    qed
  qed
  have "m y = hmem h y" if a: "(a, l) \<in> MM" and y: "a \<le> y" "y < a + 8" for a l y
  proof (rule m)
    fix p k
    assume "(p, k) \<in> A"
    then show "y < p \<or> p + k \<le> y" unfolding A
    proof (cases rule: live_cases)
      case (block b n)
      then show ?thesis using blk_below(1) [OF i(1,2) block(3)] mapped_okD(7) [OF i(6) a] y by auto
    next
      case (mapping a' l')
      note ma = mapped_okD [OF i(6) a] and ma' = mapped_okD [OF i(6) mapping(3)]
      have "(a', l') = (a, l) \<or> a' + l' \<le> a \<or> a + l \<le> a'" using map_apart [OF i(6) ma'(1) ma(1)] by blast
      then show ?thesis using mapping ma(9) ma'(9) y by auto
    qed
  qed
  then have "ld32 m (a + 4) = ld32 (hmem h) (a + 4)" if "(a, l) \<in> MM" for a l using that by (intro ld32_cong) auto
  then have "mapped_ok (h\<lparr>hmem := m\<rparr>) MM" using mapped_ok_cong [OF i(6), of "h\<lparr>hmem := m\<rparr>"] by simp
  then have "heap_inv (h\<lparr>hmem := m\<rparr>) B S L MM" using heap_inv_bytes [OF inv, of "h\<lparr>hmem := m\<rparr>" MM] low by simp
  then show ?thesis using nh A by (rule heap_okI)
qed

lemma heap_ok_fresh:
  assumes "heap_ok h A" and "(p, k) \<in> A"
  shows "fresh p k (A - {(p, k)})"
proof -
  obtain B S L MM where inv: "heap_inv h B S L MM" and nh: "no_hole B" and A: "A = live B MM" by (rule heap_okE [OF assms(1)])
  show ?thesis using live_fresh [OF inv, of p k "A - {(p, k)}"] assms(2) A by auto
qed

lemma write_fresh:
  assumes ok: "heap_ok h (insert (p, k) A)" and f: "fresh p k A" and m: "\<And>y. y < p \<or> p + k \<le> y \<Longrightarrow> m y = hmem h y"
  shows "heap_ok (h\<lparr>hmem := m\<rparr>) (insert (p, k) A)" and "same_bytes A h (h\<lparr>hmem := m\<rparr>)"
proof -
  show "heap_ok (h\<lparr>hmem := m\<rparr>) (insert (p, k) A)" by (rule heap_ok_write [OF ok]) (use m in auto)
  show "same_bytes A h (h\<lparr>hmem := m\<rparr>)"
  proof (rule same_bytesI)
    fix q j y
    assume "(q, j) \<in> A" "q \<le> y" "y < q + j"
    then show "hmem (h\<lparr>hmem := m\<rparr>) y = hmem h y" using f m [of y] by (fastforce simp: fresh_def)
  qed
qed

lemma calloc_ok:
  assumes ok: "heap_ok h A"
  obtains (none) h' where "calloc sys c n h = Some (0, h')" and "heap_ok h' A" and "same_bytes A h h'"
  | (got) p k h' where "calloc sys c n h = Some (p, h')" and "p \<noteq> 0" and "heap_ok h' (insert (p, k) A)" and "same_bytes A h h'"
      and "fresh p k A" and "unat c * unat n \<le> k" and "\<And>y. p \<le> y \<Longrightarrow> y < p + unat c * unat n \<Longrightarrow> hmem h' y = 0"
proof -
  show thesis
  proof (cases "n \<noteq> 0 \<and> 0xffffffff div n < c")
    case True
    then have "calloc sys c n h = Some (0, h)" by (simp add: calloc_def)
    then show thesis using none [of h] ok by (simp add: same_bytes_def)
  next
    case False
    have prod: "unat (c * n) = unat c * unat n"
    proof (cases "n = 0")
      case False
      then have "unat c \<le> 4294967295 div unat n"
        using \<open>\<not> (n \<noteq> 0 \<and> _)\<close> by (simp add: word_less_nat_alt unat_div not_less)
      then have "unat c * unat n \<le> 4294967295" by (metis div_times_less_eq_dividend le_trans mult_le_mono1)
      then show ?thesis by (simp add: unat_mult_lem [THEN iffD1])
    qed simp
    have e: "calloc sys c n h = do { (p, h1) \<leftarrow> malloc sys (c * n) h;
        Some (if p \<noteq> 0 then (p, h1\<lparr>hmem := fill_bytes p 0 (unat (c * n)) (hmem h1)\<rparr>) else (p, h1)) }"
      unfolding calloc_def by (rule if_not_P [OF False])
    show thesis using ok
    proof (cases rule: malloc_ok [where sys = sys and n = "c * n"])
      case (none h')
      then show thesis using that(1) e by simp
    next
      case (got p k h')
      let ?m = "fill_bytes p 0 (unat (c * n)) (hmem h')"
      have "?m y = hmem h' y" if "y < p \<or> p + k \<le> y" for y using that got(5) by (auto simp: fill_bytes_def)
      note w = write_fresh [OF got(2,4) this]
      show thesis
      proof (rule that(2) [of p "h'\<lparr>hmem := ?m\<rparr>" k])
        show "calloc sys c n h = Some (p, h'\<lparr>hmem := ?m\<rparr>)" using e got(1,6) by simp
        show "same_bytes A h (h'\<lparr>hmem := ?m\<rparr>)" by (rule same_bytes_trans [OF got(3) w(2)])
      qed (use got w prod in \<open>auto simp: fill_bytes_def\<close>)
    qed
  qed
qed

text \<open>What \<^verbatim>\<open>realloc\<close> owes the program.\<close>

definition resized :: "(nat \<times> nat) set \<Rightarrow> heap \<Rightarrow> nat \<Rightarrow> nat \<Rightarrow> u32 \<Rightarrow> nat \<Rightarrow> heap \<Rightarrow> bool" where
  "resized A h p k n q h' \<longleftrightarrow>
     (if q = 0 then heap_ok h' A \<and> same_bytes A h h'
      else \<exists>k'\<ge>unat n. heap_ok h' (insert (q, k') (A - {(p, k)})) \<and> fresh q k' (A - {(p, k)}) \<and>
             same_bytes (A - {(p, k)}) h h' \<and> (\<forall>i<min k (unat n). hmem h' (q + i) = hmem h (p + i)))"

lemma live_bsize:
  assumes inv: "heap_inv h B S L MM" and p: "(p, k) \<in> live B MM"
  shows "bsize (hmem h) (from_payload p) = k + 4"
  using p
proof (cases rule: live_cases)
  case (block b n)
  then show ?thesis using blk_reads(1) [OF inv block(3)] tilesD(3) [OF heap_invD(1) [OF inv] block(3)] by (simp add: from_payload_def)
next
  case (mapping a l)
  note m = mapped_okD [OF heap_invD(6) [OF inv] mapping(3)]
  have "from_payload p = a + 4" by (simp add: from_payload_def mapping(1))
  then show ?thesis using big_reads(1) [OF m(4,3,9)] m(8,9) mapping(2) by (simp add: USER_BRK_LIMIT_def)
qed

lemma realloc_move_ok:
  assumes ok: "heap_ok h A" and p: "(p, k) \<in> A"
  obtains q h' where "realloc_move sys p n h = Some (Inr (q, h'))" and "resized A h p k n q h'"
  using ok
proof (cases rule: malloc_ok [where sys = sys and n = n])
  case (none h')
  then show thesis using that [of 0 h'] by (simp add: realloc_move_def resized_def)
next
  case (got q k' h1)
  have ne: "(p, k) \<noteq> (q, k')"
  proof
    assume "(p, k) = (q, k')"
    then have "k = 0" using got(4) p by (auto simp: fresh_def)
    moreover obtain B S L MM where "heap_inv h B S L MM" "A = live B MM" using heap_okE [OF ok] by metis
    ultimately show False using live_aligned(3) p by fastforce
  qed
  obtain B S L MM where inv: "heap_inv h1 B S L MM" and A: "insert (q, k') A = live B MM" using heap_okE [OF got(2)] by metis
  have "(p, k) \<in> live B MM" using p A by blast
  then have rm: "bsize (hmem h1) (from_payload p) - 4 = k" using live_bsize [OF inv] by simp
  define c where "c = (if k < unat n then k else unat n)"
  define m where "m = copy_bytes q p c (hmem h1)"
  have "m y = hmem h1 y" if "y < q \<or> q + k' \<le> y" for y using that got(5) by (auto simp: m_def copy_bytes_def c_def)
  note w = write_fresh [OF got(2,4) this]
  obtain h3 where f: "free sys p (h1\<lparr>hmem := m\<rparr>) = Some (Inr h3)" "heap_ok h3 (insert (q, k') A - {(p, k)})"
      "same_bytes (insert (q, k') A - {(p, k)}) (h1\<lparr>hmem := m\<rparr>) h3"
    using free_ok [OF w(1), of p k sys] p by auto
  have e: "insert (q, k') A - {(p, k)} = insert (q, k') (A - {(p, k)})" using ne by auto
  have r: "realloc_move sys p n h = Some (Inr (q, h3))"
    using got(1,6) f(1) rm by (cases "k < unat n") (simp_all add: realloc_move_def Let_def m_def c_def)
  have "same_bytes A h (h1\<lparr>hmem := m\<rparr>)" by (rule same_bytes_trans [OF got(3) w(2)])
  then have s1: "same_bytes (A - {(p, k)}) h (h1\<lparr>hmem := m\<rparr>)" by (rule same_bytes_mono) (rule Diff_subset)
  have s2: "same_bytes (A - {(p, k)}) (h1\<lparr>hmem := m\<rparr>) h3" by (rule same_bytes_mono [OF f(3)]) (simp add: e subset_insertI)
  have sb: "same_bytes (A - {(p, k)}) h h3" by (rule same_bytes_trans [OF s1 s2])
  have cp: "hmem h3 (q + i) = hmem h (p + i)" if i: "i < min k (unat n)" for i
  proof -
    have "hmem h3 (q + i) = m (q + i)" using same_bytesD [OF f(3), of q k' "q + i"] ne i got(5) by auto
    also have "\<dots> = hmem h1 (p + i)" using i by (auto simp: m_def copy_bytes_def c_def)
    also have "\<dots> = hmem h (p + i)" using same_bytesD [OF got(3) p, of "p + i"] i by simp
    finally show ?thesis .
  qed
  have "fresh q k' (A - {(p, k)})" using got(4) by (auto simp: fresh_def)
  then show thesis using that [OF r] f(2) sb cp got(5,6) e unfolding resized_def by auto
qed

lemma used_plus_trans: "used_plus B b n B1 \<Longrightarrow> used_plus B1 b k B2 \<Longrightarrow> used_plus B b k B2"
  unfolding used_plus_def by auto

lemma absorb_cut:
  assumes inv: "heap_inv h B S L MM" and nh: "no_hole B" and b: "B b = Some (n0, Used)" "n0 \<noteq> 0"
    and nx: "B (b + n0) = Some (k0, Free)" and sz: "n0 < sz" "sz \<le> n0 + k0" "16 \<le> sz" "sz mod 8 = 0"
  defines "h' \<equiv> cut_tail b sz (absorb_next b (b + n0) h)"
  obtains B' L' n' where "heap_inv h' B' S L' MM" and "no_hole B'" and "used_plus B b n' B'" and "sz \<le> n'"
    and "\<forall>y. y \<in> pay B \<or> kbrk h \<le> y \<longrightarrow> hmem h' y = hmem h y"
proof -
  obtain B1 L1 where ab: "heap_inv (absorb_next b (b + n0) h) B1 S L1 MM" "no_hole B1" "used_plus B b (n0 + k0) B1"
      "keeps B h (absorb_next b (b + n0) h)" by (rule absorb_next_spec [OF inv nh b nx])
  have b1: "B1 b = Some (n0 + k0, Used)" using ab(3) by (simp add: used_plus_def)
  obtain B2 L2 n2 where ct: "heap_inv h' B2 S L2 MM" "no_hole B2" "used_plus B1 b n2 B2" "sz \<le> n2"
      "same_env (absorb_next b (b + n0) h) h'"
      "\<forall>y. y \<in> pay B1 \<and> \<not> (b + sz \<le> y \<and> y < b + (n0 + k0)) \<or> kbrk (absorb_next b (b + n0) h) \<le> y \<longrightarrow>
         hmem h' y = hmem (absorb_next b (b + n0) h) y"
    unfolding h'_def by (rule cut_tail_spec [OF ab(1,2) b1 sz(3,4,2)])
  have "hmem h' y = hmem h y" if y: "y \<in> pay B \<or> kbrk h \<le> y" for y
  proof -
    have "y \<in> pay B1 \<and> \<not> (b + sz \<le> y \<and> y < b + (n0 + k0))" if yp: "y \<in> pay B"
    proof -
      obtain a j where a: "B a = Some (j, Used)" "a + 4 \<le> y" "y < a + j" using yp by (auto simp: pay_def)
      show ?thesis
      proof (cases "a = b")
        case True
        then have "y < b + n0" "b + 4 \<le> y" using a b by auto
        then show ?thesis using b1 sz(1) unfolding pay_def by fastforce
      next
        case False
        then have a1: "B1 a = Some (j, Used)" using ab(3) a by (auto simp: used_plus_def)
        then show ?thesis using tiles_disjoint [OF heap_invD(1) [OF ab(1)] a1 b1] a False unfolding pay_def by fastforce
      qed
    qed
    then have "hmem h' y = hmem (absorb_next b (b + n0) h) y" using ct(6) y ab(4) by (auto simp: keeps_def same_env_def)
    then show ?thesis using ab(4) y by (auto simp: keeps_def)
  qed
  then show thesis using that [OF ct(1,2) used_plus_trans [OF ab(3) ct(3)] ct(4)] by blast
qed

lemma resized_in_place:
  assumes inv: "heap_inv h B S L MM" and b: "B b = Some (n0, Used)" "n0 \<noteq> 0"
    and inv': "heap_inv h' B' S' L' MM" and nh': "no_hole B'" and up: "used_plus B b n' B'" and n': "sz \<le> n'" "unat n + 4 \<le> sz"
    and mem: "\<forall>y. y \<in> pay B \<and> \<not> (b + sz \<le> y \<and> y < b + n0) \<or> kbrk h \<le> y \<longrightarrow> hmem h' y = hmem h y"
  shows "resized (live B MM) h (b + 4) (n0 - 4) n (b + 4) h'"
proof -
  note i = heap_invD [OF inv]
  let ?A = "live B MM - {(b + 4, n0 - 4)}"
  have l: "live B' MM = insert (b + 4, n' - 4) ?A"
    using live_used_plus [OF up, of MM] live_remove [OF inv b] n' by simp
  have "(b + 4, n' - 4) \<notin> live (B(b := None)) MM"
  proof
    assume "(b + 4, n' - 4) \<in> live (B(b := None)) MM"
    then show False
    proof (cases rule: live_cases)
      case (mapping a l)
      then show False using blk_below(1) [OF i(1,2) b(1)] mapped_okD(7) [OF i(6) mapping(3)] by simp
    qed simp
  qed
  then have fr: "fresh (b + 4) (n' - 4) ?A" using live_fresh [OF inv' l] live_remove [OF inv b, of ] by simp
  have "same_bytes ?A h h'"
  proof (rule same_bytesI)
    fix p k y
    assume "(p, k) \<in> ?A" and y: "p \<le> y" "y < p + k"
    then have "(p, k) \<in> live (B(b := None)) MM" using live_remove [OF inv b] by simp
    then have "y \<in> pay B \<and> \<not> (b + sz \<le> y \<and> y < b + n0) \<or> kbrk h \<le> y"
    proof (cases rule: live_cases)
      case (block c m)
      then have c: "c \<noteq> b" "B c = Some (m, Used)" "c + 4 \<le> y" "y < c + m" using y by (auto split: if_splits)
      then have "y \<in> pay B" unfolding pay_def by blast
      moreover have "\<not> (b + sz \<le> y \<and> y < b + n0)" using tiles_disjoint [OF i(1) c(2) b(1)] c by auto
      ultimately show ?thesis by simp
    next
      case (mapping a l)
      then show ?thesis using mapped_okD(7) [OF i(6) mapping(3)] y by simp
    qed
    then show "hmem h' y = hmem h y" by (rule mem [rule_format])
  qed
  moreover have "hmem h' (b + 4 + j) = hmem h (b + 4 + j)" if "j < min (n0 - 4) (unat n)" for j
  proof (rule mem [rule_format])
    have "b + 4 + j < b + n0" "b + 4 + j < b + sz" using that n'(2) by auto
    then have "b + 4 + j \<in> pay B" using b unfolding pay_def by fastforce
    then show "b + 4 + j \<in> pay B \<and> \<not> (b + sz \<le> b + 4 + j \<and> b + 4 + j < b + n0) \<or> kbrk h \<le> b + 4 + j"
      using \<open>b + 4 + j < b + sz\<close> by simp
  qed
  moreover have "heap_ok h' (insert (b + 4, n' - 4) ?A)" using heap_okI [OF inv' nh' l [symmetric]] .
  moreover have "unat n \<le> n' - 4" using n' by simp
  ultimately show ?thesis using fr unfolding resized_def by auto
qed

lemma resized_trans:
  assumes "same_bytes A h h1" and "resized A h1 p k n q h'" and p: "(p, k) \<in> A"
  shows "resized A h p k n q h'"
proof (cases "q = 0")
  case True
  then show ?thesis using assms same_bytes_trans [of A h h1 h'] by (simp add: resized_def)
next
  case False
  then obtain k' where k: "unat n \<le> k'" "heap_ok h' (insert (q, k') (A - {(p, k)}))" "fresh q k' (A - {(p, k)})"
      "same_bytes (A - {(p, k)}) h1 h'" "\<forall>i<min k (unat n). hmem h' (q + i) = hmem h1 (p + i)"
    using assms(2) by (auto simp: resized_def)
  have "same_bytes (A - {(p, k)}) h h'" by (rule same_bytes_trans [OF same_bytes_mono [OF assms(1) Diff_subset] k(4)])
  moreover have "\<forall>i<min k (unat n). hmem h' (q + i) = hmem h (p + i)"
    using k(5) same_bytesD [OF assms(1) p] by simp
  ultimately show ?thesis using False k(1-3) unfolding resized_def by auto
qed

lemma live_plausible:
  assumes inv: "heap_inv h B S L MM" and p: "(p, k) \<in> live B MM"
  shows "plausible p h = Some True"
  using p
proof (cases rule: live_cases)
  case (block b n)
  then show ?thesis using plausible_used(1) [OF inv block(3)] by simp
next
  case (mapping a l)
  note m = mapped_okD [OF heap_invD(6) [OF inv] mapping(3)]
  have r: "inuse (hmem h) (a + 4)" "mmapped (hmem h) (a + 4)" using big_reads(2,3) [OF m(4,3,9)] m(8) by (auto simp: USER_BRK_LIMIT_def)
  have "from_payload p = a + 4" by (simp add: from_payload_def mapping(1))
  then show ?thesis using r live_aligned(1,2) [OF inv p] by (simp add: plausible_def ALIGN_def)
qed

text \<open>One turn of \<^verbatim>\<open>realloc\<close> on a block of a segment.\<close>

lemma realloc_block:
  assumes inv: "heap_inv h B S L MM" and b: "B b = Some (n0, Used)" "n0 \<noteq> 0" and n: "n \<noteq> 0"
    and sz: "sz = unat (request_size n)" "sz \<noteq> 0"
  shows "realloc sys (b + 4) n h =
    (if sz \<le> n0 then Some (Inr (b + 4, cut_tail b sz h))
     else if \<not> inuse (hmem h) (b + n0) \<and> sz \<le> n0 + bsize (hmem h) (b + n0) then
       Some (Inr (b + 4, cut_tail b sz (absorb_next b (b + n0) h)))
     else if bsize (hmem h) (b + n0) = 0 \<and> segments h \<noteq> 0 then
       do {
         s \<leftarrow> segment_of b h;
         if s = segments h \<and> sz < MMAP_THRESHOLD
         then
           let (tp, h0) = sbrk sys 0 h
           in if Some (segments h + seg_len (hmem h) (segments h)) = tp
           then
             let (ok, h1) = grow sys (sz - n0) h0; nx1 = next_block (hmem h1) b
             in if ok \<and> \<not> inuse (hmem h1) nx1 \<and> sz \<le> bsize (hmem h1) b + bsize (hmem h1) nx1
                then realloc sys (b + 4) n h1 else realloc_move sys (b + 4) n h1
           else realloc_move sys (b + 4) n h0
         else realloc_move sys (b + 4) n h }
     else realloc_move sys (b + 4) n h)"
  using plausible_used [OF inv b(1)] blk_reads(1,3) [OF inv b(1)] n sz
  by (subst realloc.simps) (simp add: from_payload_def Let_def cong: if_cong)

lemma realloc_absorb:
  assumes inv: "heap_inv h B S L MM" and nh: "no_hole B" and b: "B b = Some (n0, Used)" "n0 \<noteq> 0" and n: "n \<noteq> 0" "n \<le> 0x7fffff00"
    and sz: "sz = unat (request_size n)" "n0 < sz" and nx: "\<not> inuse (hmem h) (b + n0)" "sz \<le> n0 + bsize (hmem h) (b + n0)"
  obtains h' where "realloc sys (b + 4) n h = Some (Inr (b + 4, h'))" and "resized (live B MM) h (b + 4) (n0 - 4) n (b + 4) h'"
proof -
  note i = heap_invD [OF inv]
  have s: "sz mod 8 = 0" "16 \<le> sz" "unat n + 4 \<le> sz" using request_size_spec(2) [OF n(2)] sz(1) by auto
  obtain k0 st where k0: "B (b + n0) = Some (k0, st)" using tilesD(4) [OF i(1) b] by auto
  have "st \<noteq> Hole" using nh k0 by (auto simp: no_hole_def)
  then have "st = Free" using blk_reads(2) [OF inv k0] nx(1) by (cases st) auto
  then have fr: "B (b + n0) = Some (k0, Free)" using k0 by simp
  have le: "sz \<le> n0 + k0" using nx(2) blk_reads(1) [OF inv fr] by simp
  obtain B' L' n' where ab: "heap_inv (cut_tail b sz (absorb_next b (b + n0) h)) B' S L' MM" "no_hole B'" "used_plus B b n' B'" "sz \<le> n'"
      "\<forall>y. y \<in> pay B \<or> kbrk h \<le> y \<longrightarrow> hmem (cut_tail b sz (absorb_next b (b + n0) h)) y = hmem h y"
    by (rule absorb_cut [OF inv nh b fr sz(2) le s(2,1)])
  have "resized (live B MM) h (b + 4) (n0 - 4) n (b + 4) (cut_tail b sz (absorb_next b (b + n0) h))"
    by (rule resized_in_place [OF inv b ab(1-4) s(3)]) (use ab(5) in blast)
  moreover have "realloc sys (b + 4) n h = Some (Inr (b + 4, cut_tail b sz (absorb_next b (b + n0) h)))"
    using realloc_block [OF inv b n(1) sz(1), of sys] sz(2) nx by simp
  ultimately show thesis using that by blast
qed

lemma realloc_shrink:
  assumes inv: "heap_inv h B S L MM" and nh: "no_hole B" and b: "B b = Some (n0, Used)" "n0 \<noteq> 0" and n: "n \<noteq> 0" "n \<le> 0x7fffff00"
    and sz: "sz = unat (request_size n)" "sz \<le> n0"
  obtains h' where "realloc sys (b + 4) n h = Some (Inr (b + 4, h'))" and "resized (live B MM) h (b + 4) (n0 - 4) n (b + 4) h'"
proof -
  have s: "sz mod 8 = 0" "16 \<le> sz" "unat n + 4 \<le> sz" using request_size_spec(2) [OF n(2)] sz(1) by auto
  obtain B' L' n' where ct: "heap_inv (cut_tail b sz h) B' S L' MM" "no_hole B'" "used_plus B b n' B'" "sz \<le> n'" "same_env h (cut_tail b sz h)"
      "\<forall>y. y \<in> pay B \<and> \<not> (b + sz \<le> y \<and> y < b + n0) \<or> kbrk h \<le> y \<longrightarrow> hmem (cut_tail b sz h) y = hmem h y"
    by (rule cut_tail_spec [OF inv nh b(1) s(2,1) sz(2)])
  have "resized (live B MM) h (b + 4) (n0 - 4) n (b + 4) (cut_tail b sz h)"
    by (rule resized_in_place [OF inv b ct(1-4) s(3) ct(6)])
  moreover have "realloc sys (b + 4) n h = Some (Inr (b + 4, cut_tail b sz h))"
    using realloc_block [OF inv b n(1) sz(1), of sys] sz(2) s(2) by simp
  ultimately show thesis using that by blast
qed

lemma realloc_extend:
  assumes inv: "heap_inv h B S L MM" and nh: "no_hole B" and b: "B b = Some (n0, Used)" "n0 \<noteq> 0" and n: "n \<noteq> 0" "n \<le> 0x7fffff00"
    and sz: "sz = unat (request_size n)" "n0 < sz" and nofit: "\<not> (\<not> inuse (hmem h) (b + n0) \<and> sz \<le> n0 + bsize (hmem h) (b + n0))"
  obtains q h' where "realloc sys (b + 4) n h = Some (Inr (q, h'))" and "resized (live B MM) h (b + 4) (n0 - 4) n q h'"
proof -
  note res = that and i = heap_invD [OF inv]
  let ?A = "live B MM" and ?p = "b + 4" and ?k = "n0 - 4" and ?h0 = "h\<lparr>cur_brk := kbrk h\<rparr>"
  have ok: "heap_ok h ?A" "heap_ok ?h0 ?A" using heap_okI [OF inv nh refl] heap_okI [OF heap_inv_cur [OF inv] nh refl] by auto
  have same: "same_bytes ?A h h" "same_bytes ?A h ?h0" by (simp_all add: same_bytes_def)
  have p: "(?p, ?k) \<in> ?A" using live_block [of B b n0 MM] b by simp
  have move: thesis if h1: "heap_ok h1 ?A" "same_bytes ?A h h1" "realloc sys ?p n h = realloc_move sys ?p n h1" for h1
  proof -
    obtain q h' where "realloc_move sys ?p n h1 = Some (Inr (q, h'))" "resized ?A h1 ?p ?k n q h'" by (rule realloc_move_ok [OF h1(1) p])
    then show thesis using res [of q h'] h1(3) resized_trans [OF h1(2) _ p] by simp
  qed
  obtain s where s: "segment_of b h = Some s" by (rule segment_of_blk [OF inv b(1)])
  define top where "top \<longleftrightarrow> bsize (hmem h) (b + n0) = 0 \<and> segments h \<noteq> 0 \<and> s = segments h \<and> sz < MMAP_THRESHOLD"
  have e: "realloc sys ?p n h =
    (if top then
       (if segments h + seg_len (hmem h) (segments h) = kbrk h
        then let (ok, h1) = grow sys (sz - n0) ?h0; nx1 = next_block (hmem h1) b
             in if ok \<and> \<not> inuse (hmem h1) nx1 \<and> sz \<le> bsize (hmem h1) b + bsize (hmem h1) nx1
                then realloc sys ?p n h1 else realloc_move sys ?p n h1
        else realloc_move sys ?p n ?h0)
     else realloc_move sys ?p n h)"
    using realloc_block [OF inv b n(1) sz(1), of sys] nofit sz(2) s by (auto simp: top_def sbrk_0 [OF i(7)])
  show thesis
  proof (cases "top \<and> segments h + seg_len (hmem h) (segments h) = kbrk h")
    case False
    then have "realloc sys ?p n h = realloc_move sys ?p n h \<or> realloc sys ?p n h = realloc_move sys ?p n ?h0" using e by auto
    then show thesis using move [OF ok(1) same(1)] move [OF ok(2) same(2)] by blast
  next
    case True
    then have need: "sz - n0 < 131072" by (auto simp: top_def MMAP_THRESHOLD_def)
    have e1: "realloc sys ?p n h = (let (ok, h1) = grow sys (sz - n0) ?h0; nx1 = next_block (hmem h1) b
             in if ok \<and> \<not> inuse (hmem h1) nx1 \<and> sz \<le> bsize (hmem h1) b + bsize (hmem h1) nx1
                then realloc sys ?p n h1 else realloc_move sys ?p n h1)" using e True by simp
    show thesis using heap_inv_cur [OF inv] nh need
    proof (cases rule: grow_spec [where sys = sys])
      case refused
      then show thesis using move [OF ok(2) same(2)] e1 by (simp add: Let_def)
    next
      case (grown h1 B1 S1 L1 c m)
      have A1: "live B1 MM = ?A" by (rule live_used_same [OF grown(4)])
      have ok1: "heap_ok h1 ?A" by (rule heap_okI [OF grown(2,3) A1 [symmetric]])
      have same1: "same_bytes ?A h h1" using pres_live [OF grown(7)] by (simp add: same_bytes_def)
      have b1: "B1 b = Some (n0, Used)" using grown(4) b by (simp add: used_same_def)
      have r1: "bsize (hmem h1) b = n0" "next_block (hmem h1) b = b + n0" using blk_reads(1,3) [OF grown(2) b1] by auto
      have e2: "realloc sys ?p n h = (if \<not> inuse (hmem h1) (b + n0) \<and> sz \<le> n0 + bsize (hmem h1) (b + n0)
          then realloc sys ?p n h1 else realloc_move sys ?p n h1)" using e1 grown(1) r1 by (simp add: Let_def)
      show thesis
      proof (cases "\<not> inuse (hmem h1) (b + n0) \<and> sz \<le> n0 + bsize (hmem h1) (b + n0)")
        case True
        then obtain h' where "realloc sys ?p n h1 = Some (Inr (?p, h'))" "resized (live B1 MM) h1 ?p ?k n ?p h'"
          using realloc_absorb [OF grown(2,3) b1 b(2) n sz] by blast
        then show thesis using res [of ?p h'] e2 True A1 resized_trans [OF same1 _ p] by simp
      next
        case False
        then have "realloc sys ?p n h = realloc_move sys ?p n h1" unfolding e2 by (rule if_not_P)
        then show thesis by (rule move [OF ok1 same1])
      qed
    qed
  qed
qed

lemma realloc_ok:
  assumes ok: "heap_ok h A" and p: "(p, k) \<in> A" and n: "n \<noteq> 0"
  obtains q h' where "realloc sys p n h = Some (Inr (q, h'))" and "resized A h p k n q h'"
    and "unat n \<le> k \<longrightarrow> q = p"
proof -
  note res = that
  obtain B S L MM where inv: "heap_inv h B S L MM" and nh: "no_hole B" and A: "A = live B MM" by (rule heap_okE [OF ok])
  note i = heap_invD [OF inv]
  note pl = live_plausible [OF inv p [unfolded A]] and bs = live_bsize [OF inv p [unfolded A]] and al = live_aligned [OF inv p [unfolded A]]
  have self: "resized A h p k n p h" if "unat n \<le> k"
    using that ok p heap_ok_fresh [OF ok p] al(2) by (auto simp: resized_def same_bytes_def insert_absorb intro!: exI [of _ k])
  have same: "same_bytes A h h" by (simp add: same_bytes_def)
  define sz where "sz = unat (request_size n)"
  show thesis
  proof (cases "0x7fffff00 < n")
    case True
    then have "realloc sys p n h = Some (Inr (0, h))"
      using pl al(2) n by (subst realloc.simps) (simp add: request_size_spec(1) Let_def)
    moreover have "\<not> unat n \<le> k" using True al(4) by (simp add: word_less_nat_alt USER_BRK_LIMIT_def)
    ultimately show thesis using res [of 0 h] ok same by (simp add: resized_def)
  next
    case False
    then have n7: "n \<le> 0x7fffff00" by simp
    have sz: "sz mod 8 = 0" "16 \<le> sz" "unat n + 4 \<le> sz" using request_size_spec(2) [OF n7] by (auto simp: sz_def)
    show thesis using p [unfolded A]
    proof (cases rule: live_cases)
      case (mapping a l)
      note m = mapped_okD [OF i(6) mapping(3)]
      have pa: "from_payload p = a + 4" by (simp add: from_payload_def mapping(1))
      have mm: "mmapped (hmem h) (a + 4)" using big_reads(3) [OF m(4,3,9)] m(8) by (auto simp: USER_BRK_LIMIT_def)
      have e: "realloc sys p n h = (if sz \<le> k + 4 then Some (Inr (p, h)) else realloc_move sys p n h)"
        using pl al(2) n sz(2) mm bs pa by (subst realloc.simps) (simp add: Let_def flip: sz_def cong: if_cong)
      show thesis
      proof (cases "sz \<le> k + 4")
        case True
        then show thesis using res [of p h] e self sz(3) by simp
      next
        case False
        obtain q h' where q: "realloc_move sys p n h = Some (Inr (q, h'))" "resized A h p k n q h'" by (rule realloc_move_ok [OF ok p])
        have "l mod 8 = 0" using m(3) mod_mod_cancel [of 8 4096 l] by simp
        then have "(k + 4) mod 8 = 0" "16 \<le> k + 4" using mapping(2) m(9) by (auto simp: mod_eq_0_iff_dvd dvd_diff_nat)
        then have "\<not> unat n \<le> k" using request_size_fits [OF n7, of "k + 4"] False by (auto simp: sz_def)
        then show thesis using res [OF _ q(2)] q(1) e False by simp
      qed
    next
      case (block b n0)
      show thesis
      proof (cases "sz \<le> n0")
        case True
        obtain h' where "realloc sys (b + 4) n h = Some (Inr (b + 4, h'))" "resized (live B MM) h (b + 4) (n0 - 4) n (b + 4) h'"
          by (rule realloc_shrink [OF inv nh block(3,4) n n7 sz_def True])
        then show thesis using res block(1,2) A by simp
      next
        case big: False
        then have lt: "n0 < sz" by simp
        have "\<exists>q h'. realloc sys (b + 4) n h = Some (Inr (q, h')) \<and> resized (live B MM) h (b + 4) (n0 - 4) n q h'"
        proof (cases "\<not> inuse (hmem h) (b + n0) \<and> sz \<le> n0 + bsize (hmem h) (b + n0)")
          case True
          then show ?thesis using realloc_absorb [OF inv nh block(3,4) n n7 sz_def lt, of sys] by blast
        next
          case nofit: False
          show ?thesis by (rule realloc_extend [OF inv nh block(3,4) n n7 sz_def lt nofit, of sys]) blast
        qed
        moreover have "\<not> unat n \<le> k"
        proof
          have n0: "16 \<le> n0" "n0 mod 8 = 0" using tilesD(3) [OF i(1) block(3,4)] tilesD(2) [OF i(1) block(3)] by auto
          assume "unat n \<le> k"
          then have "unat n + 4 \<le> n0" using block(2) n0(1) by linarith
          then show False using request_size_fits [OF n7 _ n0(2,1)] lt by (simp add: sz_def)
        qed
        ultimately show thesis using res block(1,2) A by blast
      qed
    qed
  qed
qed

subsection \<open>The heap checker\<close>

definition frees :: "blocks \<Rightarrow> nat set" where "frees B = {x. \<exists>n. B x = Some (n, Free)}"

lemma finite_frees:
  assumes "heap_inv h B S L MM"
  shows "finite (frees B)"
proof (rule finite_subset)
  show "frees B \<subseteq> {..kbrk h}"
    using blk_below(1) [OF heap_invD(1,2) [OF assms]] by (fastforce simp: frees_def)
qed simp

lemma in_segment:
  assumes t: "tiles B S" and g: "seg_ok lo hi S" and s: "(s, len) \<in> set S"
    and b: "B b = Some (n, st)" "s + 12 \<le> b" "b \<le> s + len - 4"
  shows "b + n \<le> s + len - 4" and "n = 0 \<longleftrightarrow> b = s + len - 4"
proof -
  have l: "4096 \<le> len" by (rule seg_okD(6) [OF g s])
  then show le: "b + n \<le> s + len - 4" using blk_seg_apart [OF t g b(1) s] b by linarith
  show "n = 0 \<longleftrightarrow> b = s + len - 4"
  proof
    assume "b = s + len - 4"
    then show "n = 0" using tiles_seg [OF t s] b(1) by simp
  next
    assume "n = 0"
    then obtain s' len' where s': "(s', len') \<in> set S" "b + 4 = s' + len'" using tilesD(7) [OF t b(1)] by (auto simp: seg_end_def)
    have "(s, len) = (s', len') \<or> s' + len' \<le> s \<or> s + len \<le> s'" using seg_disjoint [OF g s s'(1)] by blast
    then show "b = s + len - 4" using s' b l seg_okD(6) [OF g s'(1)] by auto
  qed
qed

lemma check_blocks_spec:
  assumes inv: "heap_inv h B S L MM" and nh: "no_hole B" and s: "(s, len) \<in> set S"
    and b: "b \<in> dom B" "s + 12 \<le> b" "b \<le> s + len - 4"
  shows "check_blocks (hmem h) b (s + len - 4) (before Free B b) w =
    Some (Inr (before Free B (s + len - 4), w + card (frees B \<inter> {b..<s + len - 4})))"
  using b
proof (induction "s + len - 4 - b" arbitrary: b w rule: less_induct)
  case less
  note i = heap_invD [OF inv]
  let ?e = "s + len - 4"
  obtain n st where b: "B b = Some (n, st)" using less.prems(1) by auto
  have st: "st \<noteq> Hole" using nh b by (auto simp: no_hole_def)
  note g = in_segment [OF i(1,2) s b less.prems(2,3)] and r = blk_reads [OF inv b st]
  show ?case
  proof (cases "b = ?e")
    case True
    then show ?thesis by (subst check_blocks.simps) simp
  next
    case False
    then have n: "n \<noteq> 0" "16 \<le> n" "n mod 8 = 0" "b + n \<in> dom B"
      using g(2) tilesD(2,3,4) [OF i(1) b] by auto
    have nb: "\<not> before Hole B b" using nh by (auto simp: no_hole_def elim!: beforeE)
    have pi: "prev_inuse (hmem h) b = (\<not> before Free B b)" by (rule tagsD(2) [OF i(4) b nb])
    have bn: "before Free B (b + n) \<longleftrightarrow> st = Free" using before_unique [OF i(1) b n(1), of Free] beforeI [of B b n Free "b + n"] b by auto
    have adj: "\<not> before Free B b" if "st = Free"
      using tagsD(4) [OF i(4)] b that by (auto elim!: beforeE)
    have ft: "ld32 (hmem h) (b + n - 4) = of_nat n" if "st = Free" using tagsD(3) [OF i(4)] b that by simp
    have fu: "unat (ld32 (hmem h) (footer (hmem h) b)) = n" if "st = Free"
      using ft [OF that] r(1) blk_u32(2) [OF inv b] by (simp add: footer_def unat_of_nat)
    have step: "check_blocks (hmem h) b ?e (before Free B b) w =
        check_blocks (hmem h) (b + n) ?e (before Free B (b + n)) (if st = Free then w + 1 else w)"
      using False n g(1) r st pi adj fu unfolding bn
      by (subst check_blocks.simps) (cases st, auto simp: malloc_consts)
    have IH: "check_blocks (hmem h) (b + n) ?e (before Free B (b + n)) w' =
        Some (Inr (before Free B ?e, w' + card (frees B \<inter> {b + n..<?e})))" for w'
      by (rule less.hyps) (use n g(1) False less.prems in auto)
    have "frees B \<inter> {b..<?e} = (if st = Free then insert b (frees B \<inter> {b + n..<?e}) else frees B \<inter> {b + n..<?e})"
    proof -
      have "\<forall>x\<in>frees B. b \<le> x \<longrightarrow> x = b \<or> b + n \<le> x"
      proof (intro ballI impI)
        fix x
        assume "x \<in> frees B" "b \<le> x"
        then show "x = b \<or> b + n \<le> x" using not_header_inside [OF i(1) b, of x] by (fastforce simp: frees_def)
      qed
      moreover have "b \<in> frees B \<longleftrightarrow> st = Free" using b by (auto simp: frees_def)
      ultimately show ?thesis using False n(1) less.prems(3) by auto
    qed
    then have "card (frees B \<inter> {b..<?e}) = card (frees B \<inter> {b + n..<?e}) + (if st = Free then 1 else 0)"
      using n finite_frees [OF inv] by auto
    then show ?thesis unfolding step IH by auto
  qed
qed

lemma check_segs_spec:
  assumes inv: "heap_inv h B S L MM" and nh: "no_hole B"
  shows "set T \<subseteq> set S \<Longrightarrow> seg_chain (hmem h) p T \<Longrightarrow>
    check_segs (hmem h) p w = Some (Inr (w + (\<Sum>(s, len)\<leftarrow>T. card (frees B \<inter> {s + 12..<s + len - 4}))))"
proof (induction T arbitrary: p w)
  case (Cons x T)
  note i = heap_invD [OF inv]
  obtain s len where x: "x = (s, len)" by fastforce
  have s: "(s, len) \<in> set S" "p = s" "seg_len (hmem h) s = len" "seg_chain (hmem h) (seg_next (hmem h) s) T"
    using Cons.prems x by auto
  have l: "4096 \<le> len" "0 < s" using seg_okD(1,6) [OF i(2) s(1)] by auto
  note ts = tiles_seg [OF i(1) s(1)]
  have nb: "\<not> before Hole B a" for a using nh by (auto simp: no_hole_def elim!: beforeE)
  have nf: "\<not> before Free B (s + 12)"
  proof
    assume "before Free B (s + 12)"
    then obtain c n where c: "B c = Some (n, Free)" "c + n = s + 12" by (rule beforeE)
    then show False using blk_seg_apart [OF i(1,2) c(1) s(1)] free_aligned [OF i(1) c(1)] by auto
  qed
  have pi: "prev_inuse (hmem h) a = (\<not> before Free B a)" if "a \<in> dom B" for a
    using that tagsD(2) [OF i(4) _ nb] by auto
  have "check_blocks (hmem h) (s + 12) (s + len - 4) (before Free B (s + 12)) w =
      Some (Inr (before Free B (s + len - 4), w + card (frees B \<inter> {s + 12..<s + len - 4})))"
    by (rule check_blocks_spec [OF inv nh s(1)]) (use ts l in auto)
  then have cb: "check_blocks (hmem h) (s + 12) (s + len - 4) False w =
      Some (Inr (before Free B (s + len - 4), w + card (frees B \<inter> {s + 12..<s + len - 4})))"
    using nf by simp
  have ep: "B (s + len - 4) = Some (0, Used)" using ts by simp
  note re = blk_reads(1,2) [OF inv ep]
  have "prev_inuse (hmem h) (s + 12)" using pi nf ts by auto
  moreover have "prev_inuse (hmem h) (s + len - 4) = (\<not> before Free B (s + len - 4))" using pi ep by blast
  ultimately show ?case
    using Cons.IH [of "seg_next (hmem h) s"] Cons.prems(1) s l cb re x
    by (subst check_segs.simps) (simp add: SEG_HDR_def add.assoc)
qed (simp add: check_segs.simps)

lemma seg_card:
  assumes "finite X" and "seg_ok lo hi S" and "\<forall>x\<in>X. \<exists>(s, len)\<in>set S. s + 12 \<le> x \<and> x < s + len - 4"
  shows "(\<Sum>(s, len)\<leftarrow>S. card (X \<inter> {s + 12..<s + len - 4})) = card X"
  using assms
proof (induction S arbitrary: X)
  case (Cons p S)
  obtain s len where p: "p = (s, len)" by fastforce
  let ?I = "{s + 12..<s + len - 4}"
  have g: "seg_ok lo hi S" "\<forall>(s', len')\<in>set S. s' + len' \<le> s" using Cons.prems(2) p by (auto simp: seg_ok_def)
  have "(\<Sum>(s, len)\<leftarrow>S. card ((X - ?I) \<inter> {s + 12..<s + len - 4})) = card (X - ?I)"
    using Cons.prems p by (intro Cons.IH g(1)) auto
  moreover have "(X - ?I) \<inter> {s' + 12..<s' + len' - 4} = X \<inter> {s' + 12..<s' + len' - 4}" if "(s', len') \<in> set S" for s' len'
  proof -
    have "s' + len' \<le> s" using g(2) that by auto
    then show ?thesis by auto
  qed
  then have "(\<Sum>(s, len)\<leftarrow>S. card ((X - ?I) \<inter> {s + 12..<s + len - 4})) = (\<Sum>(s, len)\<leftarrow>S. card (X \<inter> {s + 12..<s + len - 4}))"
    by (intro arg_cong [where f = sum_list] map_cong) auto
  moreover have "card X = card (X \<inter> ?I) + card (X - ?I)" using Cons.prems(1) by (metis card_Int_Diff)
  ultimately show ?case by (simp add: p)
qed simp

lemma check_list_spec:
  assumes inv: "heap_inv h B S L MM" and i: "j < NBINS"
  shows "set xs \<subseteq> set (L j) \<Longrightarrow> dll (hmem h) q p xs \<Longrightarrow> c + length xs \<le> w \<Longrightarrow>
    check_list h j p q w c = Some (Inr (c + length xs))"
proof (induction xs arbitrary: q p c)
  case (Cons x xs)
  note iv = heap_invD [OF inv]
  have "x \<in> set (L j)" using Cons.prems(1) by simp
  then obtain n where x: "B x = Some (n, Free)" "bin_of n = j" using listedD(4) [OF iv(5) i] by auto
  obtain s where s: "segment_of x h = Some s" "s \<noteq> 0" by (rule segment_of_blk [OF inv x(1)])
  have "x \<noteq> 0" using free_aligned [OF iv(1) x(1)] by simp
  then show ?case
    using Cons.IH [of x "bnext (hmem h) x" "c + 1"] Cons.prems blk_reads(1,2) [OF inv x(1)] x(2) s
    by (subst check_list.simps) simp
qed (simp add: check_list.simps)

lemma check_bins_spec:
  assumes inv: "heap_inv h B S L MM"
  shows "set js \<subseteq> {..<NBINS} \<Longrightarrow> c + (\<Sum>j\<leftarrow>js. length (L j)) \<le> w \<Longrightarrow>
    check_bins h js w c = Some (Inr (c + (\<Sum>j\<leftarrow>js. length (L j))))"
proof (induction js arbitrary: c)
  case (Cons j js)
  have "check_list h j (bins h ! j) 0 w c = Some (Inr (c + length (L j)))"
    using Cons.prems listedD(3) [OF heap_invD(5) [OF inv], of j] by (intro check_list_spec [OF inv]) auto
  then show ?case using Cons by (simp add: add.assoc)
qed simp

lemma bins_card:
  assumes inv: "heap_inv h B S L MM"
  shows "(\<Sum>j\<leftarrow>[0..<NBINS]. length (L j)) = card (frees B)"
proof -
  note i = heap_invD [OF inv]
  have "frees B = (\<Union>j\<in>{..<NBINS}. set (L j))" using listedD(4) [OF i(5)] bin_of_less by (auto simp: frees_def)
  moreover have "card (\<Union>j\<in>{..<NBINS}. set (L j)) = (\<Sum>j\<in>{..<NBINS}. card (set (L j)))"
  proof (intro card_UN_disjoint ballI impI)
    show "set (L a) \<inter> set (L b) = {}" if "a \<in> {..<NBINS}" "b \<in> {..<NBINS}" "a \<noteq> b" for a b
      using listedD(4) [OF i(5), of a] listedD(4) [OF i(5), of b] that by auto
  qed simp_all
  moreover have "(\<Sum>j\<in>{..<NBINS}. card (set (L j))) = (\<Sum>j\<in>{..<NBINS}. length (L j))"
    using listedD(2) [OF i(5)] by (intro sum.cong) (auto simp: distinct_card)
  moreover have "(\<Sum>j\<leftarrow>[0..<NBINS]. length (L j)) = (\<Sum>j\<in>{..<NBINS}. length (L j))"
    by (simp add: interv_sum_list_conv_sum_set_nat atLeast0LessThan)
  ultimately show ?thesis by simp
qed

lemma malloc_check_inv:
  assumes inv: "heap_inv h B S L MM" and nh: "no_hole B"
  shows "malloc_check h = Some (Inr ())"
proof -
  note i = heap_invD [OF inv]
  have "\<forall>x\<in>frees B. \<exists>(s, len)\<in>set S. s + 12 \<le> x \<and> x < s + len - 4"
  proof
    fix x
    assume "x \<in> frees B"
    then obtain n where x: "B x = Some (n, Free)" by (auto simp: frees_def)
    obtain s len where s: "(s, len) \<in> set S" "s + 12 \<le> x" "x + n + 4 \<le> s + len" using tilesD(6) [OF i(1) x] by auto
    moreover have "16 \<le> n" using free_aligned [OF i(1) x] by simp
    ultimately show "\<exists>(s, len)\<in>set S. s + 12 \<le> x \<and> x < s + len - 4" by (intro bexI [OF _ s(1)]) auto
  qed
  then have "(\<Sum>(s, len)\<leftarrow>S. card (frees B \<inter> {s + 12..<s + len - 4})) = card (frees B)"
    by (rule seg_card [OF finite_frees [OF inv] i(2)])
  then have "check_segs (hmem h) (segments h) 0 = Some (Inr (card (frees B)))"
    using check_segs_spec [OF inv nh order_refl i(3), of 0] by simp
  moreover have "check_bins h [0..<NBINS] (card (frees B)) 0 = Some (Inr (card (frees B)))"
    using check_bins_spec [OF inv, of "[0..<NBINS]" 0 "card (frees B)"] bins_card [OF inv] by (simp add: atLeast0LessThan)
  ultimately show ?thesis by (simp add: malloc_check_def)
qed

subsection \<open>Programs\<close>

text \<open>A program that has not allocated yet: the C variables are zero and the kernel has put its
  mappings above the break.\<close>

definition heap_start :: "heap \<Rightarrow> bool" where
  "heap_start h \<longleftrightarrow> bins h = replicate NBINS 0 \<and> segments h = 0 \<and> sys_wf h \<and>
     (\<forall>(a, len)\<in>set (maps h). 0 < len \<and> 0 < a \<and> kbrk h \<le> a \<and> a + len \<le> USER_BRK_LIMIT) \<and>
     sorted_wrt (\<lambda>(a, n) (a', n'). a + n \<le> a' \<or> a' + n' \<le> a) (maps h)"

lemma heap_start_ok: "heap_start h \<Longrightarrow> heap_ok h {}"
proof (rule heap_okI [where B = "\<lambda>_. None" and S = "[]" and L = "\<lambda>_. []" and MM = "{}"])
  assume "heap_start h"
  then show "heap_inv h (\<lambda>_. None) [] (\<lambda>_. []) {}"
    by (auto simp: heap_start_def heap_inv_def tiles_def seg_ok_def tags_def listed_def mapped_ok_def before_def)
qed (simp_all add: no_hole_def live_def)

text \<open>What the program may use of a block.\<close>

definition usable :: "heap \<Rightarrow> nat \<Rightarrow> nat" where
  "usable h p = bsize (hmem h) (from_payload p) - 4"

lemma usable_room:
  assumes "heap_ok h A" and "(p, k) \<in> A"
  shows "usable h p = k"
proof -
  obtain B S L MM where inv: "heap_inv h B S L MM" and A: "A = live B MM" using heap_okE [OF assms(1)] by metis
  show ?thesis using live_bsize [OF inv assms(2) [unfolded A]] by (simp add: usable_def)
qed

text \<open>The calls of a program and its writes into its own blocks, with the blocks it holds.  The
  kernel's answers may differ from call to call.\<close>

inductive prog_step :: "heap \<times> (nat \<times> nat) set \<Rightarrow> heap \<times> (nat \<times> nat) set \<Rightarrow> bool" where
  prog_malloc: "malloc sys n h = Some (p, h') \<Longrightarrow>
    prog_step (h, A) (h', if p = 0 then A else insert (p, usable h' p) A)"
| prog_calloc: "calloc sys c n h = Some (p, h') \<Longrightarrow>
    prog_step (h, A) (h', if p = 0 then A else insert (p, usable h' p) A)"
| prog_free: "(p, k) \<in> A \<Longrightarrow> free sys p h = Some (Inr h') \<Longrightarrow> prog_step (h, A) (h', A - {(p, k)})"
| prog_realloc: "(p, k) \<in> A \<Longrightarrow> n \<noteq> 0 \<Longrightarrow> realloc sys p n h = Some (Inr (q, h')) \<Longrightarrow>
    prog_step (h, A) (h', if q = 0 then A else insert (q, usable h' q) (A - {(p, k)}))"
| prog_write: "(p, k) \<in> A \<Longrightarrow> i < k \<Longrightarrow> prog_step (h, A) (h\<lparr>hmem := (hmem h)(p + i := v)\<rparr>, A)"

lemma prog_step_ok: "prog_step s t \<Longrightarrow> heap_ok (fst s) (snd s) \<Longrightarrow> heap_ok (fst t) (snd t)"
proof (induction rule: prog_step.induct)
  case (prog_malloc sys n h p h' A)
  then have ok: "heap_ok h A" by simp
  then show ?case
  proof (cases rule: malloc_ok [where sys = sys and n = n])
    case (got q k h1)
    then show ?thesis using prog_malloc usable_room [OF got(2), of q k] by simp
  qed (use prog_malloc in simp)
next
  case (prog_calloc sys c n h p h' A)
  then have ok: "heap_ok h A" by simp
  then show ?case
  proof (cases rule: calloc_ok [where sys = sys and n = n and c = c])
    case (got q k h1)
    then show ?thesis using prog_calloc usable_room [OF got(3), of q k] by simp
  qed (use prog_calloc in simp)
next
  case (prog_free p k A sys h h')
  then have ok: "heap_ok h A" by simp
  obtain h1 where "free sys p h = Some (Inr h1)" "heap_ok h1 (A - {(p, k)})" by (rule free_ok [OF ok prog_free(1)])
  then show ?case using prog_free(2) by simp
next
  case (prog_realloc p k A n sys h q h')
  then have ok: "heap_ok h A" by simp
  obtain q1 h1 where "realloc sys p n h = Some (Inr (q1, h1))" "resized A h p k n q1 h1"
    by (rule realloc_ok [OF ok prog_realloc(1,2)])
  then have r: "resized A h p k n q h'" using prog_realloc(3) by simp
  show ?case
  proof (cases "q = 0")
    case True
    then show ?thesis using r by (simp add: resized_def)
  next
    case False
    then obtain k' where k: "heap_ok h' (insert (q, k') (A - {(p, k)}))" using r by (auto simp: resized_def)
    then show ?thesis using False usable_room [OF k, of q k'] by simp
  qed
next
  case (prog_write p k A i h v)
  then have "heap_ok h A" by simp
  then have "heap_ok (h\<lparr>hmem := (hmem h)(p + i := v)\<rparr>) A" by (rule heap_ok_write) (use prog_write in fastforce)
  then show ?case by simp
qed

lemma prog_steps_ok:
  assumes "prog_step\<^sup>*\<^sup>* s t" and "heap_ok (fst s) (snd s)"
  shows "heap_ok (fst t) (snd t)"
  using assms by (induction rule: rtranclp_induct) (auto intro: prog_step_ok)

subsection \<open>The report\<close>

lemma info_list_returns: "dll m q p xs \<Longrightarrow> 0 \<notin> set xs \<Longrightarrow> \<exists>r. info_list m p c b = Some r"
proof (induction xs arbitrary: q p c b)
  case (Cons x xs)
  then show ?case by (subst info_list.simps) auto
qed (simp add: info_list.simps)

lemma info_bins_returns:
  "list_all2 (\<lambda>b xs. dll m 0 b xs \<and> 0 \<notin> set xs) bs xss \<Longrightarrow> \<exists>r. info_bins m bs c b = Some r"
proof (induction arbitrary: c b rule: list_all2_induct)
  case (Cons x bs xs xss)
  then obtain c1 b1 where "info_list m x c b = Some (c1, b1)" using info_list_returns [of m 0 x xs c b] by auto
  then show ?case using Cons.IH [of c1 b1] by simp
qed simp

lemma info_segs_returns: "seg_chain m p T \<Longrightarrow> \<forall>(s, len)\<in>set T. s \<noteq> 0 \<Longrightarrow> \<exists>u'. info_segs m p u = Some u'"
proof (induction T arbitrary: p u)
  case (Cons x T)
  then show ?case by (cases x, subst info_segs.simps) auto
qed (simp add: info_segs.simps)

lemma mallinfo_returns:
  assumes "heap_ok h A"
  obtains i where "mallinfo h = Some i" and "hblks i = mmap_count h" and "hblkhd i = mmap_bytes h"
proof -
  obtain B S L MM where inv: "heap_inv h B S L MM" by (rule heap_okE [OF assms])
  note i = heap_invD [OF inv]
  have len: "length (bins h) = NBINS" using i(5) by (simp add: listed_def)
  have "list_all2 (\<lambda>b xs. dll (hmem h) 0 b xs \<and> 0 \<notin> set xs) (bins h) (map L [0..<NBINS])"
  proof (rule list_all2_all_nthI)
    fix j
    assume "j < length (bins h)"
    then have j: "j < NBINS" using len by simp
    have "0 \<notin> set (L j)" using listedD(4) [OF i(5) j] free_aligned [OF i(1), of 0] by auto
    then show "dll (hmem h) 0 (bins h ! j) (map L [0..<NBINS] ! j) \<and> 0 \<notin> set (map L [0..<NBINS] ! j)"
      using listedD(3) [OF i(5) j] j by simp
  qed (simp add: len)
  then have "\<exists>r. info_bins (hmem h) (bins h) 0 0 = Some r" by (rule info_bins_returns)
  then obtain c b where cb: "info_bins (hmem h) (bins h) 0 0 = Some (c, b)" by auto
  have "\<forall>(s, len)\<in>set S. s \<noteq> 0" using seg_okD(1) [OF i(2)] by fastforce
  then obtain u where "info_segs (hmem h) (segments h) (arena_bytes h - b) = Some u"
    using info_segs_returns [OF i(3)] by blast
  then show thesis using that cb by (simp add: mallinfo_def)
qed

lemma map_drift:
  assumes ok: "heap_ok h A" and m: "malloc sys n h = Some (p, h1)" "p \<noteq> 0" "131072 \<le> n"
  obtains h2 where "free sys p h1 = Some (Inr h2)" and "mmap_bytes h2 = mmap_bytes h + 4" and "mmap_count h2 = mmap_count h"
    and "heap_ok h2 A"
proof -
  obtain B S L MM where inv: "heap_inv h B S L MM" and nh: "no_hole B" and A: "A = live B MM" by (rule heap_okE [OF ok])
  define sz where "sz = unat (request_size n)"
  have n7: "n \<le> 0x7fffff00" using m(1,2) request_size_spec(1) [of n] by (fastforce simp: malloc_def not_less [symmetric])
  have sz: "sz mod 8 = 0" "16 \<le> sz" "unat n + 4 \<le> sz" using request_size_spec(2) [OF n7] by (auto simp: sz_def)
  have big: "131072 \<le> sz" using m(3) sz(3) by (simp add: word_le_nat_alt)
  have e: "big_alloc sys sz h = (p, h1)" using m(1) big by (simp add: malloc_def MMAP_THRESHOLD_def flip: sz_def)
  show thesis
    using inv big
  proof (cases rule: big_alloc_spec [where sys = sys])
    case none
    then show thesis using e m(2) by simp
  next
    case (got a len h')
    have e': "p = a + 8" "h1 = h'" using got(1) e by auto
    note i1 = heap_invD [OF got(2)]
    have mem: "(a, len) \<in> insert (a, len) MM" by simp
    note mp = mapped_okD [OF i1(6) mem] and bf = big_free_spec [OF got(2) mem]
    have "of_nat len - of_nat (len - 4) = (4 :: u32)" using mp(9) by (simp add: of_nat_diff)
    then have "mmap_bytes (big_free (a + 4) h') = mmap_bytes h + 4" using bf(4) got(6) by (simp add: algebra_simps)
    moreover have "mmap_count (big_free (a + 4) h') = mmap_count h" using bf(5) got(7) by simp
    moreover have "insert (a, len) MM - {(a, len)} = MM" using got(4) by simp
    ultimately show thesis
      using that free_mapping [OF got(2) mem, of sys] e' heap_okI [OF bf(1) nh] A by simp
  qed
qed

section \<open>Properties of the allocator\<close>

text \<open>The heap of the witnesses: a program that has not allocated yet, and a kernel that refuses nothing.\<close>

definition start_heap :: heap where
  "start_heap = \<lparr>hmem = (\<lambda>_. 0), bins = replicate 24 0, segments = 0, arena_bytes = 0, mmap_bytes = 0, mmap_count = 0,
     cur_brk = 0, kbrk_start = 0x10000, kbrk = 0x10000, maps = []\<rparr>"

definition kind_sys :: sys where
  "kind_sys = \<lparr>brk_ok = (\<lambda>_. True), mmap_at = (\<lambda>_. Some 0x1000000)\<rparr>"

lemma start_heap_start: "heap_start start_heap"
  by (simp add: heap_start_def start_heap_def sys_wf_def NBINS_def USER_BRK_LIMIT_def)

lemma start_heap_grants: "grants kind_sys start_heap"
  by (simp add: grants_def start_heap_def kind_sys_def USER_BRK_LIMIT_def)

lemmas start_heap_ok = heap_start_ok [OF start_heap_start]

lemma start_malloc:
  obtains p k h where "malloc kind_sys 100 start_heap = Some (p, h)" and "heap_ok h {(p, k)}" and "100 \<le> k"
  using start_heap_ok
proof (cases rule: malloc_ok [where sys = kind_sys and n = 100])
  case (none h')
  then show thesis using start_heap_grants by (simp add: word_less_nat_alt)
next
  case (got p k h')
  then show thesis using that [of p h' k] by simp
qed



text \<open>C6: free of a block the program holds returns without complaint, takes exactly that block from
  the ones the program holds and changes no byte of the others, whether the block is merged with its
  neighbours, the top of the heap is given back or a mapping is removed.\<close>

theorem free_correct:
  assumes "heap_ok h A" and "(p, k) \<in> A"
  shows "\<exists>h'. free sys p h = Some (Inr h') \<and> heap_ok h' (A - {(p, k)}) \<and> same_bytes (A - {(p, k)}) h h'"
  by (rule free_ok [OF assms, of sys]) blast

theorem free_correct_witness:
  "\<exists>p h1 h2. malloc kind_sys 100 start_heap = Some (p, h1) \<and> free kind_sys p h1 = Some (Inr h2) \<and> heap_ok h2 {}"
proof (rule start_malloc)
  fix p k h
  assume "malloc kind_sys 100 start_heap = Some (p, h)" "heap_ok h {(p, k)}"
  then show ?thesis using free_correct [of h "{(p, k)}" p k kind_sys] by auto
qed



text \<open>C1: Whatever a program does with malloc, calloc, realloc, free and writes into its own blocks, and
  whatever the kernel answers, the heap passes malloc_check, the blocks the program holds are aligned
  and as large as their headers say, and no two of them overlap.\<close>

theorem malloc_heap_sound:
  assumes "heap_start h0" and "prog_step\<^sup>*\<^sup>* (h0, {}) (h, A)"
  shows "malloc_check h = Some (Inr ()) \<and>
    (\<forall>(p, k)\<in>A. p \<noteq> 0 \<and> p mod 8 = 0 \<and> usable h p = k \<and> (\<forall>(q, j)\<in>A - {(p, k)}. p + k \<le> q \<or> q + j \<le> p))"
proof -
  have ok: "heap_ok h A" using prog_steps_ok [OF assms(2)] heap_start_ok [OF assms(1)] by simp
  then obtain B S L MM where inv: "heap_inv h B S L MM" and nh: "no_hole B" by (rule heap_okE)
  have "fresh p k (A - {(p, k)}) \<and> usable h p = k" if "(p, k) \<in> A" for p k
    using heap_ok_fresh [OF ok that] usable_room [OF ok that] by simp
  then show ?thesis using malloc_check_inv [OF inv nh] unfolding fresh_def by blast
qed

theorem malloc_heap_sound_witness:
  "\<exists>p k h. prog_step\<^sup>*\<^sup>* (start_heap, {}) (h, {(p, k)}) \<and> malloc_check h = Some (Inr ()) \<and> p mod 8 = 0 \<and> 100 \<le> k"
proof (rule start_malloc)
  fix p k h
  assume m: "malloc kind_sys 100 start_heap = Some (p, h)" and ok: "heap_ok h {(p, k)}" and k: "100 \<le> k"
  have "p \<noteq> 0" "usable h p = k" using heap_ok_fresh [OF ok, of p k] usable_room [OF ok, of p k] by (simp_all add: fresh_def)
  then have "prog_step (start_heap, {}) (h, {(p, k)})" using prog_malloc [OF m, of "{}"] by simp
  then have st: "prog_step\<^sup>*\<^sup>* (start_heap, {}) (h, {(p, k)})" by (rule r_into_rtranclp)
  have "malloc_check h = Some (Inr ()) \<and> p mod 8 = 0" using malloc_heap_sound [OF start_heap_start st] by simp
  then show ?thesis using st k by (intro exI [of _ p] exI [of _ k] exI [of _ h]) simp
qed

text \<open>C8: Every call of the allocator returns on a consistent heap: malloc, whose search starts again
  after the heap has grown, calloc, realloc of a block the program holds, free of any pointer at all,
  and the walks of malloc_check and mallinfo.\<close>

theorem allocator_returns:
  assumes "heap_ok h A"
  shows "(\<exists>r. malloc sys n h = Some r) \<and> (\<exists>r. calloc sys c n h = Some r) \<and> (\<exists>r. free sys q h = Some r) \<and>
    (\<forall>(p, k)\<in>A. \<exists>r. realloc sys p n h = Some r) \<and> (\<exists>r. malloc_check h = Some r) \<and> (\<exists>r. mallinfo h = Some r)"
proof -
  obtain B S L MM where inv: "heap_inv h B S L MM" and nh: "no_hole B" by (rule heap_okE [OF assms])
  have m: "\<exists>r. malloc sys n h = Some r" for n using assms by (cases rule: malloc_ok [where sys = sys and n = n]) auto
  have c: "\<exists>r. calloc sys c n h = Some r" using assms by (cases rule: calloc_ok [where sys = sys and n = n and c = c]) auto
  obtain ok where "plausible q h = Some ok" using plausible_total [OF inv] by blast
  then have f: "\<exists>r. free sys q h = Some r" by (simp add: free_def)
  have r: "\<exists>r. realloc sys p n h = Some r" if p: "(p, k) \<in> A" for p k
  proof (cases "n = 0")
    case True
    obtain h' where "free sys p h = Some (Inr h')" by (rule free_ok [OF assms p])
    moreover have "p \<noteq> 0" using heap_ok_fresh [OF assms p] by (simp add: fresh_def)
    ultimately show ?thesis using True by (subst realloc.simps) (simp add: Let_def)
  next
    case False
    show ?thesis by (rule realloc_ok [OF assms p False, of sys]) blast
  qed
  have "\<exists>r. mallinfo h = Some r" by (rule mallinfo_returns [OF assms]) blast
  then show ?thesis using m c f r malloc_check_inv [OF inv nh] by blast
qed

theorem allocator_returns_witness:
  "(\<exists>r. malloc kind_sys 7 start_heap = Some r) \<and> (\<exists>r. free kind_sys 12345 start_heap = Some r)"
  using allocator_returns [OF start_heap_ok, of kind_sys 7 1 12345] by blast

text \<open>C36: The count of mapped bytes drifts: allocating and releasing a block of 128 KB or more leaves
  mmap_bytes, which mallinfo reports as the bytes obtained with mmap, four higher than before, although
  the number of mapped blocks and the blocks themselves are as they were.\<close>

theorem mmap_bytes_drift:
  assumes "heap_ok h A" and "malloc sys n h = Some (p, h1)" and "p \<noteq> 0" and "131072 \<le> n"
  shows "\<exists>h2 i i2. free sys p h1 = Some (Inr h2) \<and> heap_ok h2 A \<and> mallinfo h = Some i \<and> mallinfo h2 = Some i2 \<and>
    hblks i2 = hblks i \<and> hblkhd i2 = hblkhd i + 4"
proof -
  obtain h2 where h2: "free sys p h1 = Some (Inr h2)" "mmap_bytes h2 = mmap_bytes h + 4" "mmap_count h2 = mmap_count h" "heap_ok h2 A"
    by (rule map_drift [OF assms])
  obtain i where "mallinfo h = Some i" "hblks i = mmap_count h" "hblkhd i = mmap_bytes h" by (rule mallinfo_returns [OF assms(1)])
  moreover obtain i2 where "mallinfo h2 = Some i2" "hblks i2 = mmap_count h2" "hblkhd i2 = mmap_bytes h2" by (rule mallinfo_returns [OF h2(4)])
  ultimately show ?thesis using h2 by simp
qed

lemma start_big: "\<exists>h1. malloc kind_sys 131072 start_heap = Some (0x1000008, h1)"
  by (simp add: malloc_def request_size_def big_alloc_def sys_mmap_def page_round_def kind_sys_def start_heap_def
      malloc_consts USER_BRK_LIMIT_def payload_def Let_def word_less_nat_alt)

theorem mmap_bytes_drift_witness:
  "\<exists>h1 h2 i2. malloc kind_sys 131072 start_heap = Some (0x1000008, h1) \<and> free kind_sys 0x1000008 h1 = Some (Inr h2) \<and>
     mallinfo h2 = Some i2 \<and> hblks i2 = 0 \<and> hblkhd i2 = 4"
proof -
  obtain h1 where h1: "malloc kind_sys 131072 start_heap = Some (0x1000008, h1)" using start_big by blast
  obtain i where "mallinfo start_heap = Some i" "hblks i = mmap_count start_heap" "hblkhd i = mmap_bytes start_heap"
    by (rule mallinfo_returns [OF start_heap_ok])
  then show ?thesis using mmap_bytes_drift [OF start_heap_ok h1] h1 by (auto simp: start_heap_def)
qed

end
