(* ===== verification/Calendar.thy ===== *)
theory Calendar
  imports Kprelude "HOL-Library.Signed_Division"
begin

text \<open>
  \<^verbatim>\<open>kernel/time.c\<close>: calendar arithmetic.  An \<^verbatim>\<open>int\<close> of the code is an unbounded integer here, with
  C's division and remainder, which round towards zero: the code computes with years and day numbers
  whose intermediate values stay far inside 32 bits for every \<^verbatim>\<open>time_t\<close>.  \<^verbatim>\<open>time_t\<close> and the packed
  dates of FAT keep their width, as their arithmetic wraps.
\<close>

section \<open>The code\<close>

record tm =
  tm_sec :: int
  tm_min :: int
  tm_hour :: int
  tm_mday :: int
  tm_mon :: int
  tm_year :: int
  tm_wday :: int

definition SECS_PER_DAY :: u32 where "SECS_PER_DAY = 86400"

definition is_leap :: "int \<Rightarrow> bool" where
  "is_leap year \<longleftrightarrow> year smod 4 = 0 \<and> year smod 100 \<noteq> 0 \<or> year smod 400 = 0"

definition days_in_month :: "int \<Rightarrow> int \<Rightarrow> int" where
  "days_in_month year mon0 =
     (if mon0 < 0 \<or> 11 < mon0 then 0
      else if mon0 = 1 \<and> is_leap year then 29
      else [31, 28, 31, 30, 31, 30, 31, 31, 30, 31, 30, 31] ! nat mon0)"

definition weekday_of :: "int \<Rightarrow> int \<Rightarrow> int \<Rightarrow> int" where
  "weekday_of year mon0 mday =
     (if mon0 < 0 \<or> 11 < mon0 then 0
      else
        let y = (if mon0 < 2 then year - 1 else year)
        in (y + y sdiv 4 - y sdiv 100 + y sdiv 400 + [0, 3, 2, 5, 0, 3, 5, 1, 4, 6, 2, 4] ! nat mon0 + mday) smod 7)"

definition days_from_civil :: "int \<Rightarrow> int \<Rightarrow> int \<Rightarrow> int" where
  "days_from_civil y0 m d =
     (let y = (if m \<le> 2 then y0 - 1 else y0);
          era = (if 0 \<le> y then y else y - 399) sdiv 400;
          yoe = y - era * 400;
          doy = (153 * (m + (if 2 < m then -3 else 9)) + 2) sdiv 5 + d - 1;
          doe = yoe * 365 + yoe sdiv 4 - yoe sdiv 100 + doy
      in era * 146097 + doe - 719468)"

definition civil_from_days :: "int \<Rightarrow> int \<times> int \<times> int" where
  "civil_from_days z0 =
     (let z = z0 + 719468;
          era = (if 0 \<le> z then z else z - 146096) sdiv 146097;
          doe = z - era * 146097;
          yoe = (doe - doe sdiv 1460 + doe sdiv 36524 - doe sdiv 146096) sdiv 365;
          yr = yoe + era * 400;
          doy = doe - (365 * yoe + yoe sdiv 4 - yoe sdiv 100);
          mp = (5 * doy + 2) sdiv 153;
          d = doy - (153 * mp + 2) sdiv 5 + 1;
          m = mp + (if mp < 10 then 3 else -9)
      in (if m \<le> 2 then yr + 1 else yr, m, d))"

definition gmtime_r :: "u32 \<Rightarrow> tm" where
  "gmtime_r secs =
     (let days = secs div SECS_PER_DAY;
          rem = secs mod SECS_PER_DAY;
          (y, m, d) = civil_from_days (sint days)
      in \<lparr>tm_sec = uint (rem mod 60), tm_min = uint (rem div 60 mod 60), tm_hour = uint (rem div 3600),
          tm_mday = d, tm_mon = m - 1, tm_year = y - 1900, tm_wday = weekday_of y (m - 1) d\<rparr>)"

definition timegm :: "tm \<Rightarrow> u32" where
  "timegm t =
     (let days = days_from_civil (tm_year t + 1900) (tm_mon t + 1) (tm_mday t)
      in of_int days * SECS_PER_DAY + of_int (tm_hour t) * 3600 + of_int (tm_min t) * 60 + of_int (tm_sec t))"

definition tm_valid :: "tm \<Rightarrow> bool" where
  "tm_valid t =
     (let year = tm_year t + 1900
      in if tm_mon t < 0 \<or> 11 < tm_mon t then False
         else if tm_mday t < 1 \<or> days_in_month year (tm_mon t) < tm_mday t then False
         else if tm_hour t < 0 \<or> 23 < tm_hour t then False
         else if tm_min t < 0 \<or> 59 < tm_min t then False
         else 0 \<le> tm_sec t \<and> tm_sec t \<le> 59)"

definition weekday_name :: "int \<Rightarrow> string" where
  "weekday_name wday =
     (if 0 \<le> wday \<and> wday < 7
      then [''Sunday'', ''Monday'', ''Tuesday'', ''Wednesday'', ''Thursday'', ''Friday'', ''Saturday''] ! nat wday
      else ''?'')"

definition month_name :: "int \<Rightarrow> string" where
  "month_name mon0 =
     (if 0 \<le> mon0 \<and> mon0 < 12
      then [''January'', ''February'', ''March'', ''April'', ''May'', ''June'', ''July'', ''August'',
            ''September'', ''October'', ''November'', ''December''] ! nat mon0
      else ''?'')"

text \<open>The packed date and time of FAT.\<close>

definition tm_to_fat_date :: "tm \<Rightarrow> u16" where
  "tm_to_fat_date t =
     (let year = tm_year t + 1900
      in if year < 1980 \<or> 2107 < year then 0
         else of_int (push_bit 9 (year - 1980) OR push_bit 5 (tm_mon t + 1) OR tm_mday t))"

definition tm_to_fat_time :: "tm \<Rightarrow> u16" where
  "tm_to_fat_time t = of_int (push_bit 11 (tm_hour t) OR push_bit 5 (tm_min t) OR tm_sec t sdiv 2)"

definition fat_to_tm :: "u16 \<Rightarrow> u16 \<Rightarrow> tm" where
  "fat_to_tm date time =
     (let year = 1980 + uint (drop_bit 9 date AND 0x7f) - 1900;
          mon = uint (drop_bit 5 date AND 0x0f) - 1;
          mday = uint (date AND 0x1f)
      in \<lparr>tm_sec = uint (time AND 0x1f) * 2, tm_min = uint (drop_bit 5 time AND 0x3f), tm_hour = uint (drop_bit 11 time AND 0x1f),
          tm_mday = mday, tm_mon = mon, tm_year = year, tm_wday = weekday_of (year + 1900) mon mday\<rparr>)"

section \<open>Day numbers and dates\<close>

lemma sdiv_pos: "0 \<le> a \<Longrightarrow> 0 < b \<Longrightarrow> a sdiv b = a div b" for a b :: int
  by (simp add: signed_divide_int_def sgn_if)

lemma smod_pos: "0 \<le> a \<Longrightarrow> 0 < b \<Longrightarrow> a smod b = a mod b" for a b :: int
  by (cases "a = 0") (simp_all add: signed_modulo_int_def sgn_if)

text \<open>A day of a 400-year era as a year of the era, counted from March, and a day of that year: the
  year has its century, its place in the century's run of leap cycles and its place in the cycle.\<close>

lemma era_day:
  fixes doe :: int
  assumes "0 \<le> doe" and "doe \<le> 146096"
  obtains c q r t where "doe = 36524 * c + 1461 * q + 365 * r + t" and "0 \<le> c" "c \<le> 3" and "0 \<le> q" "q \<le> 24"
    and "0 \<le> r" "r \<le> 3" and "0 \<le> t" "t \<le> 365" and "t = 365 \<longrightarrow> r = 3 \<and> (q = 24 \<longrightarrow> c = 3)"
proof -
  define c where "c = min (doe div 36524) 3"
  define R where "R = doe - 36524 * c"
  define q where "q = R div 1461"
  define r where "r = min (R mod 1461 div 365) 3"
  define t where "t = R mod 1461 - 365 * r"
  have c: "0 \<le> c" "c \<le> 3" using assms by (auto simp: c_def)
  have R: "0 \<le> R" "R \<le> 36524" "R = 36524 \<longrightarrow> c = 3"
    using assms unfolding R_def c_def by (auto simp: min_def)
  have q: "0 \<le> q" "q \<le> 24" using R by (auto simp: q_def)
  have r: "0 \<le> r" "r \<le> 3" by (auto simp: r_def)
  have m: "0 \<le> R mod 1461" "R mod 1461 \<le> 1460" by (simp_all add: pos_mod_bound zle_diff1_eq [symmetric])
  have t: "0 \<le> t" "t \<le> 365" "t = 365 \<longrightarrow> r = 3" using m unfolding t_def r_def by (auto simp: min_def)
  have e: "R = 1461 * q + 365 * r + t" by (simp add: q_def t_def)
  have "t = 365 \<longrightarrow> r = 3 \<and> (q = 24 \<longrightarrow> c = 3)" using t(3) e R(2,3) by auto
  then show thesis using that [of c q r t] c q r t e by (simp add: R_def)
qed

text \<open>The code's formula finds the year, and its place in the month pattern finds the date.\<close>

lemma year_of_era:
  fixes c q r t :: int
  assumes "0 \<le> c" "c \<le> 3" "0 \<le> q" "q \<le> 24" "0 \<le> r" "r \<le> 3" "0 \<le> t" "t \<le> 365"
    and "t = 365 \<longrightarrow> r = 3 \<and> (q = 24 \<longrightarrow> c = 3)"
  defines "doe \<equiv> 36524 * c + 1461 * q + 365 * r + t"
  shows "(doe - doe div 1460 + doe div 36524 - doe div 146096) div 365 = 100 * c + 4 * q + r"
    and "0 \<le> doe" and "doe \<le> 146096" and "0 \<le> doe - doe div 1460 + doe div 36524 - doe div 146096"
proof -
  have R: "1461 * q + 365 * r + t \<le> 36524" "1461 * q + 365 * r + t = 36524 \<longrightarrow> c = 3" using assms(3-9) by auto
  show "0 \<le> doe" "doe \<le> 146096" using assms(1-8) R by (auto simp: doe_def)
  define s :: int where "s = (if 24 * c + q + 365 * r + t < 1460 then 0 else 1)"
  define f :: int where "f = (if 1461 * q + 365 * r + t = 36524 then 1 else 0)"
  have d1: "doe div 1460 = 25 * c + q + s"
    using assms(1-8) by (intro int_div_pos_eq [of _ _ _ "24 * c + q + 365 * r + t - 1460 * s"]) (auto simp: doe_def s_def)
  have d2: "doe div 36524 = c + f"
    using assms(1-8) R by (intro int_div_pos_eq [of _ _ _ "1461 * q + 365 * r + t - 36524 * f"]) (auto simp: doe_def f_def)
  have d3: "doe div 146096 = f"
    using assms(1-8) R by (intro int_div_pos_eq [of _ _ _ "doe - 146096 * f"]) (auto simp: doe_def f_def)
  have e: "doe - doe div 1460 + doe div 36524 - doe div 146096 = 365 * (100 * c + 4 * q + r) + (t - s)"
    unfolding d1 d2 d3 by (simp add: doe_def)
  have ts: "0 \<le> t - s" "t - s < 365" using assms(1-9) by (auto simp: s_def)
  then show "0 \<le> doe - doe div 1460 + doe div 36524 - doe div 146096" unfolding e using assms(1-8) by simp
  show "(doe - doe div 1460 + doe div 36524 - doe div 146096) div 365 = 100 * c + 4 * q + r"
    unfolding e using ts by simp
qed

text \<open>The month and day of a day of the year, and back.\<close>

definition month_start :: "int \<Rightarrow> int" where "month_start mp = (153 * mp + 2) div 5"

lemma month_of_day:
  fixes t :: int
  assumes "0 \<le> t" and "t \<le> 365"
  defines "mp \<equiv> (5 * t + 2) div 153"
  shows "0 \<le> mp" "mp \<le> 11" "month_start mp \<le> t" "t < month_start (mp + 1)"
  using assms(1,2) unfolding mp_def month_start_def by auto

lemma month_cases:
  fixes mp :: int
  assumes "0 \<le> mp" and "mp \<le> 11"
  shows "mp = 0 \<or> mp = 1 \<or> mp = 2 \<or> mp = 3 \<or> mp = 4 \<or> mp = 5 \<or> mp = 6 \<or> mp = 7 \<or> mp = 8 \<or> mp = 9 \<or> mp = 10 \<or> mp = 11"
  using assms by presburger

lemma day_of_month:
  fixes t mp :: int
  assumes "0 \<le> mp" "mp \<le> 11" "month_start mp \<le> t" "t < month_start (mp + 1)"
  shows "(5 * t + 2) div 153 = mp"
  using month_cases [OF assms(1,2)] assms(3,4) by (elim disjE) (simp_all add: month_start_def)

text \<open>The date of a day number in terms of the decomposition.  \<open>month_no\<close> is the number of a month of
  the year that begins in March.\<close>

definition month_no :: "int \<Rightarrow> int" where "month_no mp = mp + (if mp < 10 then 3 else -9)"

definition civil_ok :: "int \<Rightarrow> int \<Rightarrow> int \<Rightarrow> int \<Rightarrow> int \<Rightarrow> bool" where
  "civil_ok e c q r t \<longleftrightarrow> 0 \<le> e \<and> 0 \<le> c \<and> c \<le> 3 \<and> 0 \<le> q \<and> q \<le> 24 \<and> 0 \<le> r \<and> r \<le> 3 \<and> 0 \<le> t \<and> t \<le> 365 \<and>
     (t = 365 \<longrightarrow> r = 3 \<and> (q = 24 \<longrightarrow> c = 3))"

definition civil_date :: "int \<Rightarrow> int \<Rightarrow> int \<times> int \<times> int" where
  "civil_date y t =
     (let mp = (5 * t + 2) div 153
      in (if 10 \<le> mp then y + 1 else y, month_no mp, t - month_start mp + 1))"

lemma year_parts:
  fixes e c q r :: int
  assumes "0 \<le> c" "c \<le> 3" "0 \<le> q" "q \<le> 24" "0 \<le> r" "r \<le> 3"
  shows "(400 * e + 100 * c + 4 * q + r) div 400 = e" and "(100 * c + 4 * q + r) div 4 = 25 * c + q"
    and "(100 * c + 4 * q + r) div 100 = c" and "(400 * e + 100 * c + 4 * q + r) div 4 = 100 * e + 25 * c + q"
    and "(400 * e + 100 * c + 4 * q + r) div 100 = 4 * e + c"
proof -
  show "(400 * e + 100 * c + 4 * q + r) div 400 = e"
    using assms by (intro int_div_pos_eq [of _ _ _ "100 * c + 4 * q + r"]) auto
  show "(100 * c + 4 * q + r) div 4 = 25 * c + q" using assms by (intro int_div_pos_eq [of _ _ _ r]) auto
  show "(100 * c + 4 * q + r) div 100 = c" using assms by (intro int_div_pos_eq [of _ _ _ "4 * q + r"]) auto
  show "(400 * e + 100 * c + 4 * q + r) div 4 = 100 * e + 25 * c + q" using assms by (intro int_div_pos_eq [of _ _ _ r]) auto
  show "(400 * e + 100 * c + 4 * q + r) div 100 = 4 * e + c" using assms by (intro int_div_pos_eq [of _ _ _ "4 * q + r"]) auto
qed

lemma civil_from_days_eq:
  assumes "civil_ok e c q r t"
  shows "civil_from_days (146097 * e + 36524 * c + 1461 * q + 365 * r + t - 719468) = civil_date (400 * e + 100 * c + 4 * q + r) t"
proof -
  define doe where "doe = 36524 * c + 1461 * q + 365 * r + t"
  have b: "0 \<le> c" "c \<le> 3" "0 \<le> q" "q \<le> 24" "0 \<le> r" "r \<le> 3" "0 \<le> t" "t \<le> 365" "t = 365 \<longrightarrow> r = 3 \<and> (q = 24 \<longrightarrow> c = 3)" "0 \<le> e"
    using assms by (simp_all add: civil_ok_def)
  note y = year_of_era [OF b(1-9), folded doe_def] and yp = year_parts [OF b(1-6)]
  define z where "z = 146097 * e + doe"
  have z: "0 \<le> z" "z div 146097 = e" "z - e * 146097 = doe" using y(2,3) b(10) by (auto simp: z_def)
  define yoe where "yoe = 100 * c + 4 * q + r"
  have yo: "0 \<le> yoe" using b by (simp add: yoe_def)
  have t: "doe - (365 * yoe + yoe div 4 - yoe div 100) = t" using yp by (simp add: yoe_def doe_def)
  define mp where "mp = (5 * t + 2) div 153"
  note mp = month_of_day [OF b(7,8), folded mp_def]
  have a0: "z - 719468 + 719468 = z" by simp
  have a1: "(if 0 \<le> z then z else z - 146096) sdiv 146097 = e" using z by (simp add: sdiv_pos)
  have a2: "(doe - doe sdiv 1460 + doe sdiv 36524 - doe sdiv 146096) sdiv 365 = yoe"
    using y by (simp add: sdiv_pos yoe_def)
  have a3: "doe - (365 * yoe + yoe sdiv 4 - yoe sdiv 100) = t" using t yo by (simp add: sdiv_pos)
  have a4: "(5 * t + 2) sdiv 153 = mp" using b(7) by (simp add: sdiv_pos mp_def)
  have a5: "(153 * mp + 2) sdiv 5 = month_start mp" using mp(1) by (simp add: sdiv_pos month_start_def)
  have "civil_from_days (z - 719468) = civil_date (400 * e + yoe) t"
    unfolding civil_from_days_def civil_date_def Let_def a0 a1 z(3) a2 a3 a4 a5 mp_def [symmetric]
    using mp(1,2) by (auto simp: month_no_def)
  then show ?thesis by (simp add: z_def doe_def yoe_def algebra_simps)
qed

lemma days_from_civil_eq:
  assumes "civil_ok e c q r t" and mp: "0 \<le> mp" "mp \<le> 11"
  shows "days_from_civil (if 10 \<le> mp then 400 * e + 100 * c + 4 * q + r + 1 else 400 * e + 100 * c + 4 * q + r) (month_no mp) d =
    146097 * e + 36524 * c + 1461 * q + 365 * r + (month_start mp + d - 1) - 719468"
proof -
  have b: "0 \<le> c" "c \<le> 3" "0 \<le> q" "q \<le> 24" "0 \<le> r" "r \<le> 3" "0 \<le> e" using assms by (simp_all add: civil_ok_def)
  note yp = year_parts [OF b(1-6)]
  define yoe where "yoe = 100 * c + 4 * q + r"
  define y where "y = 400 * e + 100 * c + 4 * q + r"
  have y: "0 \<le> y" "0 \<le> yoe" using b by (auto simp: y_def yoe_def)
  have a1: "(if month_no mp \<le> 2 then (if 10 \<le> mp then y + 1 else y) - 1 else if 10 \<le> mp then y + 1 else y) = y"
    using mp by (auto simp: month_no_def)
  have a2: "(if 0 \<le> y then y else y - 399) sdiv 400 = e" using y yp(1) by (simp add: sdiv_pos y_def)
  have a3: "y - e * 400 = yoe" by (simp add: y_def yoe_def)
  have a4: "month_no mp + (if 2 < month_no mp then - 3 else 9) = mp" using mp by (auto simp: month_no_def)
  have a5: "(153 * mp + 2) sdiv 5 = month_start mp" using mp(1) by (simp add: sdiv_pos month_start_def)
  have a6: "yoe * 365 + yoe sdiv 4 - yoe sdiv 100 = 36524 * c + 1461 * q + 365 * r"
    using y(2) yp by (simp add: sdiv_pos yoe_def)
  have "days_from_civil (if 10 \<le> mp then y + 1 else y) (month_no mp) d = e * 146097 + (36524 * c + 1461 * q + 365 * r + (month_start mp + d - 1)) - 719468"
    unfolding days_from_civil_def Let_def a1 a2 a3 a4 a5 a6 ..
  then show ?thesis unfolding y_def by linarith
qed

text \<open>Every day number that a \<^verbatim>\<open>time_t\<close> reaches has such a decomposition.\<close>

lemma day_parts:
  fixes z :: int
  assumes "0 \<le> z"
  obtains e c q r t where "civil_ok e c q r t" and "z = 146097 * e + 36524 * c + 1461 * q + 365 * r + t - 719468"
proof -
  define e where "e = (z + 719468) div 146097"
  define doe where "doe = (z + 719468) mod 146097"
  have e: "0 \<le> e" using assms by (simp add: e_def)
  have doe: "0 \<le> doe" "doe \<le> 146096" by (simp_all add: doe_def zle_diff1_eq [symmetric])
  have z: "z = 146097 * e + doe - 719468" by (simp add: e_def doe_def)
  obtain c q r t where "doe = 36524 * c + 1461 * q + 365 * r + t" "civil_ok e c q r t"
    using e by (rule_tac era_day [OF doe]) (auto simp: civil_ok_def)
  then show thesis using that z by simp
qed

lemma leap_year:
  fixes e c q r :: int
  assumes "0 \<le> e" "0 \<le> c" "c \<le> 3" "0 \<le> q" "q \<le> 24" and "r = 3" and "q = 24 \<longrightarrow> c = 3"
  shows "is_leap (400 * e + 100 * c + 4 * q + r + 1)"
proof -
  let ?y = "400 * e + 100 * c + 4 * q + r + 1"
  have y4: "?y = (100 * e + 25 * c + q + 1) * 4" using assms(6) by simp
  have "?y mod 4 = 0" unfolding y4 by simp
  moreover have "?y mod 100 \<noteq> 0" if "q \<noteq> 24"
  proof -
    have "?y mod 100 = 4 * q + 4" using assms that by (intro int_mod_pos_eq [of _ _ "4 * e + c"]) auto
    then show ?thesis using assms(4) by simp
  qed
  moreover have "?y mod 400 = 0" if "q = 24"
  proof -
    have y400: "?y = (e + 1) * 400" using assms(6,7) that by simp
    show ?thesis unfolding y400 by simp
  qed
  moreover have "0 \<le> ?y" using assms by simp
  ultimately show ?thesis unfolding is_leap_def by (cases "q = 24") (simp_all only: smod_pos zero_less_numeral, auto)
qed

lemma civil_date_valid:
  assumes ok: "civil_ok e c q r t" and d: "civil_date (400 * e + 100 * c + 4 * q + r) t = (y, m, d)"
  shows "1 \<le> m" "m \<le> 12" "1 \<le> d" "d \<le> days_in_month y (m - 1)"
proof -
  define mp where "mp = (5 * t + 2) div 153"
  have b: "0 \<le> e" "0 \<le> c" "c \<le> 3" "0 \<le> q" "q \<le> 24" "0 \<le> t" "t \<le> 365" "t = 365 \<longrightarrow> r = 3 \<and> (q = 24 \<longrightarrow> c = 3)"
    using ok by (simp_all add: civil_ok_def)
  note mp = month_of_day [OF b(6,7), folded mp_def]
  have e: "y = (if 10 \<le> mp then 400 * e + 100 * c + 4 * q + r + 1 else 400 * e + 100 * c + 4 * q + r)" "m = month_no mp"
    "d = t - month_start mp + 1" using d by (auto simp: civil_date_def Let_def mp_def)
  have "is_leap y" if "mp = 11" "t = 365" using leap_year [OF b(1-5)] b(8) that e(1) by simp
  then have leap: "mp = 11 \<longrightarrow> \<not> is_leap y \<longrightarrow> t \<le> 364" using b(7) by fastforce
  show "1 \<le> m" "m \<le> 12" "1 \<le> d" using mp by (auto simp: e month_no_def)
  show "d \<le> days_in_month y (m - 1)"
    using month_cases [OF mp(1,2)] mp(3,4) b(7) leap
    by (elim disjE) (auto simp: e(2,3) month_no_def month_start_def days_in_month_def)
qed

lemma civil_date_weekday:
  assumes ok: "civil_ok e c q r t" and d: "civil_date (400 * e + 100 * c + 4 * q + r) t = (y, m, d)"
  shows "weekday_of y (m - 1) d = (146097 * e + 36524 * c + 1461 * q + 365 * r + t - 719468 + 4) mod 7"
proof -
  define mp where "mp = (5 * t + 2) div 153"
  have b: "0 \<le> c" "c \<le> 3" "0 \<le> q" "q \<le> 24" "0 \<le> r" "r \<le> 3" "0 \<le> t" "t \<le> 365" "0 \<le> e" using ok by (simp_all add: civil_ok_def)
  note mp = month_of_day [OF b(7,8), folded mp_def] and yp = year_parts [OF b(1-6)]
  define Y where "Y = 400 * e + 100 * c + 4 * q + r"
  have e: "y = (if 10 \<le> mp then Y + 1 else Y)" "m = month_no mp" "d = t - month_start mp + 1"
    using d by (auto simp: civil_date_def Let_def mp_def Y_def)
  have Y: "0 \<le> Y" "Y div 4 = 100 * e + 25 * c + q" "Y div 100 = 4 * e + c" "Y div 400 = e"
    using b yp(1,4,5) by (simp_all add: Y_def)
  have y': "(if m - 1 < 2 then y - 1 else y) = Y" using mp(1,2) by (auto simp: e(1,2) month_no_def)
  define s where "s = Y + Y div 4 - Y div 100 + Y div 400 + [0, 3, 2, 5, 0, 3, 5, 1, 4, 6, 2, 4] ! nat (m - 1) + d"
  have "1 \<le> m" "m \<le> 12" using mp by (auto simp: e month_no_def)
  then have "weekday_of y (m - 1) d = s smod 7"
    unfolding weekday_of_def Let_def y' using Y(1) by (simp add: sdiv_pos s_def)
  moreover have "0 \<le> s" using Y b mp(3) \<open>1 \<le> m\<close> \<open>m \<le> 12\<close> month_cases [OF mp(1,2)]
    unfolding s_def by (elim disjE) (auto simp: e(2,3) month_no_def)
  moreover have "\<exists>k. 146097 * e + 36524 * c + 1461 * q + 365 * r + t - 719468 + 4 = s + 7 * k"
  proof -
    have s: "s = 497 * e + 124 * c + 5 * q + r + [0, 3, 2, 5, 0, 3, 5, 1, 4, 6, 2, 4] ! nat (m - 1) + d"
      unfolding s_def Y(2-4) by (simp add: Y_def)
    have "7 dvd month_start mp - 1 - [0, 3, 2, 5, 0, 3, 5, 1, 4, 6, 2, 4] ! nat (m - 1) - 719464"
      using month_cases [OF mp(1,2)] by (elim disjE) (simp_all add: e(2) month_no_def month_start_def)
    then obtain j where "month_start mp - 1 - [0, 3, 2, 5, 0, 3, 5, 1, 4, 6, 2, 4] ! nat (m - 1) - 719464 = 7 * j" by (rule dvdE)
    then have "146097 * e + 36524 * c + 1461 * q + 365 * r + t - 719468 + 4 = s + 7 * (20800 * e + 5200 * c + 208 * q + 52 * r + j)"
      unfolding s e(3) by simp
    then show ?thesis ..
  qed
  then obtain k where "146097 * e + 36524 * c + 1461 * q + 365 * r + t - 719468 + 4 = s + 7 * k" ..
  ultimately show ?thesis by (simp add: smod_pos)
qed

section \<open>Time of day\<close>

lemma secs_parts:
  fixes secs :: u32
  shows "sint (secs div SECS_PER_DAY) = int (unat secs div 86400)" and "unat (secs mod SECS_PER_DAY) = unat secs mod 86400"
    and "unat secs div 86400 < 49711"
proof -
  have "unat secs < 4294967296" by (rule order_less_le_trans [OF unsigned_less]) simp
  then have "unat secs < 49711 * 86400" by (rule order_less_trans) simp
  then show d: "unat secs div 86400 < 49711" by (rule less_mult_imp_div_less)
  have q: "unat (secs div SECS_PER_DAY) = unat secs div 86400" by (simp add: SECS_PER_DAY_def unat_div)
  have "uint (secs div SECS_PER_DAY) = int (unat secs div 86400)" by (metis q uint_nat)
  then show "sint (secs div SECS_PER_DAY) = int (unat secs div 86400)"
    using d by (simp add: sint_uint signed_take_bit_int_eq_self)
  show "unat (secs mod SECS_PER_DAY) = unat secs mod 86400" by (simp add: SECS_PER_DAY_def unat_mod)
qed

lemma gmtime_parts:
  obtains e c q r t y m d where "civil_ok e c q r t"
    and "int (unat secs div 86400) = 146097 * e + 36524 * c + 1461 * q + 365 * r + t - 719468"
    and "civil_date (400 * e + 100 * c + 4 * q + r) t = (y, m, d)"
    and "gmtime_r secs = \<lparr>tm_sec = int (unat secs mod 86400 mod 60), tm_min = int (unat secs mod 86400 div 60 mod 60),
      tm_hour = int (unat secs mod 86400 div 3600), tm_mday = d, tm_mon = m - 1, tm_year = y - 1900, tm_wday = weekday_of y (m - 1) d\<rparr>"
proof -
  note p = secs_parts [of secs]
  obtain e c q r t where z: "civil_ok e c q r t" "int (unat secs div 86400) = 146097 * e + 36524 * c + 1461 * q + 365 * r + t - 719468"
    by (rule day_parts [of "int (unat secs div 86400)"]) simp
  obtain y m d where ymd: "civil_date (400 * e + 100 * c + 4 * q + r) t = (y, m, d)" by (cases "civil_date (400 * e + 100 * c + 4 * q + r) t")
  have c: "civil_from_days (int (unat secs div 86400)) = (y, m, d)" unfolding z(2) civil_from_days_eq [OF z(1)] ymd ..
  have u: "uint (secs mod SECS_PER_DAY mod 60) = int (unat secs mod 86400 mod 60)"
    "uint (secs mod SECS_PER_DAY div 60 mod 60) = int (unat secs mod 86400 div 60 mod 60)"
    "uint (secs mod SECS_PER_DAY div 3600) = int (unat secs mod 86400 div 3600)"
    using p(2) by (simp_all add: uint_nat unat_mod unat_div)
  show thesis
    using that [OF z ymd] unfolding gmtime_r_def Let_def p(1) c u by simp
qed

text \<open>A valid date as a day of the era.\<close>

lemma year_split:
  fixes Y :: int
  assumes "0 \<le> Y"
  obtains e c q r where "Y = 400 * e + 100 * c + 4 * q + r" and "0 \<le> e" "0 \<le> c" "c \<le> 3" "0 \<le> q" "q \<le> 24" "0 \<le> r" "r \<le> 3"
proof -
  have part: "\<exists>a b. x = n * a + b \<and> 0 \<le> a \<and> n * a \<le> x \<and> 0 \<le> b \<and> b < n" if "0 \<le> x" "0 < n" for x n :: int
    using that by (intro exI [of _ "x div n"] exI [of _ "x mod n"])
      (simp add: pos_imp_zdiv_nonneg_iff minus_mod_eq_mult_div [symmetric])
  obtain e x where e: "Y = 400 * e + x" "0 \<le> e" "0 \<le> x" "x < 400" using part [of Y 400] assms by auto
  obtain c w where c: "x = 100 * c + w" "0 \<le> c" "0 \<le> w" "w < 100" using part [of x 100] e(3) by auto
  obtain q r where q: "w = 4 * q + r" "0 \<le> q" "0 \<le> r" "r < 4" using part [of w 4] c(3) by auto
  show thesis using that [of e c q r] e c q by simp
qed

lemma leap_yearD:
  fixes e c q r :: int
  assumes "is_leap (400 * e + 100 * c + 4 * q + r + 1)" and "0 \<le> e" "0 \<le> c" "c \<le> 3" "0 \<le> q" "0 \<le> r" "r \<le> 3"
  shows "r = 3" and "q = 24 \<longrightarrow> c = 3"
proof -
  let ?y = "400 * e + 100 * c + 4 * q + r + 1"
  have "0 \<le> ?y" using assms by simp
  then have l: "?y mod 4 = 0 \<and> ?y mod 100 \<noteq> 0 \<or> ?y mod 400 = 0" using assms(1) by (simp add: is_leap_def smod_pos)
  then have "?y mod 4 = 0" using mod_mod_cancel [of 4 400 ?y] by auto
  moreover have y4: "?y = r + 1 + (100 * e + 25 * c + q) * 4" by simp
  ultimately have "(r + 1) mod 4 = 0" by (simp only: y4 mod_mult_self1)
  then show r: "r = 3" using assms(6,7) by (cases "r < 3") simp_all
  show "q = 24 \<longrightarrow> c = 3"
  proof
    assume q: "q = 24"
    have y: "?y = 100 * (4 * e + c + 1)" using q r by simp
    have "?y mod 100 = 0" unfolding y by simp
    then have "?y mod 400 = 0" using l by simp
    then have "400 dvd 100 * (4 * e + c + 1)" using y by (simp only: mod_eq_0_iff_dvd)
    then have "4 dvd 4 * e + c + 1" using dvd_mult_cancel_left [of 100 4 "4 * e + c + 1"] by simp
    then have "4 dvd c + 1" using dvd_add_right_iff [of 4 "4 * e" "c + 1"] by (simp add: add.assoc)
    then have "4 \<le> c + 1" using assms(3) by (intro zdvd_imp_le) auto
    then show "c = 3" using assms(4) by simp
  qed
qed

lemma valid_parts:
  assumes "tm_valid t" and "0 \<le> tm_year t"
  obtains e c q r j where "civil_ok e c q r j"
    and "civil_date (400 * e + 100 * c + 4 * q + r) j = (tm_year t + 1900, tm_mon t + 1, tm_mday t)"
    and "j = month_start ((5 * j + 2) div 153) + tm_mday t - 1"
proof -
  define m where "m = tm_mon t"
  define mp where "mp = (if m < 2 then m + 10 else m - 2)"
  define Y where "Y = tm_year t + 1900 - (if m < 2 then 1 else 0)"
  define j where "j = month_start mp + tm_mday t - 1"
  have v: "0 \<le> m" "m \<le> 11" "1 \<le> tm_mday t" "tm_mday t \<le> days_in_month (tm_year t + 1900) m"
    using assms(1) by (auto simp: tm_valid_def Let_def m_def split: if_splits)
  have mp: "0 \<le> mp" "mp \<le> 11" "month_no mp = m + 1" "m < 2 \<longleftrightarrow> 10 \<le> mp" using v by (auto simp: mp_def month_no_def)
  have Y0: "0 \<le> Y" using assms(2) by (simp add: Y_def)
  obtain e c q r where Y: "Y = 400 * e + 100 * c + 4 * q + r" "0 \<le> e" "0 \<le> c" "c \<le> 3" "0 \<le> q" "q \<le> 24" "0 \<le> r" "r \<le> 3"
    by (rule year_split [OF Y0])
  have m: "m = month_no mp - 1" using mp(3) by simp
  have y: "tm_year t + 1900 = (if 10 \<le> mp then Y + 1 else Y)" using mp(4) by (auto simp: Y_def)
  have j: "month_start mp \<le> j \<and> j < month_start (mp + 1) \<and> 0 \<le> j \<and> j \<le> 365 \<and> (j = 365 \<longrightarrow> is_leap (Y + 1))"
    using month_cases [OF mp(1,2)] v(3,4) unfolding m y j_def
    by (elim disjE) (auto simp: month_no_def month_start_def days_in_month_def split: if_splits)
  then have mj: "(5 * j + 2) div 153 = mp" by (intro day_of_month mp) auto
  have "civil_ok e c q r j"
    using j Y leap_yearD [of e c q r] unfolding civil_ok_def by auto
  moreover have "civil_date (400 * e + 100 * c + 4 * q + r) j = (tm_year t + 1900, tm_mon t + 1, tm_mday t)"
    using Y(1) y mp(3) unfolding civil_date_def mj Let_def by (simp add: j_def m_def)
  moreover have "j = month_start ((5 * j + 2) div 153) + tm_mday t - 1" unfolding mj by (simp add: j_def)
  ultimately show thesis by (rule that)
qed

lemma timegm_of_parts:
  assumes "days_from_civil (tm_year t + 1900) (tm_mon t + 1) (tm_mday t) = int D"
    and "tm_hour t = int h" "tm_min t = int mi" "tm_sec t = int se"
  shows "timegm t = of_nat (D * 86400 + h * 3600 + mi * 60 + se)"
  using assms by (simp add: timegm_def SECS_PER_DAY_def)

lemma time_of_day: "R div 3600 * 3600 + R div 60 mod 60 * 60 + R mod 60 = R" for R :: nat
proof -
  have "R div 3600 = R div 60 div 60" by (simp add: div_mult2_eq [symmetric])
  then show ?thesis using mult_div_mod_eq [of 60 R] mult_div_mod_eq [of 60 "R div 60"] by linarith
qed

lemma timegm_gmtime: "timegm (gmtime_r secs) = secs"
proof -
  obtain e c q r t y m d where z: "civil_ok e c q r t"
      "int (unat secs div 86400) = 146097 * e + 36524 * c + 1461 * q + 365 * r + t - 719468"
    and ymd: "civil_date (400 * e + 100 * c + 4 * q + r) t = (y, m, d)"
    and g: "gmtime_r secs = \<lparr>tm_sec = int (unat secs mod 86400 mod 60), tm_min = int (unat secs mod 86400 div 60 mod 60),
      tm_hour = int (unat secs mod 86400 div 3600), tm_mday = d, tm_mon = m - 1, tm_year = y - 1900, tm_wday = weekday_of y (m - 1) d\<rparr>"
    by (rule gmtime_parts [of secs])
  define mp where "mp = (5 * t + 2) div 153"
  have "0 \<le> t" "t \<le> 365" using z(1) by (simp_all add: civil_ok_def)
  note mp = month_of_day [OF this, folded mp_def]
  have e: "y = (if 10 \<le> mp then 400 * e + 100 * c + 4 * q + r + 1 else 400 * e + 100 * c + 4 * q + r)" "m = month_no mp"
    "d = t - month_start mp + 1" using ymd by (auto simp: civil_date_def Let_def mp_def)
  have "days_from_civil y m d = int (unat secs div 86400)"
    unfolding e(1,2) days_from_civil_eq [OF z(1) mp(1,2)] z(2) e(3) by simp
  then have "timegm (gmtime_r secs) = of_nat (unat secs div 86400 * 86400 + unat secs mod 86400 div 3600 * 3600 +
      unat secs mod 86400 div 60 mod 60 * 60 + unat secs mod 86400 mod 60)"
    by (intro timegm_of_parts) (simp_all add: g)
  also have "unat secs div 86400 * 86400 + unat secs mod 86400 div 3600 * 3600 +
      unat secs mod 86400 div 60 mod 60 * 60 + unat secs mod 86400 mod 60 = unat secs"
    using time_of_day [of "unat secs mod 86400"] div_mult_mod_eq [of "unat secs" 86400] by linarith
  finally show ?thesis by simp
qed

text \<open>The years from 1970 to 2105 lie wholly inside the range of \<^verbatim>\<open>time_t\<close>.\<close>

lemma year_days: "list_all (\<lambda>Y. 719162 \<le> 365 * Y + Y div 4 - Y div 100 + Y div 400 \<and>
    365 * Y + Y div 4 - Y div 100 + Y div 400 + (if Y = 2105 then 305 else 365) < 719468 + 49710 \<and>
    (1970 \<le> Y \<longrightarrow> 719468 \<le> 365 * Y + Y div 4 - Y div 100 + Y div 400)) [1969..2105 :: int]"
  by code_simp

lemma gmtime_timegm:
  assumes v: "tm_valid t" and y: "70 \<le> tm_year t" "tm_year t \<le> 205"
  shows "gmtime_r (timegm t) = t\<lparr>tm_wday := weekday_of (tm_year t + 1900) (tm_mon t) (tm_mday t)\<rparr>"
proof -
  have "0 \<le> tm_year t" using y by simp
  then obtain e c q r j where ok: "civil_ok e c q r j"
    and cd: "civil_date (400 * e + 100 * c + 4 * q + r) j = (tm_year t + 1900, tm_mon t + 1, tm_mday t)"
    and j: "j = month_start ((5 * j + 2) div 153) + tm_mday t - 1" by (rule valid_parts [OF v])
  define Y where "Y = 400 * e + 100 * c + 4 * q + r"
  define mp where "mp = (5 * j + 2) div 153"
  have b: "0 \<le> c" "c \<le> 3" "0 \<le> q" "q \<le> 24" "0 \<le> r" "r \<le> 3" "0 \<le> j" "j \<le> 365" using ok by (simp_all add: civil_ok_def)
  note mp = month_of_day [OF b(7,8), folded mp_def] and yp = year_parts [OF b(1-6)]
  have e: "tm_year t + 1900 = (if 10 \<le> mp then Y + 1 else Y)" "tm_mon t + 1 = month_no mp"
    using cd by (auto simp: civil_date_def Let_def mp_def Y_def)
  define z where "z = 146097 * e + 36524 * c + 1461 * q + 365 * r + j - 719468"
  have dz: "days_from_civil (tm_year t + 1900) (tm_mon t + 1) (tm_mday t) = z"
    unfolding e Y_def days_from_civil_eq [OF ok mp(1,2)] z_def using j by (simp add: mp_def)
  have f: "365 * Y + Y div 4 - Y div 100 + Y div 400 = 146097 * e + 36524 * c + 1461 * q + 365 * r"
    unfolding Y_def yp by simp
  have Y: "1969 \<le> Y" "Y \<le> 2105" "Y = 1969 \<longrightarrow> 10 \<le> mp" "Y = 2105 \<longrightarrow> mp < 10" using e(1) y by (auto split: if_splits)
  have "719162 \<le> 146097 * e + 36524 * c + 1461 * q + 365 * r" "146097 * e + 36524 * c + 1461 * q + 365 * r + (if Y = 2105 then 305 else 365) < 719468 + 49710"
    "1970 \<le> Y \<longrightarrow> 719468 \<le> 146097 * e + 36524 * c + 1461 * q + 365 * r"
    using bspec [OF year_days [unfolded list_all_iff], of Y] Y(1,2) unfolding set_upto atLeastAtMost_iff f by blast+
  moreover have "10 \<le> mp \<longrightarrow> 306 \<le> j" "mp < 10 \<longrightarrow> j \<le> 305"
    using mp(3,4) month_cases [OF mp(1,2)] by (auto simp: month_start_def)
  ultimately have z: "0 \<le> z" "z < 49710" using Y b(7,8) unfolding z_def by (cases "Y = 1969", auto split: if_splits)
  obtain D where D: "z = int D" using z(1) by (metis nonneg_int_cases)
  have vt: "0 \<le> tm_hour t" "tm_hour t \<le> 23" "0 \<le> tm_min t" "tm_min t \<le> 59" "0 \<le> tm_sec t" "tm_sec t \<le> 59"
    using v by (auto simp: tm_valid_def Let_def split: if_splits)
  then obtain h mi se where h: "tm_hour t = int h" "tm_min t = int mi" "tm_sec t = int se" by (metis nonneg_int_cases)
  have hb: "h \<le> 23" "mi \<le> 59" "se \<le> 59" "D < 49710" using vt z(2) h D by auto
  define R where "R = h * 3600 + mi * 60 + se"
  have R: "R < 86400" "R div 3600 = h" "R div 60 mod 60 = mi" "R mod 60 = se"
  proof -
    show "R < 86400" using hb by (simp add: R_def)
    have "R div 60 = h * 60 + mi" using hb by (simp add: R_def)
    then show "R div 60 mod 60 = mi" "R div 3600 = h" using hb div_mult2_eq [of R 60 60] by auto
    have r: "R = se + (h * 60 + mi) * 60" by (simp add: R_def)
    show "R mod 60 = se" unfolding r mod_mult_self1 using hb by simp
  qed
  have tg: "timegm t = of_nat (D * 86400 + R)" using timegm_of_parts [OF dz [unfolded D] h] by (simp add: R_def add.assoc)
  have u: "unat (timegm t) = D * 86400 + R" using hb R(1) unfolding tg unat_of_nat by simp
  have p: "unat (timegm t) div 86400 = D" "unat (timegm t) mod 86400 = R" using R(1) by (simp_all add: u)
  note sp = secs_parts [of "timegm t", unfolded p]
  have c: "civil_from_days (int D) = (tm_year t + 1900, tm_mon t + 1, tm_mday t)"
    using civil_from_days_eq [OF ok] cd unfolding D [symmetric] z_def by simp
  have u: "uint (timegm t mod SECS_PER_DAY mod 60) = int se" "uint (timegm t mod SECS_PER_DAY div 60 mod 60) = int mi"
    "uint (timegm t mod SECS_PER_DAY div 3600) = int h"
    using sp(2) R by (simp_all add: uint_nat unat_mod unat_div)
  show ?thesis unfolding gmtime_r_def Let_def sp(1) c u by (cases t) (use h in simp)
qed

section \<open>Properties of the calendar\<close>

text \<open>C28: gmtime_r gives a valid date and time for every time_t, and the weekday it reports is the one
  that follows from 1 January 1970 being a Thursday.\<close>

theorem gmtime_valid:
  "tm_valid (gmtime_r secs) \<and> tm_wday (gmtime_r secs) = int ((unat secs div 86400 + 4) mod 7)"
proof -
  obtain e c q r t y m d where z: "civil_ok e c q r t"
      "int (unat secs div 86400) = 146097 * e + 36524 * c + 1461 * q + 365 * r + t - 719468"
    and ymd: "civil_date (400 * e + 100 * c + 4 * q + r) t = (y, m, d)"
    and g: "gmtime_r secs = \<lparr>tm_sec = int (unat secs mod 86400 mod 60), tm_min = int (unat secs mod 86400 div 60 mod 60),
      tm_hour = int (unat secs mod 86400 div 3600), tm_mday = d, tm_mon = m - 1, tm_year = y - 1900, tm_wday = weekday_of y (m - 1) d\<rparr>"
    by (rule gmtime_parts [of secs])
  have "unat secs mod 86400 div 3600 < 24" by (rule less_mult_imp_div_less) simp
  moreover have "unat secs mod 86400 div 60 mod 60 \<le> 59" "unat secs mod 86400 mod 60 \<le> 59"
    using mod_less_divisor [of 60 "unat secs mod 86400 div 60"] mod_less_divisor [of 60 "unat secs mod 86400"] by linarith+
  ultimately have "tm_valid (gmtime_r secs)" using civil_date_valid [OF z(1) ymd] by (simp add: tm_valid_def g)
  moreover have "tm_wday (gmtime_r secs) = (int (unat secs div 86400) + 4) mod 7"
    using civil_date_weekday [OF z(1) ymd] z(2) by (simp add: g)
  ultimately show ?thesis by (simp add: zmod_int)
qed

text \<open>C27: gmtime_r and timegm are inverse: timegm gives back every time_t that gmtime_r has split, and
  for every valid date of the years 1970 to 2105 gmtime_r gives back the date and time that timegm was
  given, with the weekday filled in.\<close>

theorem calendar_roundtrip:
  "timegm (gmtime_r secs) = secs \<and>
   (tm_valid t \<and> 1970 \<le> tm_year t + 1900 \<and> tm_year t + 1900 \<le> 2105 \<longrightarrow>
      gmtime_r (timegm t) = t\<lparr>tm_wday := weekday_of (tm_year t + 1900) (tm_mon t) (tm_mday t)\<rparr>)"
  using timegm_gmtime [of secs] gmtime_timegm [of t] by simp

theorem calendar_roundtrip_witness:
  "timegm (gmtime_r 1000000000) = 1000000000 \<and>
   gmtime_r (timegm \<lparr>tm_sec = 59, tm_min = 59, tm_hour = 23, tm_mday = 29, tm_mon = 1, tm_year = 124, tm_wday = 0\<rparr>) =
     \<lparr>tm_sec = 59, tm_min = 59, tm_hour = 23, tm_mday = 29, tm_mon = 1, tm_year = 124, tm_wday = 4\<rparr>"
proof -
  let ?t = "\<lparr>tm_sec = 59, tm_min = 59, tm_hour = 23, tm_mday = 29, tm_mon = 1, tm_year = 124, tm_wday = 0\<rparr>"
  have "tm_valid ?t" "weekday_of 2024 1 29 = 4" by code_simp+
  then show ?thesis using calendar_roundtrip [of 1000000000 ?t] by simp
qed

end
