(* ===== verification/Spec2Isabelle.thy ===== *)
theory Spec2Isabelle
  imports Pipe Reclock Mqueue Swap Futex MallocSpec Calendar
begin

text \<open>
  \<^bold>\<open>SuckOS for the Sage 040: a verification library.\<close>

  SuckOS is a small Unix-like kernel for a virtual 68040 machine (\<^verbatim>\<open>src/kernel\<close>), with a user-space
  library (\<^verbatim>\<open>src/lib\<close>) and the programs that run on it.  This development models the parts of it that
  are about data structures shared between tasks or kept in raw memory, and proves what they promise.
  Every definition follows the C function of the same name; a suffix or a prefix is added only where a
  C function was split or its name is taken in HOL.

  \<^bold>\<open>The parts and how they interact.\<close>  The page allocator gives out physical pages; pipes and message
  queues keep their bytes in such pages, and the swap file its tables.  Wait queues are what a task
  sleeps on; semaphores, mutexes, pipes, message queues, futexes and record locks all block on them.
  Record locks, message queues, pipes and futexes are reached through system calls of many processes at
  once.  The C library's allocator runs in user space over the system calls \<^verbatim>\<open>brk\<close> and \<^verbatim>\<open>mmap\<close>.  The
  calendar turns the clock into dates for the file systems and the shell.

  \<^bold>\<open>Theories.\<close>
  \<^item> \<open>Kprelude\<close>: error numbers, \<open>first_idx\<close> (the first slot of a table with a property), lemmas on
    32-bit words and lists, and the collection \<open>kdefs\<close> of constants.
  \<^item> \<open>Kstring\<close> (\<^verbatim>\<open>kernel/string.c\<close>): copying, filling and comparing loops over a byte memory.
  \<^item> \<open>Pmm\<close> (\<^verbatim>\<open>kernel/pmm.c\<close>): the record \<open>pmm\<close> is the file's static state, with the bitmap and the
    reference counts in the byte memory itself.  The locale \<open>page_pool\<close> is the allocator's contract;
    its interpretation \<open>pool\<close> is the model of the code.
  \<^item> \<open>Waitq\<close> (\<^verbatim>\<open>kernel/wait.c\<close>): queues as chains of \<^verbatim>\<open>wait_next\<close> links; \<open>sem_step\<close> and \<open>mutex_step\<close> are
    the steps of any number of tasks using one semaphore or one mutex.
  \<^item> \<open>Fifo\<close>, \<open>Pipe\<close> (\<^verbatim>\<open>kernel/pipe.c\<close>): the locale \<open>fifo_buffer\<close> is the contract of a bounded byte
    buffer, interpreted as \<open>ring\<close> on the ring of a pipe; pipes, FIFOs and socket pairs on top of it.
  \<^item> \<open>Reclock\<close> (\<^verbatim>\<open>kernel/reclock.c\<close>): the table of record locks, the waits-for table, and
    \<open>lock_step\<close>, the calls of all processes.
  \<^item> \<open>Mqueue\<close> (\<^verbatim>\<open>kernel/mqueue.c\<close>): every call on message queues; \<open>mq_step\<close> interleaves the calls, split
    where they sleep.
  \<^item> \<open>Swap\<close> (\<^verbatim>\<open>kernel/swap.c\<close>): the slots of the swap file and the transfer of pages.
  \<^item> \<open>Futex\<close> (\<^verbatim>\<open>kernel/futex.c\<close>): the table of addresses waited on; \<open>fut_step\<close> interleaves waits, wakes,
    signals and time-outs.
  \<^item> \<open>Bytes\<close>, \<open>Malloc\<close>, \<open>MallocLayout\<close>, \<open>MallocBlocks\<close>, \<open>MallocSpec\<close> (\<^verbatim>\<open>lib/malloc.c\<close>, \<^verbatim>\<open>brk\<close> and \<^verbatim>\<open>sbrk\<close> of
    \<^verbatim>\<open>lib/ulib.c\<close>): 32-bit loads and stores, the allocator's definitions, the invariant of its memory,
    the operations on blocks, and the calls as a program sees them.
  \<^item> \<open>Calendar\<close> (\<^verbatim>\<open>kernel/time.c\<close>): dates.

  \<^bold>\<open>State and effects.\<close>  A file's static variables are the fields of one record, passed and returned.
  A table is a list and a pointer into it an index.  Machine words are words of their width where the
  code relies on the width; \<^verbatim>\<open>int\<close> arithmetic that cannot overflow is on integers.  Errors are the left
  side of a sum.  A call runs undisturbed until it returns or sleeps, because the kernel does not preempt
  a task inside a system call; one that sleeps is split there, and everything that can happen between
  the halves is a step of the step relation.  Semaphores are the exception: interrupts run inside
  their calls, and \<open>sem_step\<close> has a step for each stretch with interrupts masked.

  \<^bold>\<open>What the lemmas show.\<close>
  \<^item> Allocator of user space: the ghost layout \<open>heap_inv\<close> (blocks tile their segments, boundary tags
    agree, no two free neighbours, the free lists hold exactly the free blocks) is kept by every
    operation.  A program that writes only into its own blocks keeps a heap that passes
    \<^verbatim>\<open>malloc_check\<close>; blocks are aligned and disjoint; their bytes survive; every call returns.
  \<^item> Pages: each operation changes the number of holders of one page and nothing else; a page handed out
    is zero and belonged to nobody; a run of pages is found if there is one.
  \<^item> Waiting: the linked queues are first-in first-out lists; a semaphore posted by tasks loses no
    wake-up; a mutex has one owner.
  \<^item> Pipes: bytes arrive in order and whole under any interleaving; small writes are atomic; failed
    creation leaks nothing.
  \<^item> Record locks: the table denotes, byte by byte, what each owner holds; write locks exclude
    others after any calls; the bounded deadlock walk is exact; the 32-bit range arithmetic is right.
  \<^item> Message queues: the interleaved calls refine a priority queue; no page is leaked or freed twice.
  \<^item> Futexes and swap: one queue per address out of a shared table; the lowest free slot in spite of the
    hint; what is written to a slot is read back.
  \<^item> Calendar: dates are valid for every time, and the two conversions are inverse.
  \<^item> Where the code does not do what it means to, a theorem says what it does: a semaphore posted by an
    interrupt handler, a stale entry of the waits-for table, a peek with \<^verbatim>\<open>MSG_WAITALL\<close>, an
    \<^verbatim>\<open>mq_open\<close> without a free descriptor, the count of mapped bytes.

  \<^bold>\<open>Loops.\<close>  No fuel is used.  Loops over tables and numbers are structural recursions or have a
  termination proof.  Loops that follow pointers in memory (strings, wait queues, free lists, segments,
  the retries of \<^verbatim>\<open>malloc\<close> and \<^verbatim>\<open>realloc\<close>) are partial functions whose value \<open>None\<close> means that they never
  return; that they return on a consistent state is proved, for the allocator on its own and for strings
  and wait queues as part of what their operations do.

  \<^bold>\<open>Parameters.\<close>  User memory (\<^verbatim>\<open>uaccess\<close>), the descriptor table, the clock, pending signals, the file
  system under the swap file and the kernel's answers to \<^verbatim>\<open>brk\<close> and \<^verbatim>\<open>mmap\<close> are arguments of the
  definitions that use them.  The theorems hold for all their values, except where a statement says what
  is assumed of the kernel's answers.

  \<^bold>\<open>Not modelled.\<close>  The file systems, the virtual memory of processes, scheduling, signals,
  TCP, terminals, drivers, the shell, the dynamic linker and the programs.  They are either
  device and register access, or code whose state is spread over many files; a model of a piece
  would have to invent the rest.  Of \<^verbatim>\<open>kernel/poll.c\<close> only \<^verbatim>\<open>poll_wake\<close> is modelled, and of \<^verbatim>\<open>lib/ulib.c\<close>
  only the break.  Message output, and counters that are only reported, are left out.
\<close>

end
